(* ===== verification/Tie_Prelude.thy ===== *)
theory Tie_Prelude
  imports
    Main
    "HOL-Library.Word"
    "HOL-Library.AList"
    "HOL-Library.Multiset"
    "HOL-Library.Char_ord"
    "HOL-Library.List_Lexorder"
begin

unbundle bit_operations_syntax

text \<open>
  The shared vocabulary of the development: the machine types of the Go sources, the two byte
  views of a Go string, Go's built-in map and the order on strings, a comparison sort, and the
  interface of a keyed store that the sharded index maps (\<open>lockedTree\<close>) and the tiered
  association sets (\<open>AssociationSet\<close>) both implement.

  \<^item> \<open>uint64\<close> is \<^typ>\<open>64 word\<close> (arithmetic wraps), \<open>byte\<close> is \<^typ>\<open>8 word\<close>; \<open>int\<close> and \<open>int64\<close>
    (levels, file offsets, counts) are \<^typ>\<open>int\<close> or \<^typ>\<open>nat\<close>: no operation of the sources
    drives them near their bounds, the end of a page apart, whose sum \<open>int_add\<close> wraps.
  \<^item> A Go \<open>string\<close> is a byte sequence: \<^typ>\<open>string\<close>, whose characters are exactly the 256 bytes.
  \<^item> A Go \<open>map\<close> is an association list with distinct keys. Reading, assigning and deleting a key
    are \<^const>\<open>map_of\<close>, \<^const>\<open>AList.update\<close> and \<^const>\<open>AList.delete\<close>; a \<open>nil\<close> map and an empty
    one behave alike. \<open>range\<close> visits the entries in the list's order: Go leaves the order open, so
    results that depend on it are only stated up to it (as sets or multisets).
  \<^item> A fixed-size Go array of shards is a function of the index, only ever applied below its size.
\<close>

section \<open>Machine types and strings\<close>

type_synonym u64 = "64 word"
type_synonym byte = "8 word"

text \<open>\<^verbatim>\<open>[]byte(s)\<close> and \<^verbatim>\<open>string(b)\<close>.\<close>

definition string_bytes :: "string \<Rightarrow> byte list" where
  "string_bytes s = map (\<lambda>c. of_nat (of_char c)) s"

definition bytes_string :: "byte list \<Rightarrow> string" where
  "bytes_string bs = map (\<lambda>b. char_of (unat b)) bs"

lemma unat_of_char_byte [simp]: "unat (of_nat (of_char c) :: byte) = of_char c"
proof -
  have "of_char c mod 256 = (of_char c :: nat)" by (metis char_of_char of_char_of)
  then show ?thesis by (simp add: unat_of_nat)
qed

lemma unat_byte_mod [simp]: "unat (b :: byte) mod 256 = unat b"
  using unsigned_less [of b, where ?'a = nat] by simp

lemma unat_byte_less [simp]: "unat (b :: byte) < 256"
  using unsigned_less [of b, where ?'a = nat] by simp

lemma bytes_string_bytes [simp]: "bytes_string (string_bytes s) = s"
  by (induction s) (simp_all add: bytes_string_def string_bytes_def)

lemma string_bytes_string [simp]: "string_bytes (bytes_string bs) = bs"
  by (induction bs) (simp_all add: bytes_string_def string_bytes_def)

lemma length_string_bytes [simp]: "length (string_bytes s) = length s"
  by (simp add: string_bytes_def)

lemma length_bytes_string [simp]: "length (bytes_string bs) = length bs"
  by (simp add: bytes_string_def)

lemma string_bytes_inject [simp]: "string_bytes s = string_bytes t \<longleftrightarrow> s = t"
  by (metis bytes_string_bytes)

text \<open>
  \<^verbatim>\<open>binary.LittleEndian\<close>: the low \<open>n\<close> bytes of a word, least significant first, and back.
\<close>

fun le_bytes :: "nat \<Rightarrow> u64 \<Rightarrow> byte list" where
  "le_bytes 0 w = []"
| "le_bytes (Suc n) w = ucast w # le_bytes n (drop_bit 8 w)"

fun le_word :: "byte list \<Rightarrow> u64" where
  "le_word [] = 0"
| "le_word (b # bs) = ucast b OR push_bit 8 (le_word bs)"

lemma length_le_bytes [simp]: "length (le_bytes n w) = n"
  by (induction n arbitrary: w) auto

lemma le_word_le_bytes: "le_word (le_bytes n w) = take_bit (8 * n) w"
proof (induction n arbitrary: w)
  case 0
  then show ?case by simp
next
  case (Suc n)
  show ?case
    by (rule bit_word_eqI) (auto simp: Suc bit_simps)
qed

lemma le_word_8 [simp]: "le_word (le_bytes 8 w) = w"
  by (simp add: le_word_le_bytes take_bit_word_eq_self)

section \<open>Go maps\<close>

lemma option_eqI: "(\<And>x. a = Some x \<longleftrightarrow> b = Some x) \<Longrightarrow> a = b"
  by (cases a; cases b) auto

lemma map_of_update_eq [simp]: "map_of (AList.update k v m) = (map_of m)(k \<mapsto> v)"
  by (simp add: update_conv')

lemma map_of_delete_eq [simp]: "map_of (AList.delete k m) = (map_of m)(k := None)"
  by (simp add: delete_conv')

lemma distinct_keys_update [simp]:
  "distinct (map fst m) \<Longrightarrow> distinct (map fst (AList.update k v m))"
  by (rule distinct_update)

lemma distinct_keys_delete [simp]:
  "distinct (map fst m) \<Longrightarrow> distinct (map fst (AList.delete k m))"
  by (rule distinct_delete)

lemma keys_update: "fst ` set (AList.update k v m) = insert k (fst ` set m)"
  using dom_update [of k v m] by (auto simp: dom_map_of_conv_image_fst)

lemma keys_delete: "fst ` set (AList.delete k m) = fst ` set m - {k}"
  by (simp add: delete_keys flip: set_map)

lemma length_update:
  "length (AList.update k v m) = (if k \<in> fst ` set m then length m else Suc (length m))"
  by (induction m) auto

section \<open>Comparison sorting\<close>

text \<open>
  \<^verbatim>\<open>slices.SortFunc\<close> with a comparator that returns a negative, zero or positive number. The
  sources only rely on the result being ordered; where the comparator tells every two distinct
  elements apart, that result is unique (\<open>sorted_by_unique\<close> below), whatever algorithm made it.
\<close>

fun insort_by :: "('a \<Rightarrow> 'a \<Rightarrow> int) \<Rightarrow> 'a \<Rightarrow> 'a list \<Rightarrow> 'a list" where
  "insort_by cmp x [] = [x]"
| "insort_by cmp x (y # ys) = (if cmp x y \<le> 0 then x # y # ys else y # insort_by cmp x ys)"

fun sort_by :: "('a \<Rightarrow> 'a \<Rightarrow> int) \<Rightarrow> 'a list \<Rightarrow> 'a list" where
  "sort_by cmp [] = []"
| "sort_by cmp (x # xs) = insort_by cmp x (sort_by cmp xs)"

text \<open>\<^verbatim>\<open>cmp.Compare\<close> on an ordered type.\<close>

definition cmpCompare :: "'a::linorder \<Rightarrow> 'a \<Rightarrow> int" where
  "cmpCompare a b = (if a < b then -1 else if b < a then 1 else 0)"

text \<open>A comparator that is a total order on the elements it compares.\<close>

definition total_cmp :: "('a \<Rightarrow> 'a \<Rightarrow> int) \<Rightarrow> bool" where
  "total_cmp cmp \<longleftrightarrow>
     (\<forall>a b. cmp a b \<le> 0 \<or> cmp b a \<le> 0) \<and>
     (\<forall>a b c. cmp a b \<le> 0 \<longrightarrow> cmp b c \<le> 0 \<longrightarrow> cmp a c \<le> 0)"

lemma mset_insort_by [simp]: "mset (insort_by cmp x xs) = add_mset x (mset xs)"
  by (induction xs) auto

lemma mset_sort_by [simp]: "mset (sort_by cmp xs) = mset xs"
  by (induction xs) auto

lemma set_sort_by [simp]: "set (sort_by cmp xs) = set xs"
  by (metis mset_sort_by set_mset_mset)

lemma length_sort_by [simp]: "length (sort_by cmp xs) = length xs"
  by (metis mset_sort_by size_mset)

lemma set_insort_by [simp]: "set (insort_by cmp x xs) = insert x (set xs)"
  by (metis mset_insort_by set_mset_add_mset_insert set_mset_mset)

lemma sorted_insort_by:
  assumes "total_cmp cmp" "sorted_wrt (\<lambda>a b. cmp a b \<le> 0) xs"
  shows "sorted_wrt (\<lambda>a b. cmp a b \<le> 0) (insort_by cmp x xs)"
  using assms(2)
proof (induction xs)
  case Nil
  then show ?case by simp
next
  case (Cons y ys)
  show ?case
  proof (cases "cmp x y \<le> 0")
    case True
    then have "cmp x z \<le> 0" if "z \<in> set ys" for z
      using assms(1) Cons.prems that unfolding total_cmp_def by auto
    with True Cons.prems show ?thesis by simp
  next
    case False
    then have "cmp y x \<le> 0" using assms(1) unfolding total_cmp_def by blast
    with False Cons show ?thesis by auto
  qed
qed

lemma sorted_sort_by:
  "total_cmp cmp \<Longrightarrow> sorted_wrt (\<lambda>a b. cmp a b \<le> 0) (sort_by cmp xs)"
  by (induction xs) (auto intro: sorted_insort_by)

lemma sorted_by_unique:
  assumes "total_cmp cmp" "\<And>a b. cmp a b \<le> 0 \<Longrightarrow> cmp b a \<le> 0 \<Longrightarrow> a = b"
    and "sorted_wrt (\<lambda>a b. cmp a b \<le> 0) xs" "sorted_wrt (\<lambda>a b. cmp a b \<le> 0) ys"
    and "mset xs = mset ys"
  shows "xs = ys"
  using assms(3-5)
proof (induction xs arbitrary: ys)
  case Nil
  then show ?case by simp
next
  case (Cons x xs)
  then obtain y ys' where ys: "ys = y # ys'" by (cases ys) auto
  have "x \<in> set ys" "y \<in> set (x # xs)"
    using Cons.prems(3) ys by (metis list.set_intros(1) mset_eq_setD)+
  then have "cmp y x \<le> 0 \<or> y = x" "cmp x y \<le> 0 \<or> x = y"
    using Cons.prems(1,2) ys by auto
  then have "x = y" using assms(2) by blast
  with Cons ys show ?case by simp
qed

lemma total_cmp_Compare [simp]: "total_cmp cmpCompare"
  by (auto simp: total_cmp_def cmpCompare_def split: if_splits)

section \<open>The interface of a keyed store\<close>

text \<open>
  What the index promises its clients: point lookups after an insert or a delete, an enumeration
  that visits every entry once, and a size. The sharded \<open>lockedTree\<close> and the tiered
  \<open>AssociationSet\<close> are the two providers.
\<close>

locale kv_store =
  fixes empty :: "'s"
    and get :: "'s \<Rightarrow> 'k \<Rightarrow> 'v option"
    and put :: "'k \<Rightarrow> 'v \<Rightarrow> 's \<Rightarrow> 's"
    and del :: "'k \<Rightarrow> 's \<Rightarrow> 's"
    and entries :: "'s \<Rightarrow> ('k \<times> 'v) list"
    and size_of :: "'s \<Rightarrow> nat"
    and inv :: "'s \<Rightarrow> bool"
  assumes get_empty: "get empty = Map.empty"
    and get_put: "inv s \<Longrightarrow> get (put k v s) = (get s)(k \<mapsto> v)"
    and get_del: "inv s \<Longrightarrow> get (del k s) = (get s)(k := None)"
    and inv_empty: "inv empty"
    and inv_put: "inv s \<Longrightarrow> inv (put k v s)"
    and inv_del: "inv s \<Longrightarrow> inv (del k s)"
    and map_of_entries: "inv s \<Longrightarrow> map_of (entries s) = get s"
    and distinct_entries: "inv s \<Longrightarrow> distinct (map fst (entries s))"
    and size_of_eq: "inv s \<Longrightarrow> size_of s = length (entries s)"
begin

lemmas laws = get_empty get_put get_del inv_empty inv_put inv_del

lemma entries_iff: "inv s \<Longrightarrow> (k, v) \<in> set (entries s) \<longleftrightarrow> get s k = Some v"
  by (metis distinct_entries map_of_entries map_of_eq_Some_iff)

lemma entry_get: "inv s \<Longrightarrow> e \<in> set (entries s) \<Longrightarrow> get s (fst e) = Some (snd e)"
  by (cases e) (simp add: entries_iff)

lemma keys_entries: "inv s \<Longrightarrow> fst ` set (entries s) = dom (get s)"
  by (metis dom_map_of_conv_image_fst map_of_entries)

lemma finite_dom: "inv s \<Longrightarrow> finite (dom (get s))"
  by (simp flip: keys_entries)

lemma size_of_card: "inv s \<Longrightarrow> size_of s = card (dom (get s))"
proof -
  assume "inv s"
  then have "card (set (map fst (entries s))) = length (entries s)"
    using distinct_card [OF distinct_entries] by simp
  with \<open>inv s\<close> show ?thesis by (simp add: size_of_eq flip: keys_entries)
qed

text \<open>Inserting a selection of entries one by one, as every set operation of the index does.\<close>

lemma put_selected:
  assumes "inv s0" "distinct (map fst es)"
  shows "inv (fold (\<lambda>(k, v) s. if P k v then put k v s else s) es s0)"
    and "get (fold (\<lambda>(k, v) s. if P k v then put k v s else s) es s0) k =
      (case map_of es k of
         Some v \<Rightarrow> if P k v then Some v else get s0 k
       | None \<Rightarrow> get s0 k)"
  using assms
proof (induction es arbitrary: s0)
  case Nil
  { case 1 then show ?case by simp }
  { case 2 then show ?case by simp }
next
  case (Cons e es)
  obtain k' v' where e: "e = (k', v')" by (cases e)
  { case (1 s0)
    then have "inv (if P k' v' then put k' v' s0 else s0)" by (simp add: inv_put)
    with 1 Cons.IH(1) show ?case by (simp add: e) }
  { case (2 s0)
    let ?s1 = "if P k' v' then put k' v' s0 else s0"
    from 2 have s1: "inv ?s1" by (simp add: inv_put)
    from 2 have nk: "map_of es k' = None" by (auto simp: e map_of_eq_None_iff)
    from 2 have "get (fold (\<lambda>(k, v) s. if P k v then put k v s else s) (e # es) s0) k =
        (case map_of es k of Some v \<Rightarrow> if P k v then Some v else get ?s1 k | None \<Rightarrow> get ?s1 k)"
      using Cons.IH(2) [OF s1] by (simp add: e)
    with nk 2 show ?case by (auto simp: e get_put split: option.splits) }
qed

lemma get_put_selected:
  assumes "inv t"
  shows "get (fold (\<lambda>(k, v) s. if P k v then put k v s else s) (entries t) empty) k =
    (case get t k of Some v \<Rightarrow> if P k v then Some v else None | None \<Rightarrow> None)"
  using assms by (simp add: put_selected(2) inv_empty distinct_entries map_of_entries get_empty
      split: option.splits)

text \<open>Inserting a list of entries, later ones over earlier ones.\<close>

lemma put_all:
  assumes "inv s0"
  shows "inv (fold (\<lambda>(k, v). put k v) es s0)"
    and "get (fold (\<lambda>(k, v). put k v) es s0) = get s0 ++ map_of (rev es)"
  using assms
proof (induction es arbitrary: s0)
  case Nil
  { case 1 then show ?case by simp }
  { case 2 then show ?case by simp }
next
  case (Cons e es)
  { case (1 s0) then show ?case using Cons.IH(1) by (simp add: inv_put split: prod.splits) }
  { case (2 s0) then show ?case using Cons.IH(2)
      by (cases e) (auto simp: inv_put get_put fun_eq_iff map_add_def split: option.splits) }
qed

lemma inv_put_selected:
  "inv t \<Longrightarrow> inv (fold (\<lambda>(k, v) s. if P k v then put k v s else s) (entries t) empty)"
  by (simp add: put_selected(1) inv_empty distinct_entries)

end

lemma distinct_singleton: "distinct xs \<Longrightarrow> set xs = {a} \<Longrightarrow> xs = [a]"
  by (cases xs; cases "tl xs") (auto simp: subset_singleton_iff)

end
