(* ===== verification/Locked_Tree.thy ===== *)
theory Locked_Tree
  imports Tie_Prelude
begin

text \<open>
  \<^verbatim>\<open>tiedb/lockedtree.go\<close>: the outer index maps, each split into sixteen independently locked
  shards. A shard is chosen by the low four bits of a hash of the key. The locks only order
  concurrent calls; each operation is one critical section per shard and is modelled as one step.
\<close>

section \<open>Data and operations\<close>

definition lockedTreeShards :: nat where
  "lockedTreeShards = 16"

record ('k, 'v) lockedTree =
  lt_shards :: "nat \<Rightarrow> ('k \<times> 'v) list"
  lt_hash :: "'k \<Rightarrow> u64"

definition newLockedTree :: "('k \<Rightarrow> u64) \<Rightarrow> ('k, 'v) lockedTree" where
  "newLockedTree hash = \<lparr>lt_shards = (\<lambda>_. []), lt_hash = hash\<rparr>"

definition lt_shardFor :: "('k, 'v) lockedTree \<Rightarrow> 'k \<Rightarrow> nat" where
  "lt_shardFor t key = unat (lt_hash t key AND of_nat (lockedTreeShards - 1))"

definition lt_Get :: "('k, 'v) lockedTree \<Rightarrow> 'k \<Rightarrow> 'v option" where
  "lt_Get t key = map_of (lt_shards t (lt_shardFor t key)) key"

definition lt_Put :: "'k \<Rightarrow> 'v \<Rightarrow> ('k, 'v) lockedTree \<Rightarrow> ('k, 'v) lockedTree" where
  "lt_Put key v t =
     (let i = lt_shardFor t key
      in t\<lparr>lt_shards := (lt_shards t)(i := AList.update key v (lt_shards t i))\<rparr>)"

text \<open>The value stored under \<open>key\<close>, made with \<open>mk\<close> and stored when absent.\<close>

definition lt_GetOrPut ::
    "'k \<Rightarrow> (unit \<Rightarrow> 'v) \<Rightarrow> ('k, 'v) lockedTree \<Rightarrow> 'v \<times> ('k, 'v) lockedTree" where
  "lt_GetOrPut key mk t =
     (case lt_Get t key of
        Some v \<Rightarrow> (v, t)
      | None \<Rightarrow> (let v = mk () in (v, lt_Put key v t)))"

definition lt_Delete :: "'k \<Rightarrow> ('k, 'v) lockedTree \<Rightarrow> ('k, 'v) lockedTree" where
  "lt_Delete key t =
     (let i = lt_shardFor t key
      in t\<lparr>lt_shards := (lt_shards t)(i := AList.delete key (lt_shards t i))\<rparr>)"

definition lt_Size :: "('k, 'v) lockedTree \<Rightarrow> nat" where
  "lt_Size t = sum_list (map (\<lambda>i. length (lt_shards t i)) [0..<lockedTreeShards])"

text \<open>\<^verbatim>\<open>ForEach\<close> snapshots and visits one shard after the other: the visited pairs, in order.\<close>

definition lt_ForEach :: "('k, 'v) lockedTree \<Rightarrow> ('k \<times> 'v) list" where
  "lt_ForEach t = concat (map (lt_shards t) [0..<lockedTreeShards])"

section \<open>The hash functions\<close>

definition hashMix :: u64 where
  "hashMix = 0x9e3779b97f4a7c15"

definition uint64Hash :: "u64 \<Rightarrow> u64" where
  "uint64Hash k = k * hashMix"

definition hashHash :: "byte list \<Rightarrow> u64" where
  "hashHash k =
     (let lo = le_word (take 8 k); hi = le_word (take 8 (drop 8 k)) in lo XOR (hi * hashMix))"

definition fnv1a :: "u64 \<Rightarrow> byte list \<Rightarrow> u64" where
  "fnv1a h bs = fold (\<lambda>b h. (h XOR ucast b) * 1099511628211) bs h"

definition fnvOffset :: u64 where
  "fnvOffset = 14695981039346656037"

section \<open>The tree is a keyed store\<close>

definition lt_inv :: "('k, 'v) lockedTree \<Rightarrow> bool" where
  "lt_inv t \<longleftrightarrow>
     (\<forall>i<lockedTreeShards. distinct (map fst (lt_shards t i)) \<and>
        (\<forall>k. i \<noteq> lt_shardFor t k \<longrightarrow> map_of (lt_shards t i) k = None))"

lemma lt_shardFor_less: "lt_shardFor t k < lockedTreeShards"
proof -
  have "lt_hash t k AND 15 \<le> 15" by (rule word_and_le1)
  then show ?thesis by (simp add: lt_shardFor_def lockedTreeShards_def word_le_nat_alt)
qed

lemma lt_hash_Put [simp]: "lt_hash (lt_Put k v t) = lt_hash t"
  by (simp add: lt_Put_def Let_def)

lemma lt_hash_Delete [simp]: "lt_hash (lt_Delete k t) = lt_hash t"
  by (simp add: lt_Delete_def Let_def)

lemma lt_shardFor_Put [simp]: "lt_shardFor (lt_Put k v t) = lt_shardFor t"
  by (simp add: fun_eq_iff lt_shardFor_def)

lemma lt_shardFor_Delete [simp]: "lt_shardFor (lt_Delete k t) = lt_shardFor t"
  by (simp add: fun_eq_iff lt_shardFor_def)

lemma lt_Get_new [simp]: "lt_Get (newLockedTree h) = Map.empty"
  by (simp add: fun_eq_iff lt_Get_def newLockedTree_def)

lemma lt_Get_Put [simp]: "lt_Get (lt_Put k v t) = (lt_Get t)(k \<mapsto> v)"
  by (simp add: fun_eq_iff lt_Get_def) (simp add: lt_Put_def Let_def)

lemma lt_Get_Delete [simp]: "lt_Get (lt_Delete k t) = (lt_Get t)(k := None)"
  by (simp add: fun_eq_iff lt_Get_def) (simp add: lt_Delete_def Let_def)

lemma lt_inv_new [simp]: "lt_inv (newLockedTree h)"
  by (simp add: lt_inv_def newLockedTree_def)

lemma lt_inv_upd:
  assumes "lt_inv t" "distinct (map fst m)" "\<And>k. j \<noteq> lt_shardFor t k \<Longrightarrow> map_of m k = None"
  shows "lt_inv (t\<lparr>lt_shards := (lt_shards t)(j := m)\<rparr>)"
proof -
  have "lt_shardFor (t\<lparr>lt_shards := (lt_shards t)(j := m)\<rparr>) = lt_shardFor t"
    by (simp add: fun_eq_iff lt_shardFor_def)
  with assms show ?thesis by (auto simp: lt_inv_def)
qed

lemma lt_inv_shard:
  assumes "lt_inv t"
  shows "distinct (map fst (lt_shards t (lt_shardFor t k)))"
    and "lt_shardFor t k \<noteq> lt_shardFor t k' \<Longrightarrow> map_of (lt_shards t (lt_shardFor t k)) k' = None"
  using assms lt_shardFor_less [of t k] unfolding lt_inv_def by blast+

lemma lt_inv_Put [simp]: "lt_inv t \<Longrightarrow> lt_inv (lt_Put k v t)"
  unfolding lt_Put_def Let_def
  by (rule lt_inv_upd) (auto simp: lt_inv_shard distinct_update)

lemma lt_inv_Delete [simp]: "lt_inv t \<Longrightarrow> lt_inv (lt_Delete k t)"
  unfolding lt_Delete_def Let_def
  by (rule lt_inv_upd) (auto simp: lt_inv_shard)

text \<open>Concatenating shards with pairwise disjoint key sets.\<close>

lemma map_of_concat_disjoint:
  assumes "distinct is" "\<And>i k. i \<in> set is \<Longrightarrow> i \<noteq> g k \<Longrightarrow> map_of (f i) k = None"
  shows "map_of (concat (map f is)) k = (if g k \<in> set is then map_of (f (g k)) k else None)"
  using assms
proof (induction "is")
  case Nil
  then show ?case by simp
next
  case (Cons i "is")
  have IH: "map_of (concat (map f is)) k = (if g k \<in> set is then map_of (f (g k)) k else None)"
    using Cons by simp
  show ?case
  proof (cases "g k = i")
    case True
    with Cons.prems(1) IH show ?thesis by (simp add: map_add_def split: option.splits)
  next
    case False
    with Cons.prems(2) [of i k] have "map_of (f i) k = None" by force
    with False IH show ?thesis by (simp add: map_add_def split: option.splits)
  qed
qed

lemma distinct_concat_disjoint:
  assumes "distinct is" "\<And>i. i \<in> set is \<Longrightarrow> distinct (map fst (f i))"
    and "\<And>i k. i \<in> set is \<Longrightarrow> i \<noteq> g k \<Longrightarrow> map_of (f i) k = None"
  shows "distinct (map fst (concat (map f is)))"
  using assms
proof (induction "is")
  case Nil
  then show ?case by simp
next
  case (Cons i "is")
  have "fst ` set (f i) \<inter> fst ` set (concat (map f is)) = {}"
  proof (rule ccontr)
    assume "fst ` set (f i) \<inter> fst ` set (concat (map f is)) \<noteq> {}"
    then obtain k j where "map_of (f i) k \<noteq> None" "j \<in> set is" "map_of (f j) k \<noteq> None"
      by (auto simp: map_of_eq_None_iff image_iff)
    with Cons.prems(3) [of i k] Cons.prems(3) [of j k] Cons.prems(1) show False by auto
  qed
  with Cons show ?case by (simp add: image_Un)
qed

lemma map_of_lt_ForEach: "lt_inv t \<Longrightarrow> map_of (lt_ForEach t) = lt_Get t"
  by (rule ext, unfold lt_ForEach_def,
      subst map_of_concat_disjoint [where g = "lt_shardFor t"])
    (auto simp: lt_inv_def lt_Get_def lt_shardFor_less)

lemma distinct_lt_ForEach: "lt_inv t \<Longrightarrow> distinct (map fst (lt_ForEach t))"
  unfolding lt_ForEach_def
  by (rule distinct_concat_disjoint [where g = "lt_shardFor t"]) (auto simp: lt_inv_def)

lemma lt_Size_eq: "lt_Size t = length (lt_ForEach t)"
  by (simp add: lt_Size_def lt_ForEach_def length_concat comp_def)

interpretation lt: kv_store "newLockedTree h" lt_Get lt_Put lt_Delete lt_ForEach lt_Size lt_inv
  for h
  by unfold_locales (simp_all add: map_of_lt_ForEach distinct_lt_ForEach lt_Size_eq)

lemma lt_GetOrPut_spec:
  "lt_GetOrPut k mk t = (v, t') \<Longrightarrow>
     lt_Get t' = (lt_Get t)(k \<mapsto> v) \<and> v = (case lt_Get t k of Some w \<Rightarrow> w | None \<Rightarrow> mk ())"
  by (auto simp: lt_GetOrPut_def Let_def split: option.splits)

end
