(* ===== verification/Association_Set.thy ===== *)
theory Association_Set
  imports Locked_Tree
begin

text \<open>
  \<^verbatim>\<open>tiedb/associationset.go\<close>: the set of associations of one entry, a map from
  \<open>UniqueAssociation\<close> to a position. It has three representations, chosen by size: one inline
  entry, a flat slice of up to 256 entries, and sixteen map shards. The theory models all three
  with the transitions between them and shows that together they are one keyed store.
\<close>

section \<open>Data\<close>

record UniqueAssociation =
  AssociateTo :: u64
  Relation :: u64

definition assocShards :: nat where
  "assocShards = 16"

definition shardThreshold :: nat where
  "shardThreshold = 256"

type_synonym assocEntry = "UniqueAssociation \<times> int"
type_synonym assocShardSet = "nat \<Rightarrow> assocEntry list"

record AssociationSet =
  inlineKey :: UniqueAssociation
  inlineVal :: int
  hasInline :: bool
  small :: "assocEntry list option"   \<comment> \<open>\<open>None\<close>: nil\<close>
  shards :: "assocShardSet option"    \<comment> \<open>\<open>None\<close>: nil, until promoted\<close>

definition newAssociationSet :: AssociationSet where
  "newAssociationSet =
     \<lparr>inlineKey = \<lparr>AssociateTo = 0, Relation = 0\<rparr>, inlineVal = 0, hasInline = False,
      small = None, shards = None\<rparr>"

section \<open>Operations\<close>

definition as_shardFor :: "UniqueAssociation \<Rightarrow> nat" where
  "as_shardFor key =
     unat ((AssociateTo key XOR (Relation key * 0x9e3779b97f4a7c15)) AND of_nat (assocShards - 1))"

definition shard_Put :: "UniqueAssociation \<Rightarrow> int \<Rightarrow> assocShardSet \<Rightarrow> assocShardSet" where
  "shard_Put key pos ss =
     (let i = as_shardFor key in ss(i := AList.update key pos (ss i)))"

definition promote :: "AssociationSet \<Rightarrow> AssociationSet" where
  "promote s =
     s\<lparr>shards := Some (fold (\<lambda>(k, p) ss. shard_Put k p ss)
                         (case small s of Some es \<Rightarrow> es | None \<Rightarrow> []) (\<lambda>_. [])),
       small := None\<rparr>"

definition as_Get :: "AssociationSet \<Rightarrow> UniqueAssociation \<Rightarrow> int option" where
  "as_Get s key =
     (case shards s of
        None \<Rightarrow>
          (case small s of
             Some es \<Rightarrow> map_of es key
           | None \<Rightarrow> if hasInline s \<and> inlineKey s = key then Some (inlineVal s) else None)
      | Some ss \<Rightarrow> map_of (ss (as_shardFor key)) key)"

definition as_Put :: "UniqueAssociation \<Rightarrow> int \<Rightarrow> AssociationSet \<Rightarrow> AssociationSet" where
  "as_Put key pos s =
     (case shards s of
        Some ss \<Rightarrow> s\<lparr>shards := Some (shard_Put key pos ss)\<rparr>
      | None \<Rightarrow>
          (case small s of
             Some es \<Rightarrow>
               (if key \<in> fst ` set es then s\<lparr>small := Some (AList.update key pos es)\<rparr>
                else let s' = s\<lparr>small := Some (es @ [(key, pos)])\<rparr>
                     in if length es + 1 > shardThreshold then promote s' else s')
           | None \<Rightarrow>
               (if \<not> hasInline s then s\<lparr>inlineKey := key, inlineVal := pos, hasInline := True\<rparr>
                else if inlineKey s = key then s\<lparr>inlineVal := pos\<rparr>
                else s\<lparr>small := Some [(inlineKey s, inlineVal s), (key, pos)],
                       hasInline := False\<rparr>)))"

text \<open>\<^verbatim>\<open>s.small[i] = s.small[last]; s.small = s.small[:last]\<close> at the first matching index.\<close>

fun swap_remove :: "UniqueAssociation \<Rightarrow> assocEntry list \<Rightarrow> assocEntry list" where
  "swap_remove key [] = []"
| "swap_remove key (e # es) =
     (if fst e = key then (if es = [] then [] else last es # butlast es)
      else e # swap_remove key es)"

definition as_Delete :: "UniqueAssociation \<Rightarrow> AssociationSet \<Rightarrow> AssociationSet" where
  "as_Delete key s =
     (case shards s of
        Some ss \<Rightarrow>
          (let i = as_shardFor key in s\<lparr>shards := Some (ss(i := AList.delete key (ss i)))\<rparr>)
      | None \<Rightarrow>
          (case small s of
             Some es \<Rightarrow> s\<lparr>small := Some (swap_remove key es)\<rparr>
           | None \<Rightarrow>
               (if hasInline s \<and> inlineKey s = key then s\<lparr>hasInline := False\<rparr> else s)))"

definition as_Size :: "AssociationSet \<Rightarrow> nat" where
  "as_Size s =
     (case shards s of
        None \<Rightarrow>
          (case small s of
             Some es \<Rightarrow> length es
           | None \<Rightarrow> if hasInline s then 1 else 0)
      | Some ss \<Rightarrow> sum_list (map (\<lambda>i. length (ss i)) [0..<assocShards]))"

definition as_ForEach :: "AssociationSet \<Rightarrow> assocEntry list" where
  "as_ForEach s =
     (case shards s of
        None \<Rightarrow>
          (case small s of
             Some es \<Rightarrow> es
           | None \<Rightarrow> if hasInline s then [(inlineKey s, inlineVal s)] else [])
      | Some ss \<Rightarrow> concat (map ss [0..<assocShards]))"

definition HasRelation :: "AssociationSet \<Rightarrow> u64 \<Rightarrow> bool" where
  "HasRelation s rel =
     (case shards s of
        None \<Rightarrow>
          (case small s of
             Some es \<Rightarrow> list_ex (\<lambda>e. Relation (fst e) = rel) es
           | None \<Rightarrow> hasInline s \<and> Relation (inlineKey s) = rel)
      | Some ss \<Rightarrow>
          list_ex (\<lambda>i. list_ex (\<lambda>e. Relation (fst e) = rel) (ss i)) [0..<assocShards])"

definition intersect :: "AssociationSet \<Rightarrow> AssociationSet \<Rightarrow> AssociationSet" where
  "intersect s other =
     fold (\<lambda>(key, pos) out. if as_Get other key \<noteq> None then as_Put key pos out else out)
       (as_ForEach s) newAssociationSet"

definition intersectByAssociate :: "AssociationSet \<Rightarrow> AssociationSet \<Rightarrow> AssociationSet" where
  "intersectByAssociate s other =
     (let associates = map (\<lambda>e. AssociateTo (fst e)) (as_ForEach other)
      in fold (\<lambda>(key, pos) out.
           if AssociateTo key \<in> set associates then as_Put key pos out else out)
         (as_ForEach s) newAssociationSet)"

definition exclude :: "AssociationSet \<Rightarrow> AssociationSet \<Rightarrow> AssociationSet" where
  "exclude s other =
     fold (\<lambda>(key, pos) out. if as_Get other key = None then as_Put key pos out else out)
       (as_ForEach s) newAssociationSet"

section \<open>The set is a keyed store\<close>

definition shards_inv :: "assocShardSet \<Rightarrow> bool" where
  "shards_inv ss \<longleftrightarrow>
     (\<forall>i<assocShards. distinct (map fst (ss i)) \<and> (\<forall>k. i \<noteq> as_shardFor k \<longrightarrow> map_of (ss i) k = None))"

text \<open>At most one representation holds entries, each without duplicate keys.\<close>

definition as_inv :: "AssociationSet \<Rightarrow> bool" where
  "as_inv s \<longleftrightarrow>
     (case shards s of
        Some ss \<Rightarrow> shards_inv ss \<and> small s = None
      | None \<Rightarrow>
          (case small s of
             Some es \<Rightarrow> distinct (map fst es) \<and> length es \<le> shardThreshold \<and> \<not> hasInline s
           | None \<Rightarrow> True))"

lemma as_shardFor_less: "as_shardFor k < assocShards"
proof -
  have "(AssociateTo k XOR (Relation k * 0x9e3779b97f4a7c15)) AND 15 \<le> 15"
    by (rule word_and_le1)
  then show ?thesis by (simp add: as_shardFor_def assocShards_def word_le_nat_alt)
qed

lemma map_of_shard_Put [simp]:
  "map_of (shard_Put k p ss (as_shardFor k')) k' =
     (if k' = k then Some p else map_of (ss (as_shardFor k')) k')"
  by (auto simp: shard_Put_def Let_def)

lemma shards_inv_Put: "shards_inv ss \<Longrightarrow> shards_inv (shard_Put k p ss)"
  by (auto simp: shards_inv_def shard_Put_def Let_def distinct_update split: if_splits)

lemma promote_fold:
  assumes "distinct (map fst es)" "shards_inv ss"
  shows "shards_inv (fold (\<lambda>(k, p) ss. shard_Put k p ss) es ss)"
    and "map_of (fold (\<lambda>(k, p) ss. shard_Put k p ss) es ss (as_shardFor k)) k =
      (case map_of es k of Some p \<Rightarrow> Some p | None \<Rightarrow> map_of (ss (as_shardFor k)) k)"
  using assms
proof (induction es arbitrary: ss)
  case Nil
  { case 1 then show ?case by simp }
  { case 2 then show ?case by simp }
next
  case (Cons e es)
  { case (1 ss)
    with Cons.IH(1) shards_inv_Put show ?case by (simp split: prod.splits) }
  { case (2 ss)
    obtain k' p' where e: "e = (k', p')" by (cases e)
    from 2 have nk: "map_of es k' = None" by (auto simp: e map_of_eq_None_iff)
    from 2 have "map_of (fold (\<lambda>(k, p) ss. shard_Put k p ss) (e # es) ss (as_shardFor k)) k =
        (case map_of es k of Some p \<Rightarrow> Some p
         | None \<Rightarrow> map_of (shard_Put k' p' ss (as_shardFor k)) k)"
      using Cons.IH(2) [OF _ shards_inv_Put] by (simp add: e)
    with nk show ?case by (auto simp: e split: option.splits) }
qed

lemma mem_set_swap_remove:
  "distinct (map fst es) \<Longrightarrow> set (swap_remove k es) = {e \<in> set es. fst e \<noteq> k}"
proof (induction es)
  case Nil
  then show ?case by simp
next
  case (Cons e es)
  show ?case
  proof (cases "fst e = k")
    case True
    with Cons.prems have "k \<notin> fst ` set es" by simp
    then have "\<forall>e' \<in> set es. fst e' \<noteq> k" by blast
    moreover have "es \<noteq> [] \<Longrightarrow> set es = insert (last es) (set (butlast es))"
      by (metis append_butlast_last_id list.simps(15) rotate1.simps(2) set_rotate1)
    ultimately show ?thesis using True by auto
  next
    case False
    with Cons show ?thesis by auto
  qed
qed

lemma distinct_swap_remove:
  "distinct (map fst es) \<Longrightarrow> distinct (map fst (swap_remove k es))"
proof (induction es)
  case Nil
  then show ?case by simp
next
  case (Cons e es)
  have "distinct (map fst (last es # butlast es))" if "es \<noteq> []"
  proof -
    have "mset (last es # butlast es) = mset es"
      using that by (metis append_butlast_last_id mset_append mset.simps add_mset_add_single union_commute mset_single_iff_right)
    then show ?thesis
      using Cons.prems by (metis distinct.simps(2) list.simps(9) mset_eq_imp_distinct_iff mset_map)
  qed
  with Cons show ?case by (auto simp: mem_set_swap_remove)
qed

lemma length_swap_remove: "length (swap_remove k es) \<le> length es"
  by (induction es) auto

lemma map_of_swap_remove:
  assumes "distinct (map fst es)"
  shows "map_of (swap_remove k es) = (map_of es)(k := None)"
proof -
  have "set (swap_remove k es) = set (AList.delete k es)"
    using mem_set_swap_remove [OF assms] by (auto simp: AList.delete_eq)
  then have "map_of (swap_remove k es) = map_of (AList.delete k es)"
    using distinct_swap_remove [OF assms] assms by (subst map_of_inject_set) simp_all
  then show ?thesis by simp
qed

lemma as_Get_new [simp]: "as_Get newAssociationSet = Map.empty"
  by (simp add: fun_eq_iff as_Get_def newAssociationSet_def)

lemma as_inv_new [simp]: "as_inv newAssociationSet"
  by (simp add: as_inv_def newAssociationSet_def)

lemma promote_spec:
  assumes "small s = Some es" "distinct (map fst es)"
  shows "as_Get (promote s) = map_of es" and "as_inv (promote s)"
  using promote_fold [OF assms(2), of "\<lambda>_. []"] assms
  by (auto simp: fun_eq_iff as_Get_def as_inv_def promote_def shards_inv_def split: option.splits)

lemma map_of_append_new:
  "k \<notin> fst ` set es \<Longrightarrow> map_of (es @ [(k, p)]) = (map_of es)(k \<mapsto> p)"
  by (rule ext) (simp add: map_add_def map_of_eq_None_iff [THEN iffD2] split: option.splits)

lemma as_Put_spec:
  assumes "as_inv s"
  shows "as_Get (as_Put k p s) = (as_Get s)(k \<mapsto> p)" and "as_inv (as_Put k p s)"
proof -
  consider (sharded) ss where "shards s = Some ss"
    | (slice) es where "shards s = None" "small s = Some es"
    | (inline) "shards s = None" "small s = None" by fastforce
  then have "as_Get (as_Put k p s) = (as_Get s)(k \<mapsto> p) \<and> as_inv (as_Put k p s)"
  proof cases
    case sharded
    with assms show ?thesis
      by (auto simp: as_Put_def as_Get_def as_inv_def fun_eq_iff shards_inv_Put)
  next
    case slice
    show ?thesis
    proof (cases "k \<in> fst ` set es")
      case True
      with slice assms show ?thesis
        by (auto simp: as_Put_def as_Get_def as_inv_def fun_eq_iff length_update distinct_update)
    next
      case False
      let ?s' = "s\<lparr>small := Some (es @ [(k, p)])\<rparr>"
      have d: "distinct (map fst (es @ [(k, p)]))" using False slice assms by (auto simp: as_inv_def)
      with promote_spec [of ?s'] map_of_append_new [OF False] slice assms False show ?thesis
        by (auto simp: as_Put_def as_Get_def as_inv_def Let_def)
    qed
  next
    case inline
    with assms show ?thesis
      by (auto simp: as_Put_def as_Get_def as_inv_def fun_eq_iff shardThreshold_def)
  qed
  then show "as_Get (as_Put k p s) = (as_Get s)(k \<mapsto> p)" and "as_inv (as_Put k p s)" by auto
qed

lemma shards_inv_Delete:
  "shards_inv ss \<Longrightarrow> i = as_shardFor k \<Longrightarrow> shards_inv (ss(i := AList.delete k (ss i)))"
  by (simp add: shards_inv_def as_shardFor_less)

lemma as_Delete_spec:
  assumes "as_inv s"
  shows "as_Get (as_Delete k s) = (as_Get s)(k := None)" and "as_inv (as_Delete k s)"
proof -
  consider (sharded) ss where "shards s = Some ss"
    | (slice) es where "shards s = None" "small s = Some es"
    | (inline) "shards s = None" "small s = None" by fastforce
  then have "as_Get (as_Delete k s) = (as_Get s)(k := None) \<and> as_inv (as_Delete k s)"
  proof cases
    case sharded
    with assms show ?thesis
      by (simp add: as_Delete_def as_Get_def as_inv_def fun_eq_iff shards_inv_Delete Let_def)
  next
    case slice
    with assms length_swap_remove [of k es] show ?thesis
      by (simp add: as_Delete_def as_Get_def as_inv_def fun_eq_iff map_of_swap_remove
          distinct_swap_remove)
  next
    case inline
    with assms show ?thesis by (simp add: as_Delete_def as_Get_def as_inv_def fun_eq_iff)
  qed
  then show "as_Get (as_Delete k s) = (as_Get s)(k := None)" and "as_inv (as_Delete k s)" by auto
qed

lemma map_of_as_ForEach: "as_inv s \<Longrightarrow> map_of (as_ForEach s) = as_Get s"
proof (cases "shards s")
  case (Some ss)
  assume "as_inv s"
  with Some show ?thesis
    by (intro ext, simp add: as_ForEach_def as_Get_def)
      (subst map_of_concat_disjoint [where g = as_shardFor],
        auto simp: as_inv_def shards_inv_def as_shardFor_less)
qed (auto simp: as_ForEach_def as_Get_def fun_eq_iff split: option.splits)

lemma distinct_as_ForEach: "as_inv s \<Longrightarrow> distinct (map fst (as_ForEach s))"
  by (cases "shards s")
    (auto simp: as_ForEach_def as_inv_def shards_inv_def
      intro!: distinct_concat_disjoint [where g = as_shardFor] split: option.splits)

lemma as_Size_eq: "as_Size s = length (as_ForEach s)"
  by (auto simp: as_Size_def as_ForEach_def length_concat comp_def split: option.splits)

interpretation as: kv_store newAssociationSet as_Get as_Put as_Delete as_ForEach as_Size as_inv
  by unfold_locales
    (simp_all add: as_Put_spec as_Delete_spec map_of_as_ForEach distinct_as_ForEach as_Size_eq)

section \<open>The set algebra\<close>

lemma HasRelation_ForEach: "HasRelation s rel \<longleftrightarrow> (\<exists>e \<in> set (as_ForEach s). Relation (fst e) = rel)"
  by (cases "shards s"; cases "small s") (auto simp: HasRelation_def as_ForEach_def list_ex_iff)

lemma HasRelation_iff:
  assumes "as_inv s"
  shows "HasRelation s rel \<longleftrightarrow> (\<exists>k. Relation k = rel \<and> as_Get s k \<noteq> None)"
  by (auto simp: HasRelation_ForEach Bex_def as.entries_iff [OF assms])

lemma as_inv_intersect [simp]: "as_inv s \<Longrightarrow> as_inv (intersect s other)"
  unfolding intersect_def by (rule as.inv_put_selected)

lemma as_inv_exclude [simp]: "as_inv s \<Longrightarrow> as_inv (exclude s other)"
  unfolding exclude_def by (rule as.inv_put_selected)

lemma as_inv_intersectByAssociate [simp]: "as_inv s \<Longrightarrow> as_inv (intersectByAssociate s other)"
  unfolding intersectByAssociate_def Let_def by (rule as.inv_put_selected)

lemma as_Get_intersect:
  "as_inv s \<Longrightarrow> as_Get (intersect s other) k = (if as_Get other k \<noteq> None then as_Get s k else None)"
  unfolding intersect_def by (subst as.get_put_selected) (auto split: option.splits)

lemma as_Get_exclude:
  "as_inv s \<Longrightarrow> as_Get (exclude s other) k = (if as_Get other k = None then as_Get s k else None)"
  unfolding exclude_def by (subst as.get_put_selected) (auto split: option.splits)

lemma as_Get_intersectByAssociate:
  assumes "as_inv s" "as_inv other"
  shows "as_Get (intersectByAssociate s other) k =
    (if \<exists>k'. AssociateTo k' = AssociateTo k \<and> as_Get other k' \<noteq> None then as_Get s k else None)"
proof -
  have "AssociateTo k \<in> set (map (\<lambda>e. AssociateTo (fst e)) (as_ForEach other)) \<longleftrightarrow>
      (\<exists>k'. AssociateTo k' = AssociateTo k \<and> as_Get other k' \<noteq> None)"
    using as.entries_iff [OF assms(2)] by (force simp: image_iff)
  then show ?thesis
    unfolding intersectByAssociate_def Let_def
    by (subst as.get_put_selected [OF assms(1)]) (auto split: option.splits)
qed

end
