(* ===== verification/Record_Format.thy ===== *)
theory Record_Format
  imports Locked_Tree
begin

text \<open>
  The on-disk record format of \<^verbatim>\<open>tiedb/datastructures.go\<close> and the decoders of
  \<^verbatim>\<open>tiedb/filehandling.go\<close>: fixed frames of 50 bytes that hold a trie entry, a whole-value hash
  entry, an association, or a tombstone.
\<close>

section \<open>Data\<close>

definition SIZE_DATATYPE :: nat where "SIZE_DATATYPE = 2"
definition SIZE_LEVEL :: nat where "SIZE_LEVEL = 8"
definition SIZE_ID :: nat where "SIZE_ID = 8"
definition SIZE_PARENTID :: nat where "SIZE_PARENTID = SIZE_ID"
definition SIZE_VALUE :: nat where "SIZE_VALUE = 24"

definition ENTRY_SIZE :: nat where
  "ENTRY_SIZE = SIZE_DATATYPE + SIZE_LEVEL + SIZE_ID + SIZE_PARENTID + SIZE_VALUE"

definition TYPE_DELETE :: u64 where "TYPE_DELETE = 10"
definition TYPE_ENTRY :: u64 where "TYPE_ENTRY = 11"
definition TYPE_ASSOCIATION :: u64 where "TYPE_ASSOCIATION = 12"
definition TYPE_HASH :: u64 where "TYPE_HASH = 13"

definition HASH_LEVEL :: int where "HASH_LEVEL = -1"

lemmas format_sizes = SIZE_DATATYPE_def SIZE_LEVEL_def SIZE_ID_def SIZE_PARENTID_def
  SIZE_VALUE_def ENTRY_SIZE_def

lemmas format_types = TYPE_DELETE_def TYPE_ENTRY_def TYPE_ASSOCIATION_def TYPE_HASH_def

text \<open>One node of the value trie: the parent's entry id and a 24-byte chunk.\<close>

record UniqueValue =
  ParentId :: u64
  Value :: "byte list"

record Triple =
  t_Level :: int
  t_Key :: u64
  t_Value1Level :: int
  t_Value1 :: u64
  t_Value2Level :: int
  t_Value2 :: u64

section \<open>Encoders\<close>

definition EntryToBytes :: "int \<Rightarrow> u64 \<Rightarrow> UniqueValue \<Rightarrow> byte list" where
  "EntryToBytes level entryID uv =
     le_bytes SIZE_DATATYPE TYPE_ENTRY @ le_bytes SIZE_LEVEL (word_of_int level) @
     le_bytes SIZE_ID entryID @ le_bytes SIZE_PARENTID (ParentId uv) @ Value uv"

definition HashToBytes :: "u64 \<Rightarrow> byte list \<Rightarrow> byte list" where
  "HashToBytes entryID raw =
     le_bytes SIZE_DATATYPE TYPE_HASH @ le_bytes SIZE_LEVEL (word_of_int HASH_LEVEL) @
     le_bytes SIZE_ID entryID @ raw"

definition toBytes :: "Triple \<Rightarrow> byte list" where
  "toBytes a =
     le_bytes SIZE_DATATYPE TYPE_ASSOCIATION @
     le_bytes 8 (word_of_int (t_Level a)) @ le_bytes 8 (t_Key a) @
     le_bytes 8 (word_of_int (t_Value2Level a)) @ le_bytes 8 (t_Value2 a) @
     le_bytes 8 (word_of_int (t_Value1Level a)) @ le_bytes 8 (t_Value1 a)"

text \<open>The tombstone a delete writes: the type, and zeroes.\<close>

definition tombstone :: "byte list" where
  "tombstone = le_bytes SIZE_DATATYPE TYPE_DELETE @ replicate (ENTRY_SIZE - SIZE_DATATYPE) 0"

section \<open>Decoders\<close>

text \<open>\<^verbatim>\<open>buf[last:next]\<close>.\<close>

definition slice :: "nat \<Rightarrow> nat \<Rightarrow> 'a list \<Rightarrow> 'a list" where
  "slice lo hi buf = take (hi - lo) (drop lo buf)"

definition recordType :: "byte list \<Rightarrow> u64" where
  "recordType buf = le_word (slice 0 SIZE_DATATYPE buf)"

definition bufToEntry :: "byte list \<Rightarrow> int \<times> u64 \<times> UniqueValue" where
  "bufToEntry buf =
     (sint (le_word (slice 2 10 buf)), le_word (slice 10 18 buf),
      \<lparr>ParentId = le_word (slice 18 26 buf), Value = slice 26 50 buf\<rparr>)"

definition bufToHash :: "byte list \<Rightarrow> u64 \<times> byte list" where
  "bufToHash buf = (le_word (slice 10 18 buf), slice 18 (18 + 32) buf)"

text \<open>\<open>None\<close>: the record is not an association.\<close>

definition bufToAssociation :: "byte list \<Rightarrow> Triple option" where
  "bufToAssociation buf =
     (if recordType buf \<noteq> TYPE_ASSOCIATION then None
      else Some \<lparr>t_Level = sint (le_word (slice 2 10 buf)), t_Key = le_word (slice 10 18 buf),
                 t_Value1Level = sint (le_word (slice 34 42 buf)),
                 t_Value1 = le_word (slice 42 50 buf),
                 t_Value2Level = sint (le_word (slice 18 26 buf)),
                 t_Value2 = le_word (slice 26 34 buf)\<rparr>)"

section \<open>Round trips\<close>

text \<open>A level that fits the eight bytes it is stored in.\<close>

definition level_ok :: "int \<Rightarrow> bool" where
  "level_ok l \<longleftrightarrow> - (2 ^ 63) \<le> l \<and> l < 2 ^ 63"

definition triple_ok :: "Triple \<Rightarrow> bool" where
  "triple_ok t \<longleftrightarrow> level_ok (t_Level t) \<and> level_ok (t_Value1Level t) \<and> level_ok (t_Value2Level t)"

lemma sint_level [simp]: "level_ok l \<Longrightarrow> sint (word_of_int l :: u64) = l"
  by (simp add: level_ok_def signed_take_bit_int_eq_self_iff sint_sbintrunc' signed_take_bit_int_eq_self)

lemma slice_append:
  "slice a b (xs @ ys) = (if b \<le> length xs then slice a b xs
     else if length xs \<le> a then slice (a - length xs) (b - length xs) ys
     else drop a xs @ take (b - length xs) ys)"
  by (auto simp: slice_def)

lemma slice_all: "length xs = n \<Longrightarrow> slice 0 n xs = xs"
  by (simp add: slice_def)

lemmas frame_simps = slice_append slice_all format_sizes

lemma recordType_simps [simp]:
  "recordType (EntryToBytes l i uv) = TYPE_ENTRY"
  "recordType (HashToBytes i raw) = TYPE_HASH"
  "recordType (toBytes t) = TYPE_ASSOCIATION"
  "recordType tombstone = TYPE_DELETE"
  by (simp_all add: recordType_def EntryToBytes_def HashToBytes_def toBytes_def tombstone_def
      frame_simps format_types le_word_le_bytes)

lemma type_distinct [simp]:
  "TYPE_DELETE \<noteq> TYPE_ENTRY" "TYPE_DELETE \<noteq> TYPE_ASSOCIATION" "TYPE_DELETE \<noteq> TYPE_HASH"
  "TYPE_ENTRY \<noteq> TYPE_DELETE" "TYPE_ENTRY \<noteq> TYPE_ASSOCIATION" "TYPE_ENTRY \<noteq> TYPE_HASH"
  "TYPE_ASSOCIATION \<noteq> TYPE_DELETE" "TYPE_ASSOCIATION \<noteq> TYPE_ENTRY" "TYPE_ASSOCIATION \<noteq> TYPE_HASH"
  "TYPE_HASH \<noteq> TYPE_DELETE" "TYPE_HASH \<noteq> TYPE_ENTRY" "TYPE_HASH \<noteq> TYPE_ASSOCIATION"
  by (simp_all add: format_types)

lemma frame_length [simp]:
  "length (Value uv) = SIZE_VALUE \<Longrightarrow> length (EntryToBytes l i uv) = ENTRY_SIZE"
  "length raw = 32 \<Longrightarrow> length (HashToBytes i raw) = ENTRY_SIZE"
  "length (toBytes t) = ENTRY_SIZE"
  "length tombstone = ENTRY_SIZE"
  by (simp_all add: EntryToBytes_def HashToBytes_def toBytes_def tombstone_def format_sizes)

lemma entry_frame [simp]:
  "level_ok l \<Longrightarrow> length (Value uv) = SIZE_VALUE \<Longrightarrow> bufToEntry (EntryToBytes l i uv) = (l, i, uv)"
  by (simp add: bufToEntry_def EntryToBytes_def frame_simps)

lemma hash_frame [simp]:
  "length raw = 32 \<Longrightarrow> bufToHash (HashToBytes i raw) = (i, raw)"
  by (simp add: bufToHash_def HashToBytes_def frame_simps)

lemma assoc_frame [simp]:
  "triple_ok t \<Longrightarrow> bufToAssociation (toBytes t) = Some t"
  by (simp add: bufToAssociation_def triple_ok_def)
    (simp add: toBytes_def frame_simps)

lemma assoc_other_frame [simp]:
  "bufToAssociation (EntryToBytes l i uv) = None"
  "bufToAssociation (HashToBytes i raw) = None"
  "bufToAssociation tombstone = None"
  by (simp_all add: bufToAssociation_def)

end
