(* ===== verification/Triple_Cache.thy ===== *)
theory Triple_Cache
  imports Record_Format
begin

text \<open>
  \<^verbatim>\<open>tiedb/triplecache.go\<close>: the bounded LRU that maps a record's position to its decoded triple.
  The list \<open>ll\<close> runs from the most to the least recently used entry. The code's \<open>items\<close> map only
  finds a position's list element, so it carries no state of its own.
\<close>

record tripleCache =
  capacity :: nat
  ll :: "(int \<times> Triple) list"

definition defaultTripleCacheSize :: nat where
  "defaultTripleCacheSize = 100000"

definition newTripleCache :: "int \<Rightarrow> tripleCache" where
  "newTripleCache cap =
     \<lparr>capacity = (if cap \<le> 0 then defaultTripleCacheSize else nat cap), ll = []\<rparr>"

definition tc_Get :: "int \<Rightarrow> tripleCache \<Rightarrow> Triple option \<times> tripleCache" where
  "tc_Get pos c =
     (case map_of (ll c) pos of
        Some t \<Rightarrow> (Some t, c\<lparr>ll := (pos, t) # AList.delete pos (ll c)\<rparr>)
      | None \<Rightarrow> (None, c))"

definition tc_Put :: "int \<Rightarrow> Triple \<Rightarrow> tripleCache \<Rightarrow> tripleCache" where
  "tc_Put pos t c =
     (case map_of (ll c) pos of
        Some _ \<Rightarrow> c\<lparr>ll := (pos, t) # AList.delete pos (ll c)\<rparr>
      | None \<Rightarrow>
          (let l = (pos, t) # ll c
           in c\<lparr>ll := (if length l > capacity c then butlast l else l)\<rparr>))"

definition tc_Evict :: "int \<Rightarrow> tripleCache \<Rightarrow> tripleCache" where
  "tc_Evict pos c = c\<lparr>ll := AList.delete pos (ll c)\<rparr>"

definition tc_lookup :: "tripleCache \<Rightarrow> int \<Rightarrow> Triple option" where
  "tc_lookup c = map_of (ll c)"

definition tc_inv :: "tripleCache \<Rightarrow> bool" where
  "tc_inv c \<longleftrightarrow> 0 < capacity c \<and> distinct (map fst (ll c)) \<and> length (ll c) \<le> capacity c"

lemma fst_tc_Get [simp]: "fst (tc_Get pos c) = tc_lookup c pos"
  by (simp add: tc_Get_def tc_lookup_def split: option.splits)

lemma tc_lookup_Get [simp]: "tc_lookup (snd (tc_Get pos c)) = tc_lookup c"
  by (auto simp: tc_Get_def tc_lookup_def fun_eq_iff split: option.splits)

lemma tc_lookup_Evict [simp]: "tc_lookup (tc_Evict pos c) = (tc_lookup c)(pos := None)"
  by (simp add: tc_Evict_def tc_lookup_def)

lemma tc_lookup_new [simp]: "tc_lookup (newTripleCache n) = Map.empty"
  by (simp add: tc_lookup_def newTripleCache_def)

lemma map_of_butlast:
  assumes "distinct (map fst l)" "map_of (butlast l) k = Some v"
  shows "map_of l k = Some v"
proof -
  have "(k, v) \<in> set l" using assms(2) in_set_butlastD map_of_SomeD by fastforce
  with assms(1) show ?thesis by simp
qed

text \<open>A put makes its own line visible and never invents another one; it may evict a line.\<close>

lemma tc_lookup_Put_same [simp]:
  assumes "tc_inv c"
  shows "tc_lookup (tc_Put pos t c) pos = Some t"
proof (cases "map_of (ll c) pos")
  case (Some u)
  then show ?thesis by (simp add: tc_Put_def tc_lookup_def)
next
  case None
  have "ll c \<noteq> []" if "capacity c < length ((pos, t) # ll c)"
    using that assms by (auto simp: tc_inv_def)
  with None show ?thesis by (auto simp: tc_Put_def tc_lookup_def Let_def)
qed

lemma tc_lookup_Put_other:
  assumes "tc_inv c" "tc_lookup (tc_Put pos t c) p = Some u" "p \<noteq> pos"
  shows "tc_lookup c p = Some u"
proof (cases "map_of (ll c) pos")
  case (Some v)
  with assms show ?thesis by (simp add: tc_Put_def tc_lookup_def)
next
  case None
  then have "distinct (map fst ((pos, t) # ll c))"
    using assms(1) by (auto simp: tc_inv_def map_of_eq_None_iff)
  with None assms(2,3) map_of_butlast [of "(pos, t) # ll c" p u] show ?thesis
    by (auto simp: tc_Put_def tc_lookup_def Let_def split: if_splits)
qed

lemma tc_inv_new [simp]: "tc_inv (newTripleCache n)"
  by (auto simp: tc_inv_def newTripleCache_def defaultTripleCacheSize_def)

lemma length_delete_key:
  "map_of l k = Some v \<Longrightarrow> Suc (length (AList.delete k l)) \<le> length l"
  by (induction l) (auto simp: AList.delete_eq intro: le_SucI length_filter_le)

lemma tc_inv_Get [simp]: "tc_inv c \<Longrightarrow> tc_inv (snd (tc_Get pos c))"
  using length_delete_key [of "ll c" pos]
  by (auto simp: tc_inv_def tc_Get_def keys_delete split: option.splits intro: le_trans)

lemma tc_inv_Evict [simp]: "tc_inv c \<Longrightarrow> tc_inv (tc_Evict pos c)"
  by (auto simp: tc_inv_def tc_Evict_def intro: le_trans [OF length_delete_le])

lemma tc_inv_Put [simp]:
  assumes "tc_inv c"
  shows "tc_inv (tc_Put pos t c)"
proof (cases "map_of (ll c) pos")
  case (Some u)
  with assms length_delete_key [of "ll c" pos u] show ?thesis
    by (auto simp: tc_inv_def tc_Put_def keys_delete)
next
  case None
  then have d: "distinct (map fst ((pos, t) # ll c))"
    using assms by (auto simp: tc_inv_def map_of_eq_None_iff)
  then have "distinct (map fst (butlast ((pos, t) # ll c)))"
    by (simp only: map_butlast distinct_butlast)
  with d None assms show ?thesis by (auto simp: tc_inv_def tc_Put_def Let_def)
qed

text \<open>The line a put drops is the least recently used one, and only from a full cache.\<close>

lemma tc_Put_evicts:
  assumes "tc_inv c" "p \<noteq> pos" "tc_lookup c p \<noteq> None" "tc_lookup (tc_Put pos t c) p = None"
  shows "length (ll c) = capacity c \<and> p = fst (last (ll c))"
proof (cases "map_of (ll c) pos")
  case (Some u)
  with assms show ?thesis by (simp add: tc_Put_def tc_lookup_def)
next
  case None
  with assms have full: "length (ll c) = capacity c" "ll c \<noteq> []"
    by (auto simp: tc_Put_def tc_lookup_def tc_inv_def Let_def split: if_splits)
  then have "tc_lookup (tc_Put pos t c) = map_of ((pos, t) # butlast (ll c))"
    using None by (simp add: tc_Put_def tc_lookup_def)
  then have "map_of (butlast (ll c)) p = None" using assms(2,4) by simp
  moreover have "map_of (butlast (ll c) @ [last (ll c)]) p \<noteq> None"
    using assms(3) full(2) by (simp add: tc_lookup_def)
  ultimately show ?thesis using full(1) by (cases "last (ll c)") (auto split: if_splits)
qed

end
