(* ===== verification/Collection_State.thy ===== *)
theory Collection_State
  imports Association_Set Triple_Cache
begin

text \<open>
  The state of one collection (\<^verbatim>\<open>tiedb/datastructures.go\<close>, \<^verbatim>\<open>tiedb/collection.go\<close>) and the
  operations that reach its trees: the per-level value trie with its association trees, the
  whole-value hash store, the record slots, the write queue and the record file.

  A write of the Go code takes \<open>changeMutex\<close> for its whole body, so writes are atomic steps here.
  The writer goroutine shares only the queue, the file and the free list with them; it is the
  separate step \<open>writerStep\<close> of the theory \<open>File_Store\<close>. Pointers to an \<open>AssociationSet\<close> are
  installed once per key (\<open>GetOrPut\<close>) and never replaced, so changing a set through its pointer is
  storing the changed set under the same key.
\<close>

section \<open>Data\<close>

record entryLevel =
  entries :: "(u64, UniqueValue) lockedTree"
  uniqueValues :: "(UniqueValue, u64) lockedTree"
  associations :: "(u64, AssociationSet) lockedTree"
  reverseAssociations :: "(u64, AssociationSet) lockedTree"

record BlobPolicy =
  Encode :: "string \<Rightarrow> byte list option"
  Decode :: "byte list \<Rightarrow> string"

text \<open>
  The errors and messages the write paths report. \<open>ErrReadOnly\<close> is the sentinel of the same name.
\<close>

datatype tie_error =
    ErrReadOnly
  | ErrIO string
  | ErrWriterGone
  | ErrWrite int string
  | ErrShortWrite int nat
  | ErrBatchNotFound nat string string string string
  | ErrBatchUnknown nat string
  | ErrMkDirArgs
  | ErrLocked string                           \<comment> \<open>another process holds the lock of this file\<close>

text \<open>A queued change of the record file. The slot offset was reserved by the producer.\<close>

datatype FileRecord =
    AssociationRecord Triple
  | EntryRecord int u64 UniqueValue
  | HashRecord u64 "byte list"

datatype FileMod =
    FILE_ADD int FileRecord
  | FILE_DELETE int
  | FILE_BARRIER

text \<open>
  The open record file: its contents, what the last fsync made durable, and the outcomes the
  device gives to the coming writes (how many bytes are written, and an error), after which
  writes succeed. An empty list of outcomes is a healthy device.
\<close>

record dbFile =
  db_bytes :: "byte list"
  db_synced :: "byte list"
  db_faults :: "(nat \<times> string option) list"

record searchValue =
  sv_text :: string
  sv_norm :: string
  sv_tokens :: "string list"

record searchField =
  sf_relation :: string
  sf_value :: searchValue

record searchSubject =
  ss_key :: string
  ss_fields :: "searchField list"

record searchCorpus =
  sc_revision :: u64
  sc_subjects :: "searchSubject list"
  sc_bytes :: int
  sc_lastUse :: u64

record collection =
  totalEntries :: u64
  totalAssociations :: u64
  levels :: "entryLevel list"                 \<comment> \<open>\<open>levelCount\<close> is its length\<close>
  blobPolicy :: "BlobPolicy option"
  hashEntries :: "(u64, byte list) lockedTree option"
  hashValues :: "(byte list, u64) lockedTree option"
  hashAssociations :: "(u64, AssociationSet) lockedTree option"
  hashReverseAssociations :: "(u64, AssociationSet) lockedTree option"
  reverseRelations :: "string list option"    \<comment> \<open>\<open>None\<close>: nil, every relation is indexed\<close>
  cache :: "tripleCache option"
  arena :: "Triple list"
  arenaFree :: "int list"                     \<comment> \<open>stack, top first\<close>
  dBWriteQueue :: "FileMod list"              \<comment> \<open>head is received next\<close>
  freespace :: "int list"                     \<comment> \<open>stack, top first\<close>
  writeToDisk :: bool
  readOnly :: bool
  lockHeld :: bool
  writerGone :: bool                          \<comment> \<open>\<open>writerDone\<close> is closed\<close>
  closed :: bool
  closeSignals :: nat                         \<comment> \<open>messages in the buffer of \<open>dBCloseWriter\<close>, of size one\<close>
  db_file :: "dbFile option"
  ioErr :: "tie_error option"
  selects :: "bool list"                      \<comment> \<open>outcomes of the coming two-way selects\<close>
  db_size :: int
  searchGen :: u64
  searchCache :: "(string \<times> searchCorpus) list"
  searchBytes :: int
  searchMaxBytes :: int
  searchUse :: u64

section \<open>Levels\<close>

definition uniqueValueHash :: "UniqueValue \<Rightarrow> u64" where
  "uniqueValueHash k = fnv1a fnvOffset (Value k) XOR (ParentId k * hashMix)"

definition newEntryLevel :: entryLevel where
  "newEntryLevel =
     \<lparr>entries = newLockedTree uint64Hash, uniqueValues = newLockedTree uniqueValueHash,
      associations = newLockedTree uint64Hash, reverseAssociations = newLockedTree uint64Hash\<rparr>"

definition secureLevelInIndex :: "int \<Rightarrow> collection \<Rightarrow> collection" where
  "secureLevelInIndex level ic =
     ic\<lparr>levels := levels ic @ replicate (nat (level + 1) - length (levels ic)) newEntryLevel\<rparr>"

definition levelAt :: "collection \<Rightarrow> int \<Rightarrow> entryLevel option" where
  "levelAt ic level =
     (if level < 0 \<or> int (length (levels ic)) \<le> level then None else Some (levels ic ! nat level))"

text \<open>Change the trees of an existing level.\<close>

definition updLevel :: "int \<Rightarrow> (entryLevel \<Rightarrow> entryLevel) \<Rightarrow> collection \<Rightarrow> collection" where
  "updLevel level f ic =
     (case levelAt ic level of
        None \<Rightarrow> ic
      | Some lvl \<Rightarrow> ic\<lparr>levels := (levels ic)[nat level := f lvl]\<rparr>)"

section \<open>Configuration\<close>

definition SetReverseRelations :: "string list option \<Rightarrow> collection \<Rightarrow> collection" where
  "SetReverseRelations relations ic = ic\<lparr>reverseRelations := map_option remdups relations\<rparr>"

definition SetBlobPolicy :: "BlobPolicy option \<Rightarrow> collection \<Rightarrow> collection" where
  "SetBlobPolicy p ic =
     (case p of
        None \<Rightarrow> ic\<lparr>blobPolicy := None, hashEntries := None, hashValues := None\<rparr>
      | Some _ \<Rightarrow>
          ic\<lparr>blobPolicy := p,
             hashEntries := Some (newLockedTree uint64Hash),
             hashValues := Some (newLockedTree hashHash),
             hashAssociations := Some (newLockedTree uint64Hash),
             hashReverseAssociations := Some (newLockedTree uint64Hash)\<rparr>)"

section \<open>The association trees\<close>

definition associationsTree ::
    "collection \<Rightarrow> int \<Rightarrow> (u64, AssociationSet) lockedTree option" where
  "associationsTree ic level =
     (if level = HASH_LEVEL then hashAssociations ic
      else map_option associations (levelAt ic level))"

definition reverseAssociationsTree ::
    "collection \<Rightarrow> int \<Rightarrow> (u64, AssociationSet) lockedTree option" where
  "reverseAssociationsTree ic level =
     (if level = HASH_LEVEL then hashReverseAssociations ic
      else map_option reverseAssociations (levelAt ic level))"

text \<open>The set of an entry; a fresh empty one when it has none.\<close>

definition getAssociations :: "collection \<Rightarrow> int \<Rightarrow> u64 \<Rightarrow> AssociationSet" where
  "getAssociations ic level entryID =
     (case associationsTree ic level of
        None \<Rightarrow> newAssociationSet
      | Some tree \<Rightarrow> (case lt_Get tree entryID of Some asc \<Rightarrow> asc | None \<Rightarrow> newAssociationSet))"

definition getReverseAssociations :: "collection \<Rightarrow> int \<Rightarrow> u64 \<Rightarrow> AssociationSet" where
  "getReverseAssociations ic level entryID =
     (case reverseAssociationsTree ic level of
        None \<Rightarrow> newAssociationSet
      | Some tree \<Rightarrow> (case lt_Get tree entryID of Some asc \<Rightarrow> asc | None \<Rightarrow> newAssociationSet))"

text \<open>
  Replacing the tree of a level. A change made through a set pointer (\<open>asses.Delete\<close>) reaches the
  tree only when the set is stored there: a set that \<open>getAssociations\<close> made up is private.
\<close>

definition updAssociationsTree ::
    "int \<Rightarrow> ((u64, AssociationSet) lockedTree \<Rightarrow> (u64, AssociationSet) lockedTree)
       \<Rightarrow> collection \<Rightarrow> collection" where
  "updAssociationsTree level f ic =
     (if level = HASH_LEVEL then ic\<lparr>hashAssociations := map_option f (hashAssociations ic)\<rparr>
      else updLevel level (\<lambda>lvl. lvl\<lparr>associations := f (associations lvl)\<rparr>) ic)"

definition updReverseAssociationsTree ::
    "int \<Rightarrow> ((u64, AssociationSet) lockedTree \<Rightarrow> (u64, AssociationSet) lockedTree)
       \<Rightarrow> collection \<Rightarrow> collection" where
  "updReverseAssociationsTree level f ic =
     (if level = HASH_LEVEL
      then ic\<lparr>hashReverseAssociations := map_option f (hashReverseAssociations ic)\<rparr>
      else updLevel level (\<lambda>lvl. lvl\<lparr>reverseAssociations := f (reverseAssociations lvl)\<rparr>) ic)"

definition updStored ::
    "u64 \<Rightarrow> (AssociationSet \<Rightarrow> AssociationSet)
       \<Rightarrow> (u64, AssociationSet) lockedTree \<Rightarrow> (u64, AssociationSet) lockedTree" where
  "updStored entryID g tree =
     (case lt_Get tree entryID of Some asc \<Rightarrow> lt_Put entryID (g asc) tree | None \<Rightarrow> tree)"

text \<open>\<^verbatim>\<open>parent.GetOrPut(outerKey, newAssociationSet).Put(subKey, pos)\<close>.\<close>

definition putAssoc ::
    "u64 \<Rightarrow> UniqueAssociation \<Rightarrow> int
       \<Rightarrow> (u64, AssociationSet) lockedTree \<Rightarrow> (u64, AssociationSet) lockedTree" where
  "putAssoc outerKey subKey pos parent =
     (let (asc, parent') = lt_GetOrPut outerKey (\<lambda>_. newAssociationSet) parent
      in lt_Put outerKey (as_Put subKey pos asc) parent')"

section \<open>Trie lookups\<close>

definition getUniqueValue :: "collection \<Rightarrow> int \<Rightarrow> u64 \<Rightarrow> UniqueValue option" where
  "getUniqueValue ic level entryID =
     (case levelAt ic level of None \<Rightarrow> None | Some lvl \<Rightarrow> lt_Get (entries lvl) entryID)"

definition uniqueValueId :: "collection \<Rightarrow> int \<Rightarrow> UniqueValue \<Rightarrow> u64 option" where
  "uniqueValueId ic level uv =
     (case levelAt ic level of None \<Rightarrow> None | Some lvl \<Rightarrow> lt_Get (uniqueValues lvl) uv)"

definition hashEntry :: "collection \<Rightarrow> u64 \<Rightarrow> byte list option" where
  "hashEntry ic entryID = (case hashEntries ic of None \<Rightarrow> None | Some t \<Rightarrow> lt_Get t entryID)"

definition hashId :: "collection \<Rightarrow> byte list \<Rightarrow> u64 option" where
  "hashId ic raw = (case hashValues ic of None \<Rightarrow> None | Some t \<Rightarrow> lt_Get t raw)"

section \<open>The lookups depend on the trees only\<close>

text \<open>Fields that the lookups do not read: counters, slots, queue, file and caches.\<close>

lemma levelAt_frame [simp]:
  "levelAt (ic\<lparr>totalEntries := x1\<rparr>) = levelAt ic"
  "levelAt (ic\<lparr>totalAssociations := x2\<rparr>) = levelAt ic"
  "levelAt (ic\<lparr>hashEntries := x3\<rparr>) = levelAt ic"
  "levelAt (ic\<lparr>hashValues := x4\<rparr>) = levelAt ic"
  "levelAt (ic\<lparr>hashAssociations := x5\<rparr>) = levelAt ic"
  "levelAt (ic\<lparr>hashReverseAssociations := x6\<rparr>) = levelAt ic"
  "levelAt (ic\<lparr>cache := x7\<rparr>) = levelAt ic"
  "levelAt (ic\<lparr>arena := x8\<rparr>) = levelAt ic"
  "levelAt (ic\<lparr>arenaFree := x9\<rparr>) = levelAt ic"
  "levelAt (ic\<lparr>dBWriteQueue := x10\<rparr>) = levelAt ic"
  "levelAt (ic\<lparr>freespace := x11\<rparr>) = levelAt ic"
  "levelAt (ic\<lparr>db_file := x12\<rparr>) = levelAt ic"
  "levelAt (ic\<lparr>ioErr := x13\<rparr>) = levelAt ic"
  "levelAt (ic\<lparr>db_size := x14\<rparr>) = levelAt ic"
  "levelAt (ic\<lparr>writerGone := x15\<rparr>) = levelAt ic"
  "levelAt (ic\<lparr>closed := x16\<rparr>) = levelAt ic"
  "levelAt (ic\<lparr>searchGen := x17\<rparr>) = levelAt ic"
  "levelAt (ic\<lparr>selects := x18\<rparr>) = levelAt ic"
  by (simp_all add: fun_eq_iff levelAt_def)

lemma getUniqueValue_frame [simp]:
  "getUniqueValue (ic\<lparr>totalEntries := x1\<rparr>) = getUniqueValue ic"
  "getUniqueValue (ic\<lparr>totalAssociations := x2\<rparr>) = getUniqueValue ic"
  "getUniqueValue (ic\<lparr>hashEntries := x3\<rparr>) = getUniqueValue ic"
  "getUniqueValue (ic\<lparr>hashValues := x4\<rparr>) = getUniqueValue ic"
  "getUniqueValue (ic\<lparr>hashAssociations := x5\<rparr>) = getUniqueValue ic"
  "getUniqueValue (ic\<lparr>hashReverseAssociations := x6\<rparr>) = getUniqueValue ic"
  "getUniqueValue (ic\<lparr>cache := x7\<rparr>) = getUniqueValue ic"
  "getUniqueValue (ic\<lparr>arena := x8\<rparr>) = getUniqueValue ic"
  "getUniqueValue (ic\<lparr>arenaFree := x9\<rparr>) = getUniqueValue ic"
  "getUniqueValue (ic\<lparr>dBWriteQueue := x10\<rparr>) = getUniqueValue ic"
  "getUniqueValue (ic\<lparr>freespace := x11\<rparr>) = getUniqueValue ic"
  "getUniqueValue (ic\<lparr>db_file := x12\<rparr>) = getUniqueValue ic"
  "getUniqueValue (ic\<lparr>ioErr := x13\<rparr>) = getUniqueValue ic"
  "getUniqueValue (ic\<lparr>db_size := x14\<rparr>) = getUniqueValue ic"
  "getUniqueValue (ic\<lparr>writerGone := x15\<rparr>) = getUniqueValue ic"
  "getUniqueValue (ic\<lparr>closed := x16\<rparr>) = getUniqueValue ic"
  "getUniqueValue (ic\<lparr>searchGen := x17\<rparr>) = getUniqueValue ic"
  "getUniqueValue (ic\<lparr>selects := x18\<rparr>) = getUniqueValue ic"
  by (simp_all add: fun_eq_iff getUniqueValue_def)

lemma uniqueValueId_frame [simp]:
  "uniqueValueId (ic\<lparr>totalEntries := x1\<rparr>) = uniqueValueId ic"
  "uniqueValueId (ic\<lparr>totalAssociations := x2\<rparr>) = uniqueValueId ic"
  "uniqueValueId (ic\<lparr>hashEntries := x3\<rparr>) = uniqueValueId ic"
  "uniqueValueId (ic\<lparr>hashValues := x4\<rparr>) = uniqueValueId ic"
  "uniqueValueId (ic\<lparr>hashAssociations := x5\<rparr>) = uniqueValueId ic"
  "uniqueValueId (ic\<lparr>hashReverseAssociations := x6\<rparr>) = uniqueValueId ic"
  "uniqueValueId (ic\<lparr>cache := x7\<rparr>) = uniqueValueId ic"
  "uniqueValueId (ic\<lparr>arena := x8\<rparr>) = uniqueValueId ic"
  "uniqueValueId (ic\<lparr>arenaFree := x9\<rparr>) = uniqueValueId ic"
  "uniqueValueId (ic\<lparr>dBWriteQueue := x10\<rparr>) = uniqueValueId ic"
  "uniqueValueId (ic\<lparr>freespace := x11\<rparr>) = uniqueValueId ic"
  "uniqueValueId (ic\<lparr>db_file := x12\<rparr>) = uniqueValueId ic"
  "uniqueValueId (ic\<lparr>ioErr := x13\<rparr>) = uniqueValueId ic"
  "uniqueValueId (ic\<lparr>db_size := x14\<rparr>) = uniqueValueId ic"
  "uniqueValueId (ic\<lparr>writerGone := x15\<rparr>) = uniqueValueId ic"
  "uniqueValueId (ic\<lparr>closed := x16\<rparr>) = uniqueValueId ic"
  "uniqueValueId (ic\<lparr>searchGen := x17\<rparr>) = uniqueValueId ic"
  "uniqueValueId (ic\<lparr>selects := x18\<rparr>) = uniqueValueId ic"
  by (simp_all add: fun_eq_iff uniqueValueId_def)

lemma hashEntry_frame [simp]:
  "hashEntry (ic\<lparr>totalEntries := x1\<rparr>) = hashEntry ic"
  "hashEntry (ic\<lparr>totalAssociations := x2\<rparr>) = hashEntry ic"
  "hashEntry (ic\<lparr>hashValues := x3\<rparr>) = hashEntry ic"
  "hashEntry (ic\<lparr>hashAssociations := x4\<rparr>) = hashEntry ic"
  "hashEntry (ic\<lparr>hashReverseAssociations := x5\<rparr>) = hashEntry ic"
  "hashEntry (ic\<lparr>cache := x6\<rparr>) = hashEntry ic"
  "hashEntry (ic\<lparr>arena := x7\<rparr>) = hashEntry ic"
  "hashEntry (ic\<lparr>arenaFree := x8\<rparr>) = hashEntry ic"
  "hashEntry (ic\<lparr>dBWriteQueue := x9\<rparr>) = hashEntry ic"
  "hashEntry (ic\<lparr>freespace := x10\<rparr>) = hashEntry ic"
  "hashEntry (ic\<lparr>db_file := x11\<rparr>) = hashEntry ic"
  "hashEntry (ic\<lparr>ioErr := x12\<rparr>) = hashEntry ic"
  "hashEntry (ic\<lparr>db_size := x13\<rparr>) = hashEntry ic"
  "hashEntry (ic\<lparr>writerGone := x14\<rparr>) = hashEntry ic"
  "hashEntry (ic\<lparr>closed := x15\<rparr>) = hashEntry ic"
  "hashEntry (ic\<lparr>searchGen := x16\<rparr>) = hashEntry ic"
  "hashEntry (ic\<lparr>selects := x17\<rparr>) = hashEntry ic"
  by (simp_all add: fun_eq_iff hashEntry_def)

lemma hashId_frame [simp]:
  "hashId (ic\<lparr>totalEntries := x1\<rparr>) = hashId ic"
  "hashId (ic\<lparr>totalAssociations := x2\<rparr>) = hashId ic"
  "hashId (ic\<lparr>hashEntries := x3\<rparr>) = hashId ic"
  "hashId (ic\<lparr>hashAssociations := x4\<rparr>) = hashId ic"
  "hashId (ic\<lparr>hashReverseAssociations := x5\<rparr>) = hashId ic"
  "hashId (ic\<lparr>cache := x6\<rparr>) = hashId ic"
  "hashId (ic\<lparr>arena := x7\<rparr>) = hashId ic"
  "hashId (ic\<lparr>arenaFree := x8\<rparr>) = hashId ic"
  "hashId (ic\<lparr>dBWriteQueue := x9\<rparr>) = hashId ic"
  "hashId (ic\<lparr>freespace := x10\<rparr>) = hashId ic"
  "hashId (ic\<lparr>db_file := x11\<rparr>) = hashId ic"
  "hashId (ic\<lparr>ioErr := x12\<rparr>) = hashId ic"
  "hashId (ic\<lparr>db_size := x13\<rparr>) = hashId ic"
  "hashId (ic\<lparr>writerGone := x14\<rparr>) = hashId ic"
  "hashId (ic\<lparr>closed := x15\<rparr>) = hashId ic"
  "hashId (ic\<lparr>searchGen := x16\<rparr>) = hashId ic"
  "hashId (ic\<lparr>selects := x17\<rparr>) = hashId ic"
  by (simp_all add: fun_eq_iff hashId_def)

lemma associationsTree_frame [simp]:
  "associationsTree (ic\<lparr>totalEntries := x1\<rparr>) = associationsTree ic"
  "associationsTree (ic\<lparr>totalAssociations := x2\<rparr>) = associationsTree ic"
  "associationsTree (ic\<lparr>hashEntries := x3\<rparr>) = associationsTree ic"
  "associationsTree (ic\<lparr>hashValues := x4\<rparr>) = associationsTree ic"
  "associationsTree (ic\<lparr>hashReverseAssociations := x5\<rparr>) = associationsTree ic"
  "associationsTree (ic\<lparr>cache := x6\<rparr>) = associationsTree ic"
  "associationsTree (ic\<lparr>arena := x7\<rparr>) = associationsTree ic"
  "associationsTree (ic\<lparr>arenaFree := x8\<rparr>) = associationsTree ic"
  "associationsTree (ic\<lparr>dBWriteQueue := x9\<rparr>) = associationsTree ic"
  "associationsTree (ic\<lparr>freespace := x10\<rparr>) = associationsTree ic"
  "associationsTree (ic\<lparr>db_file := x11\<rparr>) = associationsTree ic"
  "associationsTree (ic\<lparr>ioErr := x12\<rparr>) = associationsTree ic"
  "associationsTree (ic\<lparr>db_size := x13\<rparr>) = associationsTree ic"
  "associationsTree (ic\<lparr>writerGone := x14\<rparr>) = associationsTree ic"
  "associationsTree (ic\<lparr>closed := x15\<rparr>) = associationsTree ic"
  "associationsTree (ic\<lparr>searchGen := x16\<rparr>) = associationsTree ic"
  "associationsTree (ic\<lparr>selects := x17\<rparr>) = associationsTree ic"
  by (simp_all add: fun_eq_iff associationsTree_def)

lemma reverseAssociationsTree_frame [simp]:
  "reverseAssociationsTree (ic\<lparr>totalEntries := x1\<rparr>) = reverseAssociationsTree ic"
  "reverseAssociationsTree (ic\<lparr>totalAssociations := x2\<rparr>) = reverseAssociationsTree ic"
  "reverseAssociationsTree (ic\<lparr>hashEntries := x3\<rparr>) = reverseAssociationsTree ic"
  "reverseAssociationsTree (ic\<lparr>hashValues := x4\<rparr>) = reverseAssociationsTree ic"
  "reverseAssociationsTree (ic\<lparr>hashAssociations := x5\<rparr>) = reverseAssociationsTree ic"
  "reverseAssociationsTree (ic\<lparr>cache := x6\<rparr>) = reverseAssociationsTree ic"
  "reverseAssociationsTree (ic\<lparr>arena := x7\<rparr>) = reverseAssociationsTree ic"
  "reverseAssociationsTree (ic\<lparr>arenaFree := x8\<rparr>) = reverseAssociationsTree ic"
  "reverseAssociationsTree (ic\<lparr>dBWriteQueue := x9\<rparr>) = reverseAssociationsTree ic"
  "reverseAssociationsTree (ic\<lparr>freespace := x10\<rparr>) = reverseAssociationsTree ic"
  "reverseAssociationsTree (ic\<lparr>db_file := x11\<rparr>) = reverseAssociationsTree ic"
  "reverseAssociationsTree (ic\<lparr>ioErr := x12\<rparr>) = reverseAssociationsTree ic"
  "reverseAssociationsTree (ic\<lparr>db_size := x13\<rparr>) = reverseAssociationsTree ic"
  "reverseAssociationsTree (ic\<lparr>writerGone := x14\<rparr>) = reverseAssociationsTree ic"
  "reverseAssociationsTree (ic\<lparr>closed := x15\<rparr>) = reverseAssociationsTree ic"
  "reverseAssociationsTree (ic\<lparr>searchGen := x16\<rparr>) = reverseAssociationsTree ic"
  "reverseAssociationsTree (ic\<lparr>selects := x17\<rparr>) = reverseAssociationsTree ic"
  by (simp_all add: fun_eq_iff reverseAssociationsTree_def)

lemma getAssociations_frame [simp]:
  "getAssociations (ic\<lparr>totalEntries := x1\<rparr>) = getAssociations ic"
  "getAssociations (ic\<lparr>totalAssociations := x2\<rparr>) = getAssociations ic"
  "getAssociations (ic\<lparr>hashEntries := x3\<rparr>) = getAssociations ic"
  "getAssociations (ic\<lparr>hashValues := x4\<rparr>) = getAssociations ic"
  "getAssociations (ic\<lparr>hashReverseAssociations := x5\<rparr>) = getAssociations ic"
  "getAssociations (ic\<lparr>cache := x6\<rparr>) = getAssociations ic"
  "getAssociations (ic\<lparr>arena := x7\<rparr>) = getAssociations ic"
  "getAssociations (ic\<lparr>arenaFree := x8\<rparr>) = getAssociations ic"
  "getAssociations (ic\<lparr>dBWriteQueue := x9\<rparr>) = getAssociations ic"
  "getAssociations (ic\<lparr>freespace := x10\<rparr>) = getAssociations ic"
  "getAssociations (ic\<lparr>db_file := x11\<rparr>) = getAssociations ic"
  "getAssociations (ic\<lparr>ioErr := x12\<rparr>) = getAssociations ic"
  "getAssociations (ic\<lparr>db_size := x13\<rparr>) = getAssociations ic"
  "getAssociations (ic\<lparr>writerGone := x14\<rparr>) = getAssociations ic"
  "getAssociations (ic\<lparr>closed := x15\<rparr>) = getAssociations ic"
  "getAssociations (ic\<lparr>searchGen := x16\<rparr>) = getAssociations ic"
  "getAssociations (ic\<lparr>selects := x17\<rparr>) = getAssociations ic"
  by (simp_all add: fun_eq_iff getAssociations_def)

lemma getReverseAssociations_frame [simp]:
  "getReverseAssociations (ic\<lparr>totalEntries := x1\<rparr>) = getReverseAssociations ic"
  "getReverseAssociations (ic\<lparr>totalAssociations := x2\<rparr>) = getReverseAssociations ic"
  "getReverseAssociations (ic\<lparr>hashEntries := x3\<rparr>) = getReverseAssociations ic"
  "getReverseAssociations (ic\<lparr>hashValues := x4\<rparr>) = getReverseAssociations ic"
  "getReverseAssociations (ic\<lparr>hashAssociations := x5\<rparr>) = getReverseAssociations ic"
  "getReverseAssociations (ic\<lparr>cache := x6\<rparr>) = getReverseAssociations ic"
  "getReverseAssociations (ic\<lparr>arena := x7\<rparr>) = getReverseAssociations ic"
  "getReverseAssociations (ic\<lparr>arenaFree := x8\<rparr>) = getReverseAssociations ic"
  "getReverseAssociations (ic\<lparr>dBWriteQueue := x9\<rparr>) = getReverseAssociations ic"
  "getReverseAssociations (ic\<lparr>freespace := x10\<rparr>) = getReverseAssociations ic"
  "getReverseAssociations (ic\<lparr>db_file := x11\<rparr>) = getReverseAssociations ic"
  "getReverseAssociations (ic\<lparr>ioErr := x12\<rparr>) = getReverseAssociations ic"
  "getReverseAssociations (ic\<lparr>db_size := x13\<rparr>) = getReverseAssociations ic"
  "getReverseAssociations (ic\<lparr>writerGone := x14\<rparr>) = getReverseAssociations ic"
  "getReverseAssociations (ic\<lparr>closed := x15\<rparr>) = getReverseAssociations ic"
  "getReverseAssociations (ic\<lparr>searchGen := x16\<rparr>) = getReverseAssociations ic"
  "getReverseAssociations (ic\<lparr>selects := x17\<rparr>) = getReverseAssociations ic"
  by (simp_all add: fun_eq_iff getReverseAssociations_def)

lemma hash_secureLevel [simp]:
  "hashEntry (secureLevelInIndex level ic) = hashEntry ic"
  "hashId (secureLevelInIndex level ic) = hashId ic"
  by (simp_all add: fun_eq_iff hashEntry_def hashId_def secureLevelInIndex_def)

lemma hash_updLevel [simp]:
  "hashEntry (updLevel level f ic) = hashEntry ic" "hashId (updLevel level f ic) = hashId ic"
  by (auto simp: fun_eq_iff hashEntry_def hashId_def updLevel_def split: option.splits)

lemma hash_updTrees [simp]:
  "hashEntry (updAssociationsTree level f ic) = hashEntry ic"
  "hashEntry (updReverseAssociationsTree level f ic) = hashEntry ic"
  "hashId (updAssociationsTree level f ic) = hashId ic"
  "hashId (updReverseAssociationsTree level f ic) = hashId ic"
  by (simp_all add: updAssociationsTree_def updReverseAssociationsTree_def)

section \<open>Growing the level list changes no lookup\<close>

lemma levels_secureLevel [simp]:
  "levels (secureLevelInIndex level ic) =
     levels ic @ replicate (nat (level + 1) - length (levels ic)) newEntryLevel"
  by (simp add: secureLevelInIndex_def)

lemma levelAt_secureLevel:
  "levelAt (secureLevelInIndex level ic) l =
     (case levelAt ic l of
        Some lvl \<Rightarrow> Some lvl
      | None \<Rightarrow> if 0 \<le> l \<and> l \<le> level then Some newEntryLevel else None)"
  by (auto simp: levelAt_def nth_append)

lemma getUniqueValue_secureLevel [simp]:
  "getUniqueValue (secureLevelInIndex level ic) = getUniqueValue ic"
  by (auto simp: fun_eq_iff getUniqueValue_def levelAt_secureLevel newEntryLevel_def
      split: option.splits)

lemma uniqueValueId_secureLevel [simp]:
  "uniqueValueId (secureLevelInIndex level ic) = uniqueValueId ic"
  by (auto simp: fun_eq_iff uniqueValueId_def levelAt_secureLevel newEntryLevel_def
      split: option.splits)

lemma getAssociations_secureLevel [simp]:
  "getAssociations (secureLevelInIndex level ic) = getAssociations ic"
  by (auto simp: fun_eq_iff getAssociations_def associationsTree_def levelAt_secureLevel
      newEntryLevel_def split: option.splits) (auto simp: secureLevelInIndex_def)

lemma getReverseAssociations_secureLevel [simp]:
  "getReverseAssociations (secureLevelInIndex level ic) = getReverseAssociations ic"
  by (auto simp: fun_eq_iff getReverseAssociations_def reverseAssociationsTree_def
      levelAt_secureLevel newEntryLevel_def split: option.splits)
    (auto simp: secureLevelInIndex_def)

lemma levelAt_updLevel [simp]:
  "levelAt (updLevel level f ic) l =
     (if l = level then map_option f (levelAt ic l) else levelAt ic l)"
  by (auto simp: updLevel_def levelAt_def nth_list_update split: option.splits)

section \<open>Changes of an association tree, seen through the lookups\<close>

lemma lt_Get_putAssoc:
  "lt_Get (putAssoc k sub pos t) =
     (lt_Get t)(k \<mapsto> as_Put sub pos (case lt_Get t k of Some s \<Rightarrow> s | None \<Rightarrow> newAssociationSet))"
  by (auto simp: putAssoc_def lt_GetOrPut_def Let_def fun_eq_iff split: option.splits)

lemma lt_Get_updStored:
  "lt_Get (updStored k g t) = (lt_Get t)(k := map_option g (lt_Get t k))"
  by (auto simp: updStored_def fun_eq_iff split: option.splits)

lemma lt_inv_putAssoc [simp]: "lt_inv t \<Longrightarrow> lt_inv (putAssoc k sub pos t)"
  by (auto simp: putAssoc_def lt_GetOrPut_def Let_def split: option.splits)

lemma lt_inv_updStored [simp]: "lt_inv t \<Longrightarrow> lt_inv (updStored k g t)"
  by (auto simp: updStored_def split: option.splits)

lemma associationsTree_upd [simp]:
  "associationsTree (updAssociationsTree level f ic) l =
     (if l = level then map_option f (associationsTree ic l) else associationsTree ic l)"
  "reverseAssociationsTree (updAssociationsTree level f ic) l = reverseAssociationsTree ic l"
  "associationsTree (updReverseAssociationsTree level f ic) l = associationsTree ic l"
  "reverseAssociationsTree (updReverseAssociationsTree level f ic) l =
     (if l = level then map_option f (reverseAssociationsTree ic l)
      else reverseAssociationsTree ic l)"
  by (auto simp: associationsTree_def reverseAssociationsTree_def updAssociationsTree_def
      updReverseAssociationsTree_def HASH_LEVEL_def option.map_comp comp_def option.map_id)
    (auto simp: levelAt_def updLevel_def)

lemma getAssociations_put:
  "associationsTree ic level \<noteq> None \<Longrightarrow>
   getAssociations (updAssociationsTree level (putAssoc k sub pos) ic) l i =
     (if l = level \<and> i = k then as_Put sub pos (getAssociations ic l i) else getAssociations ic l i)"
  by (auto simp: getAssociations_def lt_Get_putAssoc split: option.splits)

lemma getReverseAssociations_put:
  "reverseAssociationsTree ic level \<noteq> None \<Longrightarrow>
   getReverseAssociations (updReverseAssociationsTree level (putAssoc k sub pos) ic) l i =
     (if l = level \<and> i = k then as_Put sub pos (getReverseAssociations ic l i)
      else getReverseAssociations ic l i)"
  by (auto simp: getReverseAssociations_def lt_Get_putAssoc split: option.splits)

text \<open>An operation that keeps the fresh set as it is reaches exactly the stored sets.\<close>

lemma as_Delete_new [simp]: "as_Delete k newAssociationSet = newAssociationSet"
  by (simp add: as_Delete_def newAssociationSet_def)

lemma getAssociations_del:
  "getAssociations (updAssociationsTree level (updStored k (as_Delete sub)) ic) l i =
     (if l = level \<and> i = k then as_Delete sub (getAssociations ic l i) else getAssociations ic l i)"
  by (auto simp: getAssociations_def lt_Get_updStored split: option.splits)

lemma getReverseAssociations_del:
  "getReverseAssociations (updReverseAssociationsTree level (updStored k (as_Delete sub)) ic) l i =
     (if l = level \<and> i = k then as_Delete sub (getReverseAssociations ic l i)
      else getReverseAssociations ic l i)"
  by (auto simp: getReverseAssociations_def lt_Get_updStored split: option.splits)

lemma getAssociations_updReverse [simp]:
  "getAssociations (updReverseAssociationsTree level f ic) = getAssociations ic"
  by (simp add: fun_eq_iff getAssociations_def)

lemma getReverseAssociations_updForward [simp]:
  "getReverseAssociations (updAssociationsTree level f ic) = getReverseAssociations ic"
  by (simp add: fun_eq_iff getReverseAssociations_def)

lemma trie_updTrees [simp]:
  "getUniqueValue (updAssociationsTree level f ic) = getUniqueValue ic"
  "getUniqueValue (updReverseAssociationsTree level f ic) = getUniqueValue ic"
  "uniqueValueId (updAssociationsTree level f ic) = uniqueValueId ic"
  "uniqueValueId (updReverseAssociationsTree level f ic) = uniqueValueId ic"
  by (auto simp: fun_eq_iff getUniqueValue_def uniqueValueId_def updAssociationsTree_def
      updReverseAssociationsTree_def split: option.splits)

end
