(* ===== verification/File_Store.thy ===== *)
theory File_Store
  imports Collection_State
begin

text \<open>
  Where the triples of a collection live: the memory-mode arena and the disk-mode slots
  (\<^verbatim>\<open>tiedb/slots.go\<close>), the write queue (\<open>queueWrite\<close> of \<^verbatim>\<open>tiedb/assoc.go\<close>), the writer goroutine
  and the read path (\<^verbatim>\<open>tiedb/filehandling.go\<close>), and the lookup of a position with its cache
  (\<open>resolveTriple\<close>, \<open>resolveEntry\<close>). \<open>Record_Store\<close> shows that both modes implement one
  interface, a partial map from positions to triples in which a new triple gets an unused position.
\<close>

section \<open>Arena and slots\<close>

definition arenaStore :: "Triple \<Rightarrow> collection \<Rightarrow> int \<times> collection" where
  "arenaStore a ic =
     (case arenaFree ic of
        pos # rest \<Rightarrow> (pos, ic\<lparr>arenaFree := rest, arena := (arena ic)[nat pos := a]\<rparr>)
      | [] \<Rightarrow> (int (length (arena ic)), ic\<lparr>arena := arena ic @ [a]\<rparr>))"

definition arenaLoad :: "int \<Rightarrow> collection \<Rightarrow> Triple option" where
  "arenaLoad pos ic =
     (if pos < 0 \<or> int (length (arena ic)) \<le> pos then None else Some (arena ic ! nat pos))"

definition arenaFreeSlot :: "int \<Rightarrow> collection \<Rightarrow> collection" where
  "arenaFreeSlot pos ic = (if pos < 0 then ic else ic\<lparr>arenaFree := pos # arenaFree ic\<rparr>)"

definition freeSlot :: "int \<Rightarrow> collection \<Rightarrow> collection" where
  "freeSlot pos ic = (if pos < 0 then ic else ic\<lparr>freespace := pos # freespace ic\<rparr>)"

definition allocSlot :: "collection \<Rightarrow> int \<times> collection" where
  "allocSlot ic =
     (case freespace ic of
        pos # rest \<Rightarrow> (pos, ic\<lparr>freespace := rest\<rparr>)
      | [] \<Rightarrow> (db_size ic, ic\<lparr>db_size := db_size ic + int ENTRY_SIZE\<rparr>))"

section \<open>Sticky errors and the write queue\<close>

definition setIOErr :: "tie_error \<Rightarrow> collection \<Rightarrow> collection" where
  "setIOErr e ic = (if ioErr ic = None then ic\<lparr>ioErr := Some e\<rparr> else ic)"

text \<open>
  The send and the stop signal race in one \<open>select\<close>: once the writer is gone and the buffered
  queue has room, both cases are ready and Go picks either (\<open>selects\<close> lists the choices; \<open>True\<close>
  is the send).
\<close>

definition queueWrite :: "FileMod \<Rightarrow> collection \<Rightarrow> bool \<times> collection" where
  "queueWrite m ic =
     (if readOnly ic then (False, ic)
      else if writerGone ic then
        (case selects ic of
           True # rest \<Rightarrow> (True, ic\<lparr>dBWriteQueue := dBWriteQueue ic @ [m], selects := rest\<rparr>)
         | choices \<Rightarrow> (False, setIOErr ErrWriterGone (ic\<lparr>selects := tl choices\<rparr>)))
      else (True, ic\<lparr>dBWriteQueue := dBWriteQueue ic @ [m]\<rparr>))"

section \<open>The record file\<close>

text \<open>\<^verbatim>\<open>WriteAt\<close> extends the file with zeroes when it writes past its end.\<close>

definition overwrite :: "nat \<Rightarrow> byte list \<Rightarrow> byte list \<Rightarrow> byte list" where
  "overwrite pos b bs =
     (if b = [] then bs
      else let bs' = bs @ replicate (pos - length bs) 0
           in take pos bs' @ b @ drop (pos + length b) bs')"

definition dbWriteAt :: "byte list \<Rightarrow> int \<Rightarrow> dbFile \<Rightarrow> (nat \<times> string option) \<times> dbFile" where
  "dbWriteAt b pos f =
     (case db_faults f of
        [] \<Rightarrow> ((length b, None), f\<lparr>db_bytes := overwrite (nat pos) b (db_bytes f)\<rparr>)
      | (n, err) # rest \<Rightarrow>
          ((n, err), f\<lparr>db_bytes := overwrite (nat pos) (take n b) (db_bytes f),
                       db_faults := rest\<rparr>))"

text \<open>\<^verbatim>\<open>ReadAt\<close> of one frame: an error when the file ends inside it.\<close>

definition dbReadAt :: "int \<Rightarrow> dbFile \<Rightarrow> byte list option" where
  "dbReadAt pos f =
     (if pos < 0 \<or> length (db_bytes f) < nat pos + ENTRY_SIZE then None
      else Some (slice (nat pos) (nat pos + ENTRY_SIZE) (db_bytes f)))"

definition recordBytes :: "FileRecord \<Rightarrow> byte list" where
  "recordBytes r =
     (case r of
        AssociationRecord t \<Rightarrow> toBytes t
      | EntryRecord level i uv \<Rightarrow> EntryToBytes level i uv
      | HashRecord i raw \<Rightarrow> HashToBytes i raw)"

definition writeError :: "int \<Rightarrow> nat \<times> string option \<Rightarrow> tie_error option" where
  "writeError pos r =
     (case r of
        (_, Some e) \<Rightarrow> Some (ErrWrite pos e)
      | (n, None) \<Rightarrow> if n \<noteq> ENTRY_SIZE then Some (ErrShortWrite pos n) else None)"

definition applyFileMod :: "FileMod \<Rightarrow> collection \<Rightarrow> tie_error option \<times> collection" where
  "applyFileMod m ic =
     (case db_file ic of
        None \<Rightarrow> (None, ic)
      | Some f \<Rightarrow>
          (case m of
             FILE_BARRIER \<Rightarrow> (None, ic\<lparr>db_file := Some (f\<lparr>db_synced := db_bytes f\<rparr>)\<rparr>)
           | FILE_DELETE pos \<Rightarrow>
               (let (r, f') = dbWriteAt tombstone pos f;
                    ic' = ic\<lparr>db_file := Some f'\<rparr>
                in (writeError pos r,
                    if snd r = None \<and> fst r = ENTRY_SIZE then freeSlot pos ic' else ic'))
           | FILE_ADD pos rec \<Rightarrow>
               (let (r, f') = dbWriteAt (recordBytes rec) pos f
                in (writeError pos r, ic\<lparr>db_file := Some f'\<rparr>))))"

text \<open>
  Every queued write is applied; the errors of \<open>applyFileMod\<close> are dropped here (only the
  goroutine's own receive records them, see \<open>writerStep\<close>).
\<close>

definition drainWriteQueue :: "collection \<Rightarrow> collection" where
  "drainWriteQueue ic =
     fold (\<lambda>m ic. snd (applyFileMod m ic)) (dBWriteQueue ic) (ic\<lparr>dBWriteQueue := []\<rparr>)"

text \<open>The goroutine receives one queued change.\<close>

definition writerStep :: "collection \<Rightarrow> collection" where
  "writerStep ic =
     (case dBWriteQueue ic of
        [] \<Rightarrow> ic
      | m # rest \<Rightarrow>
          (if writerGone ic then ic
           else case applyFileMod m (ic\<lparr>dBWriteQueue := rest\<rparr>) of
                  (None, ic') \<Rightarrow> ic'
                | (Some e, ic') \<Rightarrow> setIOErr e ic'))"

definition readSlot :: "int \<Rightarrow> collection \<Rightarrow> Triple option \<times> collection" where
  "readSlot pos ic =
     (let ic = drainWriteQueue ic
      in (case db_file ic of
            None \<Rightarrow> None
          | Some f \<Rightarrow> Option.bind (dbReadAt pos f) bufToAssociation, ic))"

definition readTripleAt :: "int \<Rightarrow> collection \<Rightarrow> Triple option \<times> collection" where
  "readTripleAt pos ic =
     (if closed ic then (None, ic)
      else if readOnly ic then (if db_file ic = None then (None, ic) else readSlot pos ic)
      else if writerGone ic then (None, ic)
      else readSlot pos ic)"

section \<open>Resolving a position\<close>

definition cacheEvict :: "int \<Rightarrow> collection \<Rightarrow> collection" where
  "cacheEvict pos ic = ic\<lparr>cache := map_option (tc_Evict pos) (cache ic)\<rparr>"

definition cachePut :: "int \<Rightarrow> Triple \<Rightarrow> collection \<Rightarrow> collection" where
  "cachePut pos t ic = ic\<lparr>cache := map_option (tc_Put pos t) (cache ic)\<rparr>"

definition resolveTriple :: "int \<Rightarrow> collection \<Rightarrow> Triple option \<times> collection" where
  "resolveTriple pos ic =
     (if pos < 0 then (None, ic)
      else if \<not> writeToDisk ic then (arenaLoad pos ic, ic)
      else
        let (hit, ic) =
          (case cache ic of
             None \<Rightarrow> (None, ic)
           | Some c \<Rightarrow> (let (t, c') = tc_Get pos c in (t, ic\<lparr>cache := Some c'\<rparr>)))
        in case hit of
             Some t \<Rightarrow> (Some t, ic)
           | None \<Rightarrow>
               (let (t, ic) = readTripleAt pos ic
                in (t, case t of Some t \<Rightarrow> cachePut pos t ic | None \<Rightarrow> ic)))"

definition entryMatches :: "UniqueAssociation \<Rightarrow> Triple \<Rightarrow> bool" where
  "entryMatches ua t \<longleftrightarrow>
     t_Value1 t = Relation ua \<and> (t_Key t = AssociateTo ua \<or> t_Value2 t = AssociateTo ua)"

definition resolveEntry ::
    "UniqueAssociation \<Rightarrow> int \<Rightarrow> collection \<Rightarrow> Triple option \<times> collection" where
  "resolveEntry ua pos ic =
     (case resolveTriple pos ic of
        (None, ic) \<Rightarrow> (None, ic)
      | (Some t, ic) \<Rightarrow>
          if entryMatches ua t then (Some t, ic)
          else if writeToDisk ic \<and> cache ic \<noteq> None then
            (case readTripleAt pos (cacheEvict pos ic) of
               (Some t, ic) \<Rightarrow>
                 if entryMatches ua t then (Some t, cachePut pos t ic) else (None, ic)
             | (None, ic) \<Rightarrow> (None, ic))
          else (None, ic))"

section \<open>Storing and freeing a triple\<close>

text \<open>Reserve a slot and queue the record for it; queue the tombstone of a freed slot.\<close>

definition diskPut :: "FileRecord \<Rightarrow> collection \<Rightarrow> int \<times> collection" where
  "diskPut r ic =
     (let (pos, ic) = allocSlot ic in (pos, snd (queueWrite (FILE_ADD pos r) ic)))"

definition diskFree :: "int \<Rightarrow> collection \<Rightarrow> collection" where
  "diskFree pos ic =
     snd (queueWrite (FILE_DELETE pos) (if 0 \<le> pos then cacheEvict pos ic else ic))"

end
