(* ===== verification/Record_Store.thy ===== *)
theory Record_Store
  imports File_Store
begin

text \<open>
  The interface between the index and the storage of its triples: positions are handed out
  unused, keep their triple until they are freed, and nothing else changes. The memory-mode arena
  and the disk-mode slots with their write queue are its two providers.
\<close>

section \<open>The interface\<close>

locale record_store =
  fixes store :: "Triple \<Rightarrow> 's \<Rightarrow> int \<times> 's"
    and free :: "int \<Rightarrow> 's \<Rightarrow> 's"
    and rec :: "'s \<Rightarrow> int \<Rightarrow> Triple option"
    and ok :: "Triple \<Rightarrow> bool"
    and inv :: "'s \<Rightarrow> bool"
  assumes store_fresh: "inv s \<Longrightarrow> ok t \<Longrightarrow> rec s (fst (store t s)) = None"
    and store_rec: "inv s \<Longrightarrow> ok t \<Longrightarrow> rec (snd (store t s)) = (rec s)(fst (store t s) \<mapsto> t)"
    and store_inv: "inv s \<Longrightarrow> ok t \<Longrightarrow> inv (snd (store t s))"
    and free_rec: "inv s \<Longrightarrow> rec s p \<noteq> None \<Longrightarrow> rec (free p s) = (rec s)(p := None)"
    and free_inv: "inv s \<Longrightarrow> rec s p \<noteq> None \<Longrightarrow> inv (free p s)"
begin

text \<open>A stored triple disturbs no other position, and freeing it gives back the old contents.\<close>

lemma store_keeps:
  "inv s \<Longrightarrow> ok t \<Longrightarrow> rec s q = Some u \<Longrightarrow> rec (snd (store t s)) q = Some u"
  using store_fresh [of s t] by (auto simp: store_rec)

lemma free_store:
  assumes "inv s" "ok t"
  shows "rec (free (fst (store t s)) (snd (store t s))) = rec s"
proof -
  have "rec (snd (store t s)) (fst (store t s)) \<noteq> None" using assms by (simp add: store_rec)
  then have "rec (free (fst (store t s)) (snd (store t s))) =
      (rec (snd (store t s)))(fst (store t s) := None)"
    using assms by (simp add: free_rec store_inv)
  then show ?thesis using assms store_fresh [of s t] by (auto simp: store_rec fun_eq_iff)
qed

text \<open>Storing one triple after the other gives pairwise distinct positions.\<close>

fun store_all :: "Triple list \<Rightarrow> 's \<Rightarrow> int list \<times> 's" where
  "store_all [] s = ([], s)"
| "store_all (t # ts) s =
     (let (p, s) = store t s; (ps, s) = store_all ts s in (p # ps, s))"

lemma store_all_spec:
  assumes "inv s" "\<forall>t \<in> set ts. ok t" "store_all ts s = (ps, s')"
  shows "inv s'" and "rec s' = (rec s)(ps [\<mapsto>] ts)" and "length ps = length ts"
    and "\<forall>p \<in> set ps. rec s p = None" and "distinct ps"
  using assms
proof (induction ts arbitrary: s ps)
  case Nil
  { case 1 then show ?case by simp }
  { case 2 then show ?case by simp }
  { case 3 then show ?case by simp }
  { case 4 then show ?case by simp }
  { case 5 then show ?case by simp }
next
  case (Cons t ts)
  have step: "\<exists>p s1 ps'. store t s = (p, s1) \<and> store_all ts s1 = (ps', s') \<and> ps = p # ps' \<and>
      inv s1 \<and> rec s p = None \<and> rec s1 = (rec s)(p \<mapsto> t)"
    if "inv s" "\<forall>t \<in> set (t # ts). ok t" "store_all (t # ts) s = (ps, s')" for s ps
    using that store_fresh [of s t] store_inv [of s t] store_rec [of s t]
    by (auto split: prod.splits)
  { case (1 s ps)
    from step [OF this] 1 Cons.IH(1) show ?case by fastforce }
  { case (2 s ps)
    from step [OF this] 2 Cons.IH(2) show ?case by fastforce }
  { case (3 s ps)
    from step [OF this] 3 Cons.IH(3) show ?case by fastforce }
  { case (4 s ps)
    from step [OF this] obtain p s1 ps' where s1: "store_all ts s1 = (ps', s')" "ps = p # ps'"
      "inv s1" "rec s p = None" "rec s1 = (rec s)(p \<mapsto> t)" by blast
    with 4 Cons.IH(4) [OF s1(3) _ s1(1)] show ?case by (auto split: if_splits) }
  { case (5 s ps)
    from step [OF this] obtain p s1 ps' where s1: "store_all ts s1 = (ps', s')" "ps = p # ps'"
      "inv s1" "rec s p = None" "rec s1 = (rec s)(p \<mapsto> t)" by blast
    with 5 Cons.IH(4) [OF s1(3) _ s1(1)] Cons.IH(5) [OF s1(3) _ s1(1)] show ?case
      by (auto split: if_splits) }
qed

end

section \<open>The arena\<close>

definition arena_rec :: "collection \<Rightarrow> int \<Rightarrow> Triple option" where
  "arena_rec ic p = (if p \<in> set (arenaFree ic) then None else arenaLoad p ic)"

definition arena_inv :: "collection \<Rightarrow> bool" where
  "arena_inv ic \<longleftrightarrow>
     distinct (arenaFree ic) \<and> (\<forall>p \<in> set (arenaFree ic). 0 \<le> p \<and> p < int (length (arena ic)))"

lemma arena_rec_store:
  assumes "arena_inv ic"
  shows "arena_rec ic (fst (arenaStore t ic)) = None"
    and "arena_rec (snd (arenaStore t ic)) = (arena_rec ic)(fst (arenaStore t ic) \<mapsto> t)"
    and "arena_inv (snd (arenaStore t ic))"
proof -
  show "arena_rec ic (fst (arenaStore t ic)) = None"
    by (simp add: arenaStore_def arena_rec_def arenaLoad_def split: list.splits)
  show "arena_inv (snd (arenaStore t ic))"
    using assms by (auto simp: arenaStore_def arena_inv_def split: list.splits)
  show "arena_rec (snd (arenaStore t ic)) = (arena_rec ic)(fst (arenaStore t ic) \<mapsto> t)"
  proof (cases "arenaFree ic")
    case Nil
    show ?thesis
      by (auto simp: Nil arenaStore_def arena_rec_def arenaLoad_def fun_eq_iff nth_append)
  next
    case (Cons pos rest)
    with assms have "0 \<le> pos" "pos < int (length (arena ic))" "pos \<notin> set rest"
      by (auto simp: arena_inv_def)
    with Cons show ?thesis
      by (auto simp: arenaStore_def arena_rec_def arenaLoad_def fun_eq_iff nth_list_update)
  qed
qed

lemma arena_rec_free:
  assumes "arena_inv ic" "arena_rec ic p \<noteq> None"
  shows "arena_rec (arenaFreeSlot p ic) = (arena_rec ic)(p := None)"
    and "arena_inv (arenaFreeSlot p ic)"
  using assms
  by (auto simp: arenaFreeSlot_def arena_rec_def arenaLoad_def arena_inv_def fun_eq_iff
      split: if_splits)

interpretation arena_store: record_store arenaStore arenaFreeSlot arena_rec "\<lambda>_. True" arena_inv
  by unfold_locales (simp_all add: arena_rec_store arena_rec_free)

section \<open>Frames of a file\<close>

definition frame :: "int \<Rightarrow> byte list \<Rightarrow> byte list option" where
  "frame p bs =
     (if p < 0 \<or> p mod int ENTRY_SIZE \<noteq> 0 \<or> length bs < nat p + ENTRY_SIZE then None
      else Some (slice (nat p) (nat p + ENTRY_SIZE) bs))"

lemma ENTRY_SIZE_50: "ENTRY_SIZE = 50"
  by (simp add: format_sizes)

lemma length_overwrite:
  "length (overwrite p b bs) = (if b = [] then length bs else max (length bs) (p + length b))"
  by (auto simp: overwrite_def Let_def)

lemma slice_take: "hi \<le> n \<Longrightarrow> slice lo hi (take n xs) = slice lo hi xs"
  by (simp add: slice_def drop_take min_def)

lemma slice_drop: "slice lo hi (drop n xs) = slice (n + lo) (n + hi) xs"
  by (simp add: slice_def add.commute)

lemma slice_append1: "hi \<le> length xs \<Longrightarrow> slice lo hi (xs @ ys) = slice lo hi xs"
  by (simp add: slice_append)

lemma slice_append2: "slice (length xs + lo) (length xs + hi) (xs @ ys) = slice lo hi ys"
  by (simp add: slice_def)

lemma slice_overwrite_below:
  assumes "hi \<le> p" "hi \<le> length bs"
  shows "slice lo hi (overwrite p b bs) = slice lo hi bs"
  using assms by (simp add: overwrite_def Let_def slice_append1 slice_take)

lemma slice_overwrite_hole:
  assumes "hi \<le> p" "length bs \<le> lo" "lo \<le> hi" "b \<noteq> []"
  shows "slice lo hi (overwrite p b bs) = replicate (hi - lo) 0"
proof -
  let ?bs = "bs @ replicate (p - length bs) 0"
  have "overwrite p b bs = take p ?bs @ b @ drop (p + length b) ?bs"
    using assms(4) by (simp add: overwrite_def Let_def)
  then have "slice lo hi (overwrite p b bs) = slice lo hi (take p ?bs)"
    using assms(1) by (simp only: slice_append1 length_take length_append length_replicate)
  also have "\<dots> = slice lo hi ?bs" using assms(1) by (rule slice_take)
  also have "\<dots> = replicate (hi - lo) 0"
    using assms by (simp add: slice_def min_def)
  finally show ?thesis .
qed

lemma slice_overwrite_at:
  assumes "b \<noteq> []"
  shows "slice p (p + length b) (overwrite p b bs) = b"
proof -
  let ?xs = "take p (bs @ replicate (p - length bs) 0)"
  have "length ?xs = p" by simp
  then have "slice p (p + length b) (?xs @ b @ ys) = slice 0 (length b) (b @ ys)" for ys
    using slice_append2 [of ?xs 0 "length b" "b @ ys"] by simp
  then show ?thesis using assms by (simp add: overwrite_def Let_def slice_append1 slice_all)
qed

lemma slice_overwrite_above:
  assumes "p + length b \<le> lo" "lo \<le> hi" "lo < length bs"
  shows "slice lo hi (overwrite p b bs) = slice lo hi bs"
proof (cases "b = []")
  case False
  define k where "k = lo - (p + length b)"
  define k' where "k' = hi - (p + length b)"
  have lo: "lo = length (take p bs @ b) + k" and hi: "hi = length (take p bs @ b) + k'"
    using assms by (auto simp: k_def k'_def)
  have "overwrite p b bs = (take p bs @ b) @ drop (p + length b) bs"
    using False assms by (simp add: overwrite_def)
  then have "slice lo hi (overwrite p b bs) = slice k k' (drop (p + length b) bs)"
    unfolding lo hi by (simp only: slice_append2)
  also have "\<dots> = slice lo hi bs"
    using assms by (simp add: slice_drop k_def k'_def)
  finally show ?thesis .
qed (simp add: overwrite_def)

lemma aligned_cases:
  assumes "(p :: int) mod 50 = 0" "q mod 50 = 0" "p \<noteq> q"
  shows "p + 50 \<le> q \<or> q + 50 \<le> p"
  using assms by presburger

lemma nat_aligned: "(p :: int) mod 50 = 0 \<Longrightarrow> 0 \<le> p \<Longrightarrow> nat p mod 50 = 0"
  by presburger

lemma aligned_le: "(a :: nat) mod 50 = 0 \<Longrightarrow> b mod 50 = 0 \<Longrightarrow> a < b + 50 \<Longrightarrow> a \<le> b"
  by presburger

text \<open>A frame that was never written reads as zeroes, which is no record of any type.\<close>

definition zeroFrame :: "byte list" where
  "zeroFrame = replicate ENTRY_SIZE 0"

lemma bufToAssociation_zero [simp]: "bufToAssociation zeroFrame = None"
proof -
  have "recordType zeroFrame = 0"
    by (simp add: recordType_def zeroFrame_def slice_def format_sizes numeral_2_eq_2)
  then show ?thesis by (simp add: bufToAssociation_def format_types)
qed

lemma frame_overwrite:
  assumes "0 \<le> p" "p mod int ENTRY_SIZE = 0" "length b = ENTRY_SIZE"
    and "length bs mod ENTRY_SIZE = 0"
  shows "frame q (overwrite (nat p) b bs) =
    (if q = p then Some b
     else if frame q bs \<noteq> None then frame q bs
     else if 0 \<le> q \<and> q mod int ENTRY_SIZE = 0 \<and> q < p then Some zeroFrame else None)"
proof (cases "0 \<le> q \<and> q mod int ENTRY_SIZE = 0")
  case False
  with assms(1,2) show ?thesis by (auto simp: frame_def)
next
  case True
  have ne: "b \<noteq> []" using assms(3) by (auto simp: ENTRY_SIZE_50)
  consider "q = p" | "q + 50 \<le> p" | "p + 50 \<le> q"
    using aligned_cases [of p q] assms(2) True by (auto simp: ENTRY_SIZE_50)
  then show ?thesis
  proof cases
    case 1
    then show ?thesis
      using assms ne slice_overwrite_at [OF ne, of "nat p" bs]
      by (simp add: frame_def length_overwrite)
  next
    case 2
    have whole: "length bs \<le> nat q" if "length bs < nat q + 50"
    proof -
      have "q mod 50 = 0" "0 \<le> q" using True by (simp_all add: ENTRY_SIZE_50)
      then have "nat q mod 50 = 0" by (rule nat_aligned)
      moreover have "length bs mod 50 = 0" using assms(4) by (simp add: ENTRY_SIZE_50)
      ultimately show ?thesis using that by (intro aligned_le)
    qed
    have np: "nat q + 50 \<le> nat p" using 2 True by linarith
    show ?thesis
    proof (cases "nat q + 50 \<le> length bs")
      case True
      with np 2 \<open>0 \<le> q \<and> _\<close> assms(1,3) ne show ?thesis
        by (simp add: frame_def length_overwrite slice_overwrite_below ENTRY_SIZE_50)
    next
      case False
      with np whole 2 \<open>0 \<le> q \<and> _\<close> assms(1,3) ne show ?thesis
        by (simp add: frame_def length_overwrite slice_overwrite_hole ENTRY_SIZE_50 zeroFrame_def)
    qed
  next
    case 3
    with True assms(1,3) ne show ?thesis
      by (auto simp: frame_def length_overwrite slice_overwrite_above ENTRY_SIZE_50)
  qed
qed

lemma length_overwrite_mod:
  assumes "0 \<le> p" "p mod int ENTRY_SIZE = 0" "length b = ENTRY_SIZE" "length bs mod ENTRY_SIZE = 0"
  shows "length (overwrite (nat p) b bs) mod ENTRY_SIZE = 0"
proof -
  have "p mod 50 = 0" using assms(2) by (simp add: ENTRY_SIZE_50)
  then have "nat p mod 50 = 0" using assms(1) by (rule nat_aligned)
  with assms show ?thesis by (auto simp: length_overwrite ENTRY_SIZE_50 max_def)
qed

section \<open>The slots of the record file\<close>

text \<open>What a healthy writer makes of the file once it has applied the whole queue.\<close>

fun applyBytes :: "FileMod \<Rightarrow> byte list \<Rightarrow> byte list" where
  "applyBytes (FILE_ADD pos r) bs = overwrite (nat pos) (recordBytes r) bs"
| "applyBytes (FILE_DELETE pos) bs = overwrite (nat pos) tombstone bs"
| "applyBytes FILE_BARRIER bs = bs"

definition diskBytes :: "collection \<Rightarrow> byte list" where
  "diskBytes ic =
     (case db_file ic of None \<Rightarrow> [] | Some f \<Rightarrow> fold applyBytes (dBWriteQueue ic) (db_bytes f))"

definition disk_rec :: "collection \<Rightarrow> int \<Rightarrow> Triple option" where
  "disk_rec ic p = Option.bind (frame p (diskBytes ic)) bufToAssociation"

fun pendingDelete :: "FileMod \<Rightarrow> int list" where
  "pendingDelete (FILE_DELETE pos) = [pos]"
| "pendingDelete _ = []"

definition pendingDeletes :: "collection \<Rightarrow> int list" where
  "pendingDeletes ic = concat (map pendingDelete (dBWriteQueue ic))"

definition slot_ok :: "int \<Rightarrow> int \<Rightarrow> bool" where
  "slot_ok lim p \<longleftrightarrow> 0 \<le> p \<and> p mod int ENTRY_SIZE = 0 \<and> p < lim"

fun mod_ok :: "int \<Rightarrow> FileMod \<Rightarrow> bool" where
  "mod_ok lim (FILE_ADD p r) \<longleftrightarrow> slot_ok lim p \<and> length (recordBytes r) = ENTRY_SIZE"
| "mod_ok lim (FILE_DELETE p) \<longleftrightarrow> slot_ok lim p"
| "mod_ok lim FILE_BARRIER \<longleftrightarrow> True"

text \<open>The frame at a position is marked deleted.\<close>

definition dead :: "byte list \<Rightarrow> int \<Rightarrow> bool" where
  "dead bs p \<longleftrightarrow> map_option recordType (frame p bs) = Some TYPE_DELETE"

lemma dead_no_triple: "dead bs p \<Longrightarrow> Option.bind (frame p bs) bufToAssociation = None"
  by (auto simp: dead_def bufToAssociation_def bind_eq_None_conv)

text \<open>
  A running, healthy writer: whole frames only, every queued write inside the reserved range, and
  each free or soon to be freed slot holding a deleted record and occurring once. A cached triple is
  the one in the file.
\<close>

definition disk_inv :: "collection \<Rightarrow> bool" where
  "disk_inv ic \<longleftrightarrow>
     (\<exists>f. db_file ic = Some f \<and> db_faults f = [] \<and> length (db_bytes f) mod ENTRY_SIZE = 0 \<and>
          int (length (db_bytes f)) \<le> db_size ic) \<and>
     \<not> readOnly ic \<and> \<not> writerGone ic \<and> \<not> closed ic \<and>
     0 \<le> db_size ic \<and> db_size ic mod int ENTRY_SIZE = 0 \<and>
     (\<forall>m \<in> set (dBWriteQueue ic). mod_ok (db_size ic) m) \<and>
     distinct (freespace ic @ pendingDeletes ic) \<and>
     (\<forall>p \<in> set (freespace ic @ pendingDeletes ic).
        slot_ok (db_size ic) p \<and> dead (diskBytes ic) p) \<and>
     (\<forall>c. cache ic = Some c \<longrightarrow> tc_inv c \<and>
        (\<forall>p t. tc_lookup c p = Some t \<longrightarrow> disk_rec ic p = Some t))"

lemma mod_ok_mono: "mod_ok lim m \<Longrightarrow> lim \<le> lim' \<Longrightarrow> mod_ok lim' m"
  by (cases m) (auto simp: slot_ok_def)

lemma slot_end: "slot_ok lim p \<Longrightarrow> lim mod 50 = 0 \<Longrightarrow> p + 50 \<le> lim"
  using aligned_cases [of p lim] by (auto simp: slot_ok_def ENTRY_SIZE_50)

lemma applyBytes_length:
  assumes "mod_ok lim m" "length bs mod ENTRY_SIZE = 0" "int (length bs) \<le> lim" "lim mod 50 = 0"
  shows "length (applyBytes m bs) mod ENTRY_SIZE = 0" and "int (length (applyBytes m bs)) \<le> lim"
proof -
  show "length (applyBytes m bs) mod ENTRY_SIZE = 0"
    using assms by (cases m) (auto simp: slot_ok_def length_overwrite_mod)
  show "int (length (applyBytes m bs)) \<le> lim"
    using assms slot_end [OF _ assms(4)]
    by (cases m) (auto simp: length_overwrite ENTRY_SIZE_50 slot_ok_def max_def)
qed

lemma fold_applyBytes_length:
  assumes "\<forall>m \<in> set ms. mod_ok lim m" "length bs mod ENTRY_SIZE = 0" "int (length bs) \<le> lim"
    and "lim mod 50 = 0"
  shows "length (fold applyBytes ms bs) mod ENTRY_SIZE = 0 \<and>
    int (length (fold applyBytes ms bs)) \<le> lim"
  using assms by (induction ms arbitrary: bs) (auto simp: applyBytes_length)

lemma disk_inv_bytes:
  assumes "disk_inv ic"
  shows "length (diskBytes ic) mod ENTRY_SIZE = 0" and "int (length (diskBytes ic)) \<le> db_size ic"
  using assms fold_applyBytes_length [of "dBWriteQueue ic" "db_size ic"]
  by (auto simp: disk_inv_def diskBytes_def ENTRY_SIZE_50)

lemma disk_rec_free:
  "disk_inv ic \<Longrightarrow> p \<in> set (freespace ic) \<union> set (pendingDeletes ic) \<Longrightarrow> disk_rec ic p = None"
  unfolding disk_rec_def by (rule dead_no_triple) (auto simp: disk_inv_def)

lemma disk_rec_slot_ok:
  assumes "disk_inv ic" "disk_rec ic p \<noteq> None"
  shows "slot_ok (db_size ic) p" and "p \<notin> set (freespace ic) \<union> set (pendingDeletes ic)"
proof -
  from assms(2) have "0 \<le> p" "p mod int ENTRY_SIZE = 0" "nat p + ENTRY_SIZE \<le> length (diskBytes ic)"
    by (auto simp: disk_rec_def frame_def split: if_splits)
  with disk_inv_bytes(2) [OF assms(1)] show "slot_ok (db_size ic) p"
    by (simp add: slot_ok_def ENTRY_SIZE_50)
  show "p \<notin> set (freespace ic) \<union> set (pendingDeletes ic)"
    using assms(2) disk_rec_free [OF assms(1)] by metis
qed

subsection \<open>Reserving a slot and queueing its record\<close>

lemma diskPut_unfold:
  "disk_inv ic \<Longrightarrow> diskPut r ic =
     (case freespace ic of
        p # rest \<Rightarrow> (p, ic\<lparr>freespace := rest, dBWriteQueue := dBWriteQueue ic @ [FILE_ADD p r]\<rparr>)
      | [] \<Rightarrow> (db_size ic, ic\<lparr>db_size := db_size ic + int ENTRY_SIZE,
                 dBWriteQueue := dBWriteQueue ic @ [FILE_ADD (db_size ic) r]\<rparr>))"
  by (auto simp: diskPut_def allocSlot_def queueWrite_def disk_inv_def split: list.splits)

lemma diskPut_bytes:
  assumes "disk_inv ic"
  shows "diskBytes (snd (diskPut r ic)) =
    overwrite (nat (fst (diskPut r ic))) (recordBytes r) (diskBytes ic)"
  using assms
  by (auto simp: diskPut_unfold diskBytes_def disk_inv_def split: list.splits option.splits)

lemma diskPut_pos:
  assumes "disk_inv ic"
  shows "slot_ok (db_size (snd (diskPut r ic))) (fst (diskPut r ic))"
    and "disk_rec ic (fst (diskPut r ic)) = None"
    and "fst (diskPut r ic) \<notin> set (freespace (snd (diskPut r ic)) @ pendingDeletes ic)"
proof -
  have big: "frame (db_size ic) (diskBytes ic) = None"
    using disk_inv_bytes(2) [OF assms] by (auto simp: frame_def ENTRY_SIZE_50)
  show "slot_ok (db_size (snd (diskPut r ic))) (fst (diskPut r ic))"
    using assms by (auto simp: diskPut_unfold slot_ok_def disk_inv_def ENTRY_SIZE_50 split: list.splits)
  show "disk_rec ic (fst (diskPut r ic)) = None"
    using assms big disk_rec_free [OF assms]
    by (auto simp: diskPut_unfold disk_rec_def split: list.splits)
  show "fst (diskPut r ic) \<notin> set (freespace (snd (diskPut r ic)) @ pendingDeletes ic)"
    using assms by (auto simp: diskPut_unfold slot_ok_def disk_inv_def split: list.splits)
qed

lemma diskPut_frame:
  assumes "disk_inv ic" "length (recordBytes r) = ENTRY_SIZE"
  shows "frame q (diskBytes (snd (diskPut r ic))) =
    (if q = fst (diskPut r ic) then Some (recordBytes r)
     else if frame q (diskBytes ic) \<noteq> None then frame q (diskBytes ic)
     else if 0 \<le> q \<and> q mod int ENTRY_SIZE = 0 \<and> q < fst (diskPut r ic) then Some zeroFrame
     else None)"
  unfolding diskPut_bytes [OF assms(1)]
  using diskPut_pos(1) [OF assms(1), of r] disk_inv_bytes(1) [OF assms(1)]
  by (intro frame_overwrite) (simp_all add: slot_ok_def assms(2))

lemma diskPut_rec:
  assumes "disk_inv ic" "length (recordBytes r) = ENTRY_SIZE"
  shows "disk_rec (snd (diskPut r ic)) =
    (disk_rec ic)(fst (diskPut r ic) := bufToAssociation (recordBytes r))"
  by (auto simp: fun_eq_iff disk_rec_def diskPut_frame [OF assms])

lemma diskPut_inv:
  assumes "disk_inv ic" "length (recordBytes r) = ENTRY_SIZE"
  shows "disk_inv (snd (diskPut r ic))"
proof -
  let ?p = "fst (diskPut r ic)" and ?ic = "snd (diskPut r ic)"
  have pend: "pendingDeletes ?ic = pendingDeletes ic"
    using assms(1) by (auto simp: diskPut_unfold pendingDeletes_def split: list.splits)
  have size: "db_size ic \<le> db_size ?ic" "0 \<le> db_size ?ic" "db_size ?ic mod int ENTRY_SIZE = 0"
    using assms(1) by (auto simp: diskPut_unfold disk_inv_def ENTRY_SIZE_50 split: list.splits)
  have queue: "\<forall>m \<in> set (dBWriteQueue ?ic). mod_ok (db_size ?ic) m"
    using assms diskPut_pos(1) [OF assms(1), of r] size(1)
    by (auto simp: diskPut_unfold disk_inv_def split: list.splits intro: mod_ok_mono)
  have free: "set (freespace ?ic) \<subseteq> set (freespace ic)" "distinct (freespace ?ic @ pendingDeletes ic)"
    using assms(1) by (auto simp: diskPut_unfold disk_inv_def split: list.splits)
  have kept: "slot_ok (db_size ?ic) p \<and> dead (diskBytes ?ic) p"
    if "p \<in> set (freespace ?ic @ pendingDeletes ic)" for p
  proof -
    have "p \<noteq> ?p" using that diskPut_pos(3) [OF assms(1), of r] by auto
    moreover have "slot_ok (db_size ic) p" "dead (diskBytes ic) p"
      using that free(1) assms(1) by (auto simp: disk_inv_def)
    ultimately show ?thesis
      using size(1) by (auto simp: diskPut_frame [OF assms] slot_ok_def dead_def)
  qed
  have cache: "tc_inv c \<and> (\<forall>p t. tc_lookup c p = Some t \<longrightarrow> disk_rec ?ic p = Some t)"
    if "cache ic = Some c" for c
    using that assms(1) diskPut_pos(2) [OF assms(1), of r]
    by (auto simp: diskPut_rec [OF assms] disk_inv_def)
  have same: "db_file ?ic = db_file ic" "readOnly ?ic = readOnly ic" "writerGone ?ic = writerGone ic"
    "closed ?ic = closed ic" "cache ?ic = cache ic"
    using assms(1) by (auto simp: diskPut_unfold split: list.splits)
  obtain f where f: "db_file ic = Some f" "db_faults f = []" "length (db_bytes f) mod ENTRY_SIZE = 0"
    "int (length (db_bytes f)) \<le> db_size ic" using assms(1) by (auto simp: disk_inv_def)
  show ?thesis
    unfolding disk_inv_def same pend
    using f size queue free(2) kept cache assms(1) by (auto simp: disk_inv_def)
qed

subsection \<open>Freeing a slot\<close>

lemma diskFree_unfold:
  "disk_inv ic \<Longrightarrow> slot_ok (db_size ic) p \<Longrightarrow> diskFree p ic =
     ic\<lparr>cache := map_option (tc_Evict p) (cache ic),
        dBWriteQueue := dBWriteQueue ic @ [FILE_DELETE p]\<rparr>"
  by (simp add: diskFree_def queueWrite_def cacheEvict_def disk_inv_def slot_ok_def)

lemma diskFree_frame:
  assumes "disk_inv ic" "disk_rec ic p \<noteq> None"
  shows "frame q (diskBytes (diskFree p ic)) =
    (if q = p then Some tombstone else frame q (diskBytes ic))"
proof -
  have ok: "slot_ok (db_size ic) p" by (rule disk_rec_slot_ok [OF assms])
  have "diskBytes (diskFree p ic) = overwrite (nat p) tombstone (diskBytes ic)"
    using assms(1) by (auto simp: diskFree_unfold ok diskBytes_def disk_inv_def)
  moreover have "frame q (diskBytes ic) \<noteq> None"
    if "0 \<le> q" "q mod int ENTRY_SIZE = 0" "q < p"
    using assms(2) that by (auto simp: disk_rec_def frame_def split: if_splits)
  moreover have "frame q (overwrite (nat p) tombstone (diskBytes ic)) =
      (if q = p then Some tombstone
       else if frame q (diskBytes ic) \<noteq> None then frame q (diskBytes ic)
       else if 0 \<le> q \<and> q mod int ENTRY_SIZE = 0 \<and> q < p then Some zeroFrame else None)"
    using ok disk_inv_bytes(1) [OF assms(1)] by (intro frame_overwrite) (simp_all add: slot_ok_def)
  ultimately show ?thesis by auto
qed

lemma diskFree_rec:
  assumes "disk_inv ic" "disk_rec ic p \<noteq> None"
  shows "disk_rec (diskFree p ic) = (disk_rec ic)(p := None)"
  by (auto simp: fun_eq_iff disk_rec_def diskFree_frame [OF assms])

lemma diskFree_inv:
  assumes "disk_inv ic" "disk_rec ic p \<noteq> None"
  shows "disk_inv (diskFree p ic)"
proof -
  have ok: "slot_ok (db_size ic) p" "p \<notin> set (freespace ic) \<union> set (pendingDeletes ic)"
    using disk_rec_slot_ok [OF assms] by auto
  have pend: "pendingDeletes (diskFree p ic) = pendingDeletes ic @ [p]"
    by (simp add: diskFree_unfold ok(1) assms(1) pendingDeletes_def)
  have same: "db_file (diskFree p ic) = db_file ic" "readOnly (diskFree p ic) = readOnly ic"
    "writerGone (diskFree p ic) = writerGone ic" "closed (diskFree p ic) = closed ic"
    "db_size (diskFree p ic) = db_size ic" "freespace (diskFree p ic) = freespace ic"
    "cache (diskFree p ic) = map_option (tc_Evict p) (cache ic)"
    "dBWriteQueue (diskFree p ic) = dBWriteQueue ic @ [FILE_DELETE p]"
    by (simp_all add: diskFree_unfold ok(1) assms(1))
  show ?thesis
    unfolding disk_inv_def same pend
    using assms(1) ok by (auto simp: disk_inv_def dead_def diskFree_frame [OF assms] diskFree_rec [OF assms])
qed

interpretation disk_store: record_store "\<lambda>t. diskPut (AssociationRecord t)" diskFree disk_rec
  triple_ok disk_inv
  by unfold_locales
    (simp_all add: diskPut_rec diskPut_inv diskPut_pos(2) diskFree_rec diskFree_inv recordBytes_def)

subsection \<open>The writer\<close>

lemma applyFileMod_healthy:
  assumes "db_file ic = Some f" "db_faults f = []" "mod_ok lim m"
  shows "\<exists>f'. applyFileMod m ic =
      (None, ic\<lparr>db_file := Some f', freespace := pendingDelete m @ freespace ic\<rparr>) \<and>
    db_bytes f' = applyBytes m (db_bytes f) \<and> db_faults f' = []"
proof (cases m)
  case (FILE_ADD p r)
  with assms show ?thesis
    by (intro exI [of _ "f\<lparr>db_bytes := overwrite (nat p) (recordBytes r) (db_bytes f)\<rparr>"])
      (simp add: applyFileMod_def dbWriteAt_def writeError_def)
next
  case (FILE_DELETE p)
  with assms show ?thesis
    by (intro exI [of _ "f\<lparr>db_bytes := overwrite (nat p) tombstone (db_bytes f)\<rparr>"])
      (simp add: applyFileMod_def dbWriteAt_def writeError_def freeSlot_def slot_ok_def)
next
  case FILE_BARRIER
  with assms show ?thesis
    by (intro exI [of _ "f\<lparr>db_synced := db_bytes f\<rparr>"]) (simp add: applyFileMod_def)
qed

lemma applyFileMod_queue:
  "snd (applyFileMod m (ic\<lparr>dBWriteQueue := q\<rparr>)) = (snd (applyFileMod m ic))\<lparr>dBWriteQueue := q\<rparr>"
  by (cases m)
    (auto simp: applyFileMod_def freeSlot_def Let_def split: option.splits prod.splits)

text \<open>
  What storage-side work may change: the queue, the file, the free list and the cache. Two states
  that agree on everything else are storage-equal.
\<close>

definition storage_norm :: "collection \<Rightarrow> collection" where
  "storage_norm ic = ic\<lparr>dBWriteQueue := [], db_file := None, freespace := [], cache := None\<rparr>"

definition storage_step :: "collection \<Rightarrow> collection \<Rightarrow> bool" where
  "storage_step ic ic' \<longleftrightarrow> storage_norm ic' = storage_norm ic"

lemma storage_step_refl [simp]: "storage_step ic ic"
  by (simp add: storage_step_def)

lemma storage_step_trans [trans]: "storage_step a b \<Longrightarrow> storage_step b c \<Longrightarrow> storage_step a c"
  by (simp add: storage_step_def)

lemma storage_step_upd [simp]:
  "storage_step ic (ic\<lparr>cache := c\<rparr>)"
  "storage_step ic (ic\<lparr>dBWriteQueue := q\<rparr>)"
  "storage_step ic (ic\<lparr>dBWriteQueue := q, db_file := f, freespace := fs\<rparr>)"
  by (simp_all add: storage_step_def storage_norm_def)

text \<open>Applying the head of the queue changes where things are, not what the file comes to hold.\<close>

definition applyHead :: "collection \<Rightarrow> collection" where
  "applyHead ic =
     (case dBWriteQueue ic of
        [] \<Rightarrow> ic
      | m # rest \<Rightarrow> snd (applyFileMod m (ic\<lparr>dBWriteQueue := rest\<rparr>)))"

lemma applyHead_spec:
  assumes "disk_inv ic"
  shows "disk_inv (applyHead ic)" and "disk_rec (applyHead ic) = disk_rec ic"
    and "diskBytes (applyHead ic) = diskBytes ic"
    and "dBWriteQueue (applyHead ic) = tl (dBWriteQueue ic)"
    and "storage_step ic (applyHead ic)"
proof -
  have "disk_inv (applyHead ic) \<and> disk_rec (applyHead ic) = disk_rec ic \<and>
    diskBytes (applyHead ic) = diskBytes ic \<and>
    dBWriteQueue (applyHead ic) = tl (dBWriteQueue ic) \<and>
    storage_step ic (applyHead ic)"
  proof (cases "dBWriteQueue ic")
    case Nil
    with assms show ?thesis by (simp add: applyHead_def)
  next
    case (Cons m rest)
    obtain f where f: "db_file ic = Some f" "db_faults f = []" "length (db_bytes f) mod ENTRY_SIZE = 0"
      "int (length (db_bytes f)) \<le> db_size ic" "mod_ok (db_size ic) m" "db_size ic mod 50 = 0"
      using assms Cons by (auto simp: disk_inv_def ENTRY_SIZE_50)
    from applyFileMod_healthy [of "ic\<lparr>dBWriteQueue := rest\<rparr>" f "db_size ic" m] f
    obtain f' where f': "applyHead ic =
        ic\<lparr>dBWriteQueue := rest, db_file := Some f', freespace := pendingDelete m @ freespace ic\<rparr>"
      "db_bytes f' = applyBytes m (db_bytes f)" "db_faults f' = []"
      by (auto simp: applyHead_def Cons)
    have bytes: "diskBytes (applyHead ic) = diskBytes ic"
      by (simp add: f' f(1) diskBytes_def Cons)
    then have rec: "disk_rec (applyHead ic) = disk_rec ic" by (simp add: fun_eq_iff disk_rec_def)
    have pend: "pendingDeletes (applyHead ic) = concat (map pendingDelete rest)"
      "pendingDeletes ic = pendingDelete m @ concat (map pendingDelete rest)"
      by (simp_all add: f' pendingDeletes_def Cons)
    have fs: "freespace (applyHead ic) = pendingDelete m @ freespace ic" by (simp add: f'(1))
    have "length (db_bytes f') mod ENTRY_SIZE = 0 \<and> int (length (db_bytes f')) \<le> db_size ic"
      unfolding f'(2) using applyBytes_length [OF f(5,3,4)] f(6) by blast
    moreover have
      "distinct (freespace (applyHead ic) @ pendingDeletes (applyHead ic)) \<and>
       set (freespace (applyHead ic) @ pendingDeletes (applyHead ic)) =
       set (freespace ic @ pendingDeletes ic)"
      using assms fs by (auto simp: disk_inv_def pend)
    ultimately have "disk_inv (applyHead ic)"
      using assms bytes rec f'(1,3) Cons by (auto simp: disk_inv_def)
    with bytes rec f'(1) Cons show ?thesis by auto
  qed
  then show "disk_inv (applyHead ic)" and "disk_rec (applyHead ic) = disk_rec ic"
    and "diskBytes (applyHead ic) = diskBytes ic"
    and "dBWriteQueue (applyHead ic) = tl (dBWriteQueue ic)"
    and "storage_step ic (applyHead ic)"
    by blast+
qed

lemma drain_Nil [simp]: "dBWriteQueue ic = [] \<Longrightarrow> drainWriteQueue ic = ic"
  by (simp add: drainWriteQueue_def)

lemma drain_step: "dBWriteQueue ic \<noteq> [] \<Longrightarrow> drainWriteQueue ic = drainWriteQueue (applyHead ic)"
  by (cases "dBWriteQueue ic")
    (auto simp: drainWriteQueue_def applyHead_def applyFileMod_queue)

lemma writerStep_healthy: "disk_inv ic \<Longrightarrow> writerStep ic = applyHead ic"
  using applyFileMod_healthy [of "ic\<lparr>dBWriteQueue := tl (dBWriteQueue ic)\<rparr>" _ "db_size ic"
      "hd (dBWriteQueue ic)"]
  by (cases "dBWriteQueue ic") (auto simp: writerStep_def applyHead_def disk_inv_def)

lemma drain_spec:
  assumes "disk_inv ic"
  shows "disk_inv (drainWriteQueue ic)" and "disk_rec (drainWriteQueue ic) = disk_rec ic"
    and "diskBytes (drainWriteQueue ic) = diskBytes ic"
    and "dBWriteQueue (drainWriteQueue ic) = []" and "storage_step ic (drainWriteQueue ic)"
proof -
  have "disk_inv (drainWriteQueue ic) \<and> disk_rec (drainWriteQueue ic) = disk_rec ic \<and>
    diskBytes (drainWriteQueue ic) = diskBytes ic \<and>
    dBWriteQueue (drainWriteQueue ic) = [] \<and> storage_step ic (drainWriteQueue ic)"
    using assms
  proof (induction "length (dBWriteQueue ic)" arbitrary: ic)
    case 0
    then show ?case by simp
  next
    case (Suc n)
    note head = applyHead_spec [OF Suc.prems]
    from Suc.hyps(2) head(4) have "n = length (dBWriteQueue (applyHead ic))" by simp
    from Suc.hyps(1) [OF this head(1)] head(2,3,5) drain_step [of ic] Suc.hyps(2)
    show ?case by (metis list.size(3) nat.simps(3) storage_step_trans)
  qed
  then show "disk_inv (drainWriteQueue ic)" and "disk_rec (drainWriteQueue ic) = disk_rec ic"
    and "diskBytes (drainWriteQueue ic) = diskBytes ic"
    and "dBWriteQueue (drainWriteQueue ic) = []" and "storage_step ic (drainWriteQueue ic)"
    by blast+
qed

subsection \<open>Reading a position\<close>

lemma diskBytes_cache [simp]: "diskBytes (ic\<lparr>cache := c\<rparr>) = diskBytes ic"
  by (simp add: diskBytes_def split: option.splits)

lemma disk_rec_cache [simp]: "disk_rec (ic\<lparr>cache := c\<rparr>) = disk_rec ic"
  by (simp add: fun_eq_iff disk_rec_def)

lemma disk_inv_cache:
  assumes "disk_inv ic" "tc_inv c" "\<And>p t. tc_lookup c p = Some t \<Longrightarrow> disk_rec ic p = Some t"
  shows "disk_inv (ic\<lparr>cache := Some c\<rparr>)"
  using assms by (simp add: disk_inv_def pendingDeletes_def)

lemma cachePut_spec:
  assumes "disk_inv ic" "disk_rec ic p = Some t"
  shows "disk_inv (cachePut p t ic)"
proof (cases "cache ic")
  case None
  then have "cachePut p t ic = ic" by (simp add: cachePut_def)
  then show ?thesis using assms(1) by simp
next
  case (Some c)
  then have c: "tc_inv c" "\<And>q u. tc_lookup c q = Some u \<Longrightarrow> disk_rec ic q = Some u"
    using assms(1) by (auto simp: disk_inv_def)
  have "disk_rec ic q = Some u" if "tc_lookup (tc_Put p t c) q = Some u" for q u
    using that c assms(2) tc_lookup_Put_other [OF c(1) that] by (cases "q = p") auto
  with Some c assms show ?thesis by (simp add: cachePut_def disk_inv_cache)
qed

lemma readTripleAt_spec:
  assumes "disk_inv ic" "disk_rec ic p = Some t"
  shows "readTripleAt p ic = (Some t, drainWriteQueue ic)"
proof -
  let ?ic = "drainWriteQueue ic"
  have run: "\<not> closed ic" "\<not> readOnly ic" "\<not> writerGone ic" using assms(1) by (auto simp: disk_inv_def)
  from drain_spec(1,4) [OF assms(1)] obtain f where f: "db_file ?ic = Some f" "db_bytes f = diskBytes ?ic"
    by (auto simp: disk_inv_def diskBytes_def)
  have "Option.bind (frame p (diskBytes ?ic)) bufToAssociation = Some t"
    using assms by (simp add: drain_spec(3) disk_rec_def)
  then have "Option.bind (dbReadAt p f) bufToAssociation = Some t"
    unfolding f(2) [symmetric] by (auto simp: frame_def dbReadAt_def split: if_splits)
  with run f(1) show ?thesis by (simp add: readTripleAt_def readSlot_def Let_def)
qed

section \<open>Both modes\<close>

definition record_at :: "collection \<Rightarrow> int \<Rightarrow> Triple option" where
  "record_at ic = (if writeToDisk ic then disk_rec ic else arena_rec ic)"

definition store_inv :: "collection \<Rightarrow> bool" where
  "store_inv ic \<longleftrightarrow> (if writeToDisk ic then disk_inv ic else arena_inv ic)"

text \<open>\<open>reads ic ic'\<close>: a read path ran, nothing a query can see changed.\<close>

definition reads :: "collection \<Rightarrow> collection \<Rightarrow> bool" where
  "reads ic ic' \<longleftrightarrow>
     storage_step ic ic' \<and> record_at ic' = record_at ic \<and> diskBytes ic' = diskBytes ic \<and>
     (store_inv ic \<longrightarrow> store_inv ic')"

lemma reads_refl [simp]: "reads ic ic"
  by (simp add: reads_def)

lemma reads_trans [trans]: "reads a b \<Longrightarrow> reads b c \<Longrightarrow> reads a c"
  by (auto simp: reads_def intro: storage_step_trans)

lemma storage_step_writeToDisk: "storage_step ic ic' \<Longrightarrow> writeToDisk ic' = writeToDisk ic"
  unfolding storage_step_def storage_norm_def by (drule arg_cong [where f = writeToDisk]) simp

lemma record_at_pos:
  assumes "store_inv ic" "record_at ic p = Some t"
  shows "0 \<le> p"
  using assms disk_rec_slot_ok [of ic p]
  by (auto simp: store_inv_def record_at_def arena_rec_def arenaLoad_def slot_ok_def split: if_splits)

lemma resolveTriple_spec:
  assumes "store_inv ic" "record_at ic p = Some t"
  obtains ic' where "resolveTriple p ic = (Some t, ic')" "reads ic ic'"
proof (cases "writeToDisk ic")
  case False
  have "resolveTriple p ic = (Some t, ic)"
    using False assms record_at_pos [OF assms]
    by (auto simp: resolveTriple_def record_at_def arena_rec_def split: if_splits)
  then show thesis by (rule that) simp
next
  case True
  with assms have inv: "disk_inv ic" "disk_rec ic p = Some t"
    by (simp_all add: store_inv_def record_at_def)
  have pos: "\<not> p < 0" using record_at_pos [OF assms] by simp
  show thesis
  proof (cases "cache ic")
    case None
    have "resolveTriple p ic = (Some t, cachePut p t (drainWriteQueue ic))"
      using True pos None by (simp add: resolveTriple_def readTripleAt_spec [OF inv])
    moreover have "reads ic (cachePut p t (drainWriteQueue ic))"
      using True inv None drain_spec [OF inv(1)] storage_step_writeToDisk [OF drain_spec(5) [OF inv(1)]]
        cachePut_spec [of "drainWriteQueue ic" p t]
      by (auto simp: reads_def store_inv_def record_at_def cachePut_def intro: storage_step_trans)
    ultimately show thesis by (rule that)
  next
    case (Some c)
    obtain c' where get: "tc_Get p c = (tc_lookup c p, c')" by (metis fst_tc_Get prod.collapse)
    have c': "tc_lookup c' = tc_lookup c" "tc_inv c'" if "tc_inv c"
      using that get tc_lookup_Get [of p c] tc_inv_Get [of c p] by simp_all
    let ?ic1 = "ic\<lparr>cache := Some c'\<rparr>"
    have c: "tc_inv c" "\<And>q u. tc_lookup c q = Some u \<Longrightarrow> disk_rec ic q = Some u"
      using inv(1) Some by (auto simp: disk_inv_def)
    have ic1: "disk_inv ?ic1" "disk_rec ?ic1 p = Some t"
      using disk_inv_cache [OF inv(1), of c'] c c' inv(2) by simp_all
    show thesis
    proof (cases "tc_lookup c p")
      case None
      let ?ic2 = "cachePut p t (drainWriteQueue ?ic1)"
      have "resolveTriple p ic = (Some t, ?ic2)"
        using True pos Some get None by (simp add: resolveTriple_def readTripleAt_spec [OF ic1])
      moreover have "storage_step ic ?ic1" "storage_step ?ic1 (drainWriteQueue ?ic1)"
        using drain_spec(5) [OF ic1(1)] by simp_all
      then have "storage_step ic (drainWriteQueue ?ic1)" by (rule storage_step_trans)
      then have "reads ic ?ic2"
        using True ic1 drain_spec [OF ic1(1)] storage_step_writeToDisk
          cachePut_spec [of "drainWriteQueue ?ic1" p t]
        by (auto simp: reads_def store_inv_def record_at_def cachePut_def intro: storage_step_trans)
      ultimately show thesis by (rule that)
    next
      case hit: (Some u)
      with c(2) [OF this] inv(2) have "u = t" by simp
      then have "resolveTriple p ic = (Some t, ?ic1)"
        using True pos Some get hit by (simp add: resolveTriple_def)
      moreover have "reads ic ?ic1"
        using True ic1 by (simp add: reads_def store_inv_def record_at_def)
      ultimately show thesis by (rule that)
    qed
  qed
qed

lemma resolveEntry_spec:
  assumes "store_inv ic" "record_at ic p = Some t" "entryMatches ua t"
  obtains ic' where "resolveEntry ua p ic = (Some t, ic')" "reads ic ic'"
proof -
  obtain ic' where "resolveTriple p ic = (Some t, ic')" "reads ic ic'"
    by (rule resolveTriple_spec [OF assms(1,2)])
  with assms(3) show thesis by (intro that [of ic']) (simp_all add: resolveEntry_def)
qed

text \<open>The goroutine alone empties the queue: one step per queued change.\<close>

lemma writerSteps_spec:
  assumes "disk_inv ic"
  shows "disk_inv ((writerStep ^^ n) ic)" and "diskBytes ((writerStep ^^ n) ic) = diskBytes ic"
    and "dBWriteQueue ((writerStep ^^ n) ic) = drop n (dBWriteQueue ic)"
    and "storage_step ic ((writerStep ^^ n) ic)"
proof -
  have "disk_inv ((writerStep ^^ n) ic) \<and> diskBytes ((writerStep ^^ n) ic) = diskBytes ic \<and>
    dBWriteQueue ((writerStep ^^ n) ic) = drop n (dBWriteQueue ic) \<and> storage_step ic ((writerStep ^^ n) ic)"
  proof (induction n)
    case 0
    then show ?case using assms by simp
  next
    case (Suc n)
    let ?ic = "(writerStep ^^ n) ic"
    have inv: "disk_inv ?ic" using Suc by blast
    have step: "(writerStep ^^ Suc n) ic = applyHead ?ic" using writerStep_healthy [OF inv] by simp
    note h = applyHead_spec [OF inv]
    show ?case
      unfolding step using Suc h(1,3,4) storage_step_trans [OF _ h(5)] by (simp add: tl_drop drop_Suc)
  qed
  then show "disk_inv ((writerStep ^^ n) ic)" and "diskBytes ((writerStep ^^ n) ic) = diskBytes ic"
    and "dBWriteQueue ((writerStep ^^ n) ic) = drop n (dBWriteQueue ic)"
    and "storage_step ic ((writerStep ^^ n) ic)" by blast+
qed

end
