(* ===== verification/Intern_Correct.thy ===== *)
theory Intern_Correct
  imports Intern
begin

text \<open>
  Correctness of the value trie and the hash store: the well-formedness they keep, the lookup as a
  pure function, and the effect of an insertion on it.
\<close>

section \<open>The storage fields do not matter to the trie\<close>

definition core :: "collection \<Rightarrow> collection" where
  "core ic =
     ic\<lparr>dBWriteQueue := [], db_file := None, freespace := [], cache := None, db_size := 0,
        ioErr := None, selects := [], arena := [], arenaFree := []\<rparr>"

lemma obs_core [simp]:
  "getUniqueValue (core ic) = getUniqueValue ic" "uniqueValueId (core ic) = uniqueValueId ic"
  "hashEntry (core ic) = hashEntry ic" "hashId (core ic) = hashId ic"
  "getAssociations (core ic) = getAssociations ic"
  "getReverseAssociations (core ic) = getReverseAssociations ic"
  "associationsTree (core ic) = associationsTree ic"
  "reverseAssociationsTree (core ic) = reverseAssociationsTree ic"
  "levels (core ic) = levels ic"
  "totalEntries (core ic) = totalEntries ic" "blobPolicy (core ic) = blobPolicy ic"
  "hashEntries (core ic) = hashEntries ic" "hashValues (core ic) = hashValues ic"
  "hashAssociations (core ic) = hashAssociations ic"
  "hashReverseAssociations (core ic) = hashReverseAssociations ic"
  "readOnly (core ic) = readOnly ic" "writeToDisk (core ic) = writeToDisk ic"
  "reverseRelations (core ic) = reverseRelations ic" "searchGen (core ic) = searchGen ic"
  "totalAssociations (core ic) = totalAssociations ic"
  by (simp_all add: core_def)

lemma core_diskPut [simp]: "core (snd (diskPut r ic)) = core ic"
  by (simp add: core_def diskPut_def allocSlot_def queueWrite_def setIOErr_def
      split: list.splits bool.splits)

lemma core_diskFree [simp]: "core (diskFree p ic) = core ic"
  by (simp add: core_def diskFree_def queueWrite_def setIOErr_def cacheEvict_def
      split: list.splits bool.splits)

lemma core_arenaStore [simp]: "core (snd (arenaStore t ic)) = core ic"
  by (simp add: core_def arenaStore_def split: list.splits)

lemma core_arenaFreeSlot [simp]: "core (arenaFreeSlot p ic) = core ic"
  by (simp add: core_def arenaFreeSlot_def)

lemma core_storage_step: "storage_step ic ic' \<Longrightarrow> core ic' = core ic"
proof -
  have n: "core (storage_norm x) = core x" for x by (simp add: core_def storage_norm_def)
  assume "storage_step ic ic'"
  then show ?thesis unfolding storage_step_def by (metis n)
qed

text \<open>Two states with the same core answer every lookup alike.\<close>

lemma core_cong:
  assumes "core ic' = core ic"
  shows "getUniqueValue ic' = getUniqueValue ic" and "uniqueValueId ic' = uniqueValueId ic"
    and "hashEntry ic' = hashEntry ic" and "hashId ic' = hashId ic"
    and "getAssociations ic' = getAssociations ic"
    and "getReverseAssociations ic' = getReverseAssociations ic"
    and "associationsTree ic' = associationsTree ic"
    and "reverseAssociationsTree ic' = reverseAssociationsTree ic"
    and "levels ic' = levels ic"
    and "totalEntries ic' = totalEntries ic" and "blobPolicy ic' = blobPolicy ic"
    and "hashEntries ic' = hashEntries ic" and "hashValues ic' = hashValues ic"
    and "hashAssociations ic' = hashAssociations ic"
    and "hashReverseAssociations ic' = hashReverseAssociations ic"
    and "readOnly ic' = readOnly ic" and "writeToDisk ic' = writeToDisk ic"
    and "reverseRelations ic' = reverseRelations ic"
    and "searchGen ic' = searchGen ic" and "totalAssociations ic' = totalAssociations ic"
  by (metis assms obs_core)+

section \<open>Well-formedness\<close>

definition policy_ok :: "BlobPolicy \<Rightarrow> bool" where
  "policy_ok p \<longleftrightarrow> (\<forall>v raw. Encode p v = Some raw \<longrightarrow> length raw = 32 \<longrightarrow> Decode p raw = v)"

definition entry_ok :: "collection \<Rightarrow> int \<Rightarrow> u64 \<Rightarrow> UniqueValue \<Rightarrow> bool" where
  "entry_ok ic l i uv \<longleftrightarrow>
     length (Value uv) = SIZE_VALUE \<and> 0 \<le> l \<and> l < 2 ^ 62 \<and> i \<noteq> 0 \<and> i \<le> totalEntries ic \<and>
     (if l = 0 then ParentId uv = 0 else getUniqueValue ic (l - 1) (ParentId uv) \<noteq> None)"

definition hash_ok :: "collection \<Rightarrow> u64 \<Rightarrow> byte list \<Rightarrow> bool" where
  "hash_ok ic i raw \<longleftrightarrow>
     length raw = 32 \<and> i \<noteq> 0 \<and> i \<le> totalEntries ic \<and> (\<forall>l. getUniqueValue ic l i = None)"

text \<open>
  Entries and their reverse map agree, an id names one chunk at one level or one hash, chunks hang
  off existing parents, and every id in use is at most the counter.
\<close>

definition trie_wf :: "collection \<Rightarrow> bool" where
  "trie_wf ic \<longleftrightarrow>
     (\<forall>l uv i. uniqueValueId ic l uv = Some i \<longleftrightarrow> getUniqueValue ic l i = Some uv) \<and>
     (\<forall>l i uv. getUniqueValue ic l i = Some uv \<longrightarrow> entry_ok ic l i uv) \<and>
     (\<forall>l l' i. getUniqueValue ic l i \<noteq> None \<longrightarrow> getUniqueValue ic l' i \<noteq> None \<longrightarrow> l = l') \<and>
     (\<forall>raw i. hashId ic raw = Some i \<longleftrightarrow> hashEntry ic i = Some raw) \<and>
     (\<forall>i raw. hashEntry ic i = Some raw \<longrightarrow> hash_ok ic i raw) \<and>
     (\<forall>p. blobPolicy ic = Some p \<longrightarrow> policy_ok p \<and> hashEntries ic \<noteq> None \<and> hashValues ic \<noteq> None) \<and>
     (\<forall>i raw. hashEntry ic i = Some raw \<longrightarrow> blobPolicy ic \<noteq> None)"

lemma trie_wfD:
  assumes "trie_wf ic"
  shows "uniqueValueId ic l uv = Some i \<longleftrightarrow> getUniqueValue ic l i = Some uv"
    and "getUniqueValue ic l i = Some uv \<Longrightarrow> entry_ok ic l i uv"
    and "getUniqueValue ic l i \<noteq> None \<Longrightarrow> getUniqueValue ic l' i \<noteq> None \<Longrightarrow> l = l'"
    and "hashId ic raw = Some i \<longleftrightarrow> hashEntry ic i = Some raw"
    and "hashEntry ic i = Some raw \<Longrightarrow> hash_ok ic i raw"
    and "blobPolicy ic = Some p \<Longrightarrow> policy_ok p \<and> hashEntries ic \<noteq> None \<and> hashValues ic \<noteq> None"
    and "hashEntry ic i = Some raw \<Longrightarrow> blobPolicy ic \<noteq> None"
  using assms unfolding trie_wf_def by blast+

lemma trie_wf_cong:
  assumes "getUniqueValue ic' = getUniqueValue ic" "uniqueValueId ic' = uniqueValueId ic"
    "hashEntry ic' = hashEntry ic" "hashId ic' = hashId ic" "totalEntries ic' = totalEntries ic"
    "blobPolicy ic' = blobPolicy ic" "hashEntries ic' = hashEntries ic" "hashValues ic' = hashValues ic"
  shows "trie_wf ic' = trie_wf ic"
  unfolding trie_wf_def entry_ok_def hash_ok_def assms ..

lemma trie_wf_core: "core ic' = core ic \<Longrightarrow> trie_wf ic' = trie_wf ic"
  by (rule trie_wf_cong) (erule core_cong)+

lemma trie_wf_secureLevel [simp]: "trie_wf (secureLevelInIndex n ic) = trie_wf ic"
  by (rule trie_wf_cong) (simp_all, simp_all add: secureLevelInIndex_def)

section \<open>Lookup as a pure function\<close>

fun pathId :: "collection \<Rightarrow> int \<Rightarrow> u64 \<Rightarrow> byte list list \<Rightarrow> u64 option" where
  "pathId ic level parent [] = Some parent"
| "pathId ic level parent (v # vs) =
     (case uniqueValueId ic level \<lparr>ParentId = parent, Value = v\<rparr> of
        None \<Rightarrow> None
      | Some i \<Rightarrow> pathId ic (level + 1) i vs)"

definition lookupEntry :: "collection \<Rightarrow> string \<Rightarrow> (u64 \<times> int) option" where
  "lookupEntry ic v =
     (case asBlob ic v of
        Some raw \<Rightarrow> map_option (\<lambda>i. (i, HASH_LEVEL)) (hashId ic raw)
      | None \<Rightarrow> map_option (\<lambda>i. (i, int (length (valueChunks v)) - 1)) (pathId ic 0 0 (valueChunks v)))"

lemma secureLevel_merge [simp]:
  "secureLevelInIndex m (secureLevelInIndex n ic) = secureLevelInIndex (max m n) ic"
  by (simp add: secureLevelInIndex_def replicate_add [symmetric] max_def)

lemma secureLevel_self: "\<exists>n. ic = secureLevelInIndex n ic"
  by (rule exI [of _ "-1"]) (simp add: secureLevelInIndex_def)

lemma asBlob_secureLevel [simp]: "asBlob (secureLevelInIndex n ic) = asBlob ic"
  by (simp add: fun_eq_iff asBlob_def secureLevelInIndex_def)

lemma pathId_secureLevel [simp]: "pathId (secureLevelInIndex n ic) l p vs = pathId ic l p vs"
  by (induction vs arbitrary: l p) (auto split: option.splits)

lemma lookupEntry_secureLevel [simp]: "lookupEntry (secureLevelInIndex n ic) = lookupEntry ic"
  by (simp add: fun_eq_iff lookupEntry_def split: option.splits)

lemma getEntryLoop_spec:
  "\<exists>n. getEntryLoop l p vs ic =
     (map_option (\<lambda>i. (i, l + int (length vs) - 1)) (pathId ic l p vs), secureLevelInIndex n ic)"
proof (induction vs arbitrary: l p ic)
  case Nil
  from secureLevel_self [of ic] show ?case by auto
next
  case (Cons v vs)
  show ?case
  proof (cases "uniqueValueId ic l \<lparr>ParentId = p, Value = v\<rparr>")
    case None
    then show ?thesis by (auto simp: valueExists_def Let_def)
  next
    case (Some i)
    obtain n where "getEntryLoop (l + 1) i vs (secureLevelInIndex l ic) =
        (map_option (\<lambda>j. (j, l + 1 + int (length vs) - 1)) (pathId ic (l + 1) i vs),
         secureLevelInIndex n (secureLevelInIndex l ic))"
      using Cons.IH [of "l + 1" i "secureLevelInIndex l ic"] by auto
    with Some show ?thesis by (auto simp: valueExists_def Let_def add_ac)
  qed
qed

text \<open>A lookup returns the pure lookup and leaves the state as it was, but for more levels.\<close>

lemma getEntryFromString_spec:
  obtains n where "getEntryFromString v ic = (lookupEntry ic v, secureLevelInIndex n ic)"
proof (cases "asBlob ic v")
  case None
  with getEntryLoop_spec [of 0 0 "valueChunks v" ic] that show thesis
    by (auto simp: getEntryFromString_def lookupEntry_def)
next
  case (Some raw)
  with secureLevel_self [of ic] that show thesis
    by (auto simp: getEntryFromString_def lookupEntry_def)
qed

lemma fst_getEntryFromString [simp]: "fst (getEntryFromString v ic) = lookupEntry ic v"
  by (metis fst_conv getEntryFromString_spec)

section \<open>A path determines its value\<close>

lemma getChain_snoc:
  assumes "trie_wf ic" "pathId ic (int n) p vs = Some i" "getChain ic n p = Some out"
  shows "getChain ic (n + length vs) i = Some (out @ concat vs)"
  using assms(2,3)
proof (induction vs arbitrary: n p out)
  case Nil
  then show ?case by simp
next
  case (Cons v vs)
  then obtain j where j: "uniqueValueId ic (int n) \<lparr>ParentId = p, Value = v\<rparr> = Some j"
    "pathId ic (int n + 1) j vs = Some i" by (auto split: option.splits)
  then have "getUniqueValue ic (int n) j = Some \<lparr>ParentId = p, Value = v\<rparr>"
    using trie_wfD(1) [OF assms(1)] by blast
  with Cons.prems(2) have "getChain ic (Suc n) j = Some (out @ v)" by simp
  with Cons.IH [of "Suc n" j "out @ v"] j(2) show ?case by (simp add: add_ac)
qed

lemma pathId_value:
  assumes "trie_wf ic" "pathId ic 0 0 vs = Some i" "vs \<noteq> []"
  shows "getValue ic (int (length vs) - 1) i = Some (concat vs)"
proof -
  have "getChain ic (0 + length vs) i = Some ([] @ concat vs)"
    by (rule getChain_snoc [OF assms(1)]) (use assms(2) in simp_all)
  moreover have "nat (int (length vs) - 1) + 1 = length vs" "\<not> int (length vs) - 1 < 0"
    using assms(3) by (cases vs; simp)+
  ultimately show ?thesis by (simp add: getValue_def)
qed

lemma valueChunks_nonempty [simp]: "valueChunks v \<noteq> []"
  using length_valueChunks [of v] by auto

text \<open>Values that can be stored and read back: no trailing NUL, a length that fits an \<open>int\<close>.\<close>

definition storable :: "string \<Rightarrow> bool" where
  "storable v \<longleftrightarrow> nul_free_end v \<and> length v < 2 ^ 62"

lemma asBlob_decode:
  "trie_wf ic \<Longrightarrow> asBlob ic v = Some raw \<Longrightarrow>
     \<exists>p. blobPolicy ic = Some p \<and> Decode p raw = v \<and> length raw = 32"
  using trie_wfD(6) [of ic]
  by (fastforce simp: asBlob_def policy_ok_def split: option.splits if_splits)

theorem lookupEntry_value:
  assumes "trie_wf ic" "storable v" "lookupEntry ic v = Some (i, l)"
  shows "getValueString ic l i = v"
proof (cases "asBlob ic v")
  case None
  with assms(3) have "pathId ic 0 0 (valueChunks v) = Some i" "l = int (length (valueChunks v)) - 1"
    by (auto simp: lookupEntry_def)
  then have "getValue ic l i = Some (concat (valueChunks v))" "l \<noteq> HASH_LEVEL"
    using pathId_value [OF assms(1), of "valueChunks v" i] length_valueChunks [of v]
    by (auto simp: HASH_LEVEL_def)
  with assms(2) show ?thesis by (simp add: getValueString_def storable_def trim_valueChunks)
next
  case (Some raw)
  with assms(3) have "hashId ic raw = Some i" "l = HASH_LEVEL" by (auto simp: lookupEntry_def)
  moreover from this have "hashEntry ic i = Some raw" using trie_wfD(4) [OF assms(1)] by blast
  ultimately show ?thesis
    using asBlob_decode [OF assms(1) Some] by (auto simp: getValueString_def)
qed

text \<open>The level an id found by a lookup lives at.\<close>

definition idAt :: "collection \<Rightarrow> int \<Rightarrow> u64 \<Rightarrow> bool" where
  "idAt ic l i \<longleftrightarrow> (if l = HASH_LEVEL then hashEntry ic i \<noteq> None else getUniqueValue ic l i \<noteq> None)"

lemma idAt_unique:
  assumes "trie_wf ic" "idAt ic l i" "idAt ic l' i"
  shows "l = l'"
proof -
  have "hash_ok ic i raw" if "hashEntry ic i = Some raw" for raw
    using trie_wfD(5) [OF assms(1) that] .
  with assms(2,3) trie_wfD(3) [OF assms(1), of l i l'] show ?thesis
    by (auto simp: idAt_def hash_ok_def split: if_splits)
qed

lemma pathId_last:
  assumes "pathId ic l p vs = Some i" "vs \<noteq> []" "trie_wf ic"
  shows "getUniqueValue ic (l + int (length vs) - 1) i \<noteq> None"
  using assms(1,2)
proof (induction vs arbitrary: l p)
  case Nil
  then show ?case by simp
next
  case (Cons v vs)
  then obtain j where j: "uniqueValueId ic l \<lparr>ParentId = p, Value = v\<rparr> = Some j"
    "pathId ic (l + 1) j vs = Some i" by (auto split: option.splits)
  show ?case
  proof (cases "vs = []")
    case True
    with j show ?thesis using trie_wfD(1) [OF assms(3)] by auto
  next
    case False
    with Cons.IH [OF j(2)] show ?thesis by (simp add: add_ac)
  qed
qed

lemma lookupEntry_idAt:
  assumes "trie_wf ic" "lookupEntry ic v = Some (i, l)"
  shows "idAt ic l i"
proof (cases "asBlob ic v")
  case None
  with assms(2) have "pathId ic 0 0 (valueChunks v) = Some i" "l = int (length (valueChunks v)) - 1"
    by (auto simp: lookupEntry_def)
  with pathId_last [OF this(1) _ assms(1)] length_valueChunks [of v] show ?thesis
    by (auto simp: idAt_def HASH_LEVEL_def)
next
  case (Some raw)
  with assms show ?thesis using trie_wfD(4) [OF assms(1)] by (auto simp: lookupEntry_def idAt_def)
qed

lemma idAt_level_ok: "trie_wf ic \<Longrightarrow> idAt ic l i \<Longrightarrow> level_ok l"
  using trie_wfD(2) [of ic l i]
  by (auto simp: idAt_def level_ok_def HASH_LEVEL_def entry_ok_def split: if_splits)

text \<open>Different storable values have different ids: the index can compare ids for strings.\<close>

theorem lookupEntry_inject:
  assumes "trie_wf ic" "storable v" "storable w"
    and "lookupEntry ic v = Some (i, l)" "lookupEntry ic w = Some (i, l')"
  shows "v = w" and "l = l'"
proof -
  show "l = l'" using assms by (blast intro: idAt_unique lookupEntry_idAt)
  with assms show "v = w" by (metis lookupEntry_value)
qed

end
