(* ===== verification/Intern_Insert.thy ===== *)
theory Intern_Insert
  imports Intern_Correct
begin

text \<open>
  What inserting a value does: the trie stays well formed, every id handed out before keeps its
  value, the storage invariant holds, the record of every new entry is queued, and the value is
  found afterwards.
\<close>

section \<open>Records of every type in the file\<close>

definition decodeRecord :: "byte list \<Rightarrow> FileRecord option" where
  "decodeRecord buf =
     (if recordType buf = TYPE_ENTRY
      then (let (l, i, uv) = bufToEntry buf in Some (EntryRecord l i uv))
      else if recordType buf = TYPE_HASH
      then (let (i, raw) = bufToHash buf in Some (HashRecord i raw))
      else map_option AssociationRecord (bufToAssociation buf))"

fun record_ok :: "FileRecord \<Rightarrow> bool" where
  "record_ok (AssociationRecord t) \<longleftrightarrow> triple_ok t"
| "record_ok (EntryRecord l i uv) \<longleftrightarrow> level_ok l \<and> length (Value uv) = SIZE_VALUE"
| "record_ok (HashRecord i raw) \<longleftrightarrow> length raw = 32"

lemma decodeRecord_recordBytes [simp]: "record_ok r \<Longrightarrow> decodeRecord (recordBytes r) = Some r"
  by (cases r) (simp_all add: decodeRecord_def recordBytes_def)

lemma decodeRecord_tombstone [simp]: "decodeRecord tombstone = None"
  by (simp add: decodeRecord_def)

lemma decodeRecord_dead: "dead bs p \<Longrightarrow> Option.bind (frame p bs) decodeRecord = None"
  by (auto simp: dead_def decodeRecord_def bufToAssociation_def)

lemma length_recordBytes: "record_ok r \<Longrightarrow> length (recordBytes r) = ENTRY_SIZE"
  by (cases r) (simp_all add: recordBytes_def)

lemma decodeRecord_zero [simp]: "decodeRecord zeroFrame = None"
proof -
  have "recordType zeroFrame = 0"
    by (simp add: recordType_def zeroFrame_def slice_def format_sizes numeral_2_eq_2)
  then show ?thesis by (simp add: decodeRecord_def format_types)
qed

definition file_rec :: "collection \<Rightarrow> int \<Rightarrow> FileRecord option" where
  "file_rec ic p = Option.bind (frame p (diskBytes ic)) decodeRecord"

lemma bufToAssociation_decode:
  "bufToAssociation buf = Some t \<longleftrightarrow> decodeRecord buf = Some (AssociationRecord t)"
  by (auto simp: decodeRecord_def bufToAssociation_def split: prod.splits)

lemma disk_rec_file_rec: "disk_rec ic p = Some t \<longleftrightarrow> file_rec ic p = Some (AssociationRecord t)"
  by (auto simp: disk_rec_def file_rec_def bufToAssociation_decode bind_eq_Some_conv)

lemma file_rec_diskPut:
  assumes "disk_inv ic" "record_ok r"
  shows "file_rec (snd (diskPut r ic)) = (file_rec ic)(fst (diskPut r ic) \<mapsto> r)"
    and "file_rec ic (fst (diskPut r ic)) = None"
proof -
  note len = length_recordBytes [OF assms(2)]
  show "file_rec (snd (diskPut r ic)) = (file_rec ic)(fst (diskPut r ic) \<mapsto> r)"
    using assms(2) by (auto simp: fun_eq_iff file_rec_def diskPut_frame [OF assms(1) len])
  have "frame (db_size ic) (diskBytes ic) = None"
    using disk_inv_bytes(2) [OF assms(1)] by (auto simp: frame_def ENTRY_SIZE_50)
  moreover have "p \<in> set (freespace ic) \<Longrightarrow> file_rec ic p = None" for p
    using assms(1) unfolding file_rec_def by (intro decodeRecord_dead) (auto simp: disk_inv_def)
  ultimately show "file_rec ic (fst (diskPut r ic)) = None"
    using assms(1) by (auto simp: file_rec_def diskPut_unfold split: list.splits)
qed

lemma file_rec_diskFree:
  assumes "disk_inv ic" "disk_rec ic p \<noteq> None"
  shows "file_rec (diskFree p ic) = (file_rec ic)(p := None)"
  by (auto simp: fun_eq_iff file_rec_def diskFree_frame [OF assms])

section \<open>Fields the storage does not read\<close>

definition index_norm :: "collection \<Rightarrow> collection" where
  "index_norm ic =
     ic\<lparr>totalEntries := 0, totalAssociations := 0, levels := [], hashEntries := None,
        hashValues := None, hashAssociations := None, hashReverseAssociations := None,
        searchGen := 0\<rparr>"

lemma storage_obs_norm:
  "diskBytes (index_norm ic) = diskBytes ic" "disk_inv (index_norm ic) = disk_inv ic"
  "arena_inv (index_norm ic) = arena_inv ic" "arena_rec (index_norm ic) = arena_rec ic"
  "writeToDisk (index_norm ic) = writeToDisk ic" "readOnly (index_norm ic) = readOnly ic"
  "ioErr (index_norm ic) = ioErr ic"
  "blobPolicy (index_norm ic) = blobPolicy ic"
  "reverseRelations (index_norm ic) = reverseRelations ic"
proof -
  have bytes: "diskBytes (index_norm ic) = diskBytes ic"
    by (simp add: diskBytes_def index_norm_def split: option.splits)
  then show "diskBytes (index_norm ic) = diskBytes ic" .
  have "disk_rec (index_norm ic) = disk_rec ic" by (simp add: fun_eq_iff disk_rec_def bytes)
  then show "disk_inv (index_norm ic) = disk_inv ic"
    unfolding disk_inv_def bytes by (simp add: index_norm_def pendingDeletes_def)
qed (simp_all add: fun_eq_iff index_norm_def arena_inv_def arena_rec_def arenaLoad_def)

text \<open>\<open>index_step ic ic'\<close>: only the index changed.\<close>

definition index_step :: "collection \<Rightarrow> collection \<Rightarrow> bool" where
  "index_step ic ic' \<longleftrightarrow> index_norm ic' = index_norm ic"

lemma index_step_refl [simp]: "index_step ic ic"
  by (simp add: index_step_def)

lemma index_step_trans [trans]: "index_step a b \<Longrightarrow> index_step b c \<Longrightarrow> index_step a c"
  by (simp add: index_step_def)

lemma index_step_obs:
  assumes "index_step ic ic'"
  shows "diskBytes ic' = diskBytes ic" "store_inv ic' = store_inv ic" "record_at ic' = record_at ic"
    "file_rec ic' = file_rec ic" "writeToDisk ic' = writeToDisk ic" "readOnly ic' = readOnly ic"
    "ioErr ic' = ioErr ic" "blobPolicy ic' = blobPolicy ic"
    "reverseRelations ic' = reverseRelations ic" "disk_inv ic' = disk_inv ic"
proof -
  note n = assms [unfolded index_step_def]
  show b: "diskBytes ic' = diskBytes ic" and w: "writeToDisk ic' = writeToDisk ic"
    and "readOnly ic' = readOnly ic" "ioErr ic' = ioErr ic" "blobPolicy ic' = blobPolicy ic"
    "reverseRelations ic' = reverseRelations ic" and d: "disk_inv ic' = disk_inv ic"
    by (metis n storage_obs_norm)+
  have a: "arena_inv ic' = arena_inv ic" "arena_rec ic' = arena_rec ic"
    by (metis n storage_obs_norm)+
  show "file_rec ic' = file_rec ic" by (simp add: fun_eq_iff file_rec_def b)
  show "store_inv ic' = store_inv ic" by (simp add: store_inv_def w d a)
  show "record_at ic' = record_at ic" by (simp add: record_at_def w a disk_rec_def fun_eq_iff b)
qed

lemma index_step_upd [simp]:
  "index_step ic (ic\<lparr>totalEntries := x1\<rparr>)" "index_step ic (ic\<lparr>totalAssociations := x2\<rparr>)"
  "index_step ic (ic\<lparr>searchGen := x3\<rparr>)" "index_step ic (ic\<lparr>hashAssociations := x4\<rparr>)"
  "index_step ic (ic\<lparr>hashReverseAssociations := x5\<rparr>)"
  "index_step ic (secureLevelInIndex l ic)" "index_step ic (updLevel l f ic)"
  "index_step ic (updAssociationsTree l g ic)" "index_step ic (updReverseAssociationsTree l g ic)"
  "index_step ic (putHash i raw ic)"
  by (auto simp: index_step_def index_norm_def secureLevelInIndex_def updLevel_def putHash_def
      updAssociationsTree_def updReverseAssociationsTree_def split: option.splits)

lemma index_step_insertEntry [simp]: "index_step ic (insertEntry l i uv ic)"
  unfolding insertEntry_def
  by (rule index_step_trans [OF index_step_upd(6) index_step_upd(7)])

section \<open>Growing the trie\<close>

text \<open>Association trees as before, but for empty ones of new levels.\<close>

definition trees_ext :: "collection \<Rightarrow> collection \<Rightarrow> bool" where
  "trees_ext ic ic' \<longleftrightarrow>
     (\<forall>l. (associationsTree ic' l = associationsTree ic l \<or>
            associationsTree ic l = None \<and> associationsTree ic' l = Some (newLockedTree uint64Hash)) \<and>
          (reverseAssociationsTree ic' l = reverseAssociationsTree ic l \<or>
            reverseAssociationsTree ic l = None \<and>
              reverseAssociationsTree ic' l = Some (newLockedTree uint64Hash)))"

lemma trees_ext_refl [simp]: "trees_ext ic ic"
  by (simp add: trees_ext_def)

lemma trees_ext_trans [trans]:
  assumes "trees_ext a b" "trees_ext b c"
  shows "trees_ext a c"
  unfolding trees_ext_def
proof
  fix l
  from assms [unfolded trees_ext_def, rule_format, of l]
  show "(associationsTree c l = associationsTree a l \<or>
          associationsTree a l = None \<and> associationsTree c l = Some (newLockedTree uint64Hash)) \<and>
        (reverseAssociationsTree c l = reverseAssociationsTree a l \<or>
          reverseAssociationsTree a l = None \<and>
            reverseAssociationsTree c l = Some (newLockedTree uint64Hash))"
    by auto
qed

lemma trees_ext_eq:
  "associationsTree ic' = associationsTree ic \<Longrightarrow>
   reverseAssociationsTree ic' = reverseAssociationsTree ic \<Longrightarrow> trees_ext ic ic'"
  by (simp add: trees_ext_def)

lemma trees_ext_core: "core ic' = core ic \<Longrightarrow> trees_ext ic ic'"
  by (rule trees_ext_eq) (erule core_cong)+

lemma trees_ext_secureLevel [simp]: "trees_ext ic (secureLevelInIndex n ic)"
  by (auto simp: trees_ext_def associationsTree_def reverseAssociationsTree_def
      levelAt_secureLevel newEntryLevel_def split: option.splits)
    (simp_all add: secureLevelInIndex_def)

lemma trees_ext_updEntries [simp]:
  "trees_ext ic (updLevel n (\<lambda>lvl. lvl\<lparr>entries := f lvl, uniqueValues := g lvl\<rparr>) ic)"
proof (rule trees_ext_eq)
  have h: "hashAssociations (updLevel n f ic) = hashAssociations ic"
    "hashReverseAssociations (updLevel n f ic) = hashReverseAssociations ic" for f
    by (simp_all add: updLevel_def split: option.splits)
  show "associationsTree (updLevel n (\<lambda>lvl. lvl\<lparr>entries := f lvl, uniqueValues := g lvl\<rparr>) ic) =
      associationsTree ic"
    "reverseAssociationsTree (updLevel n (\<lambda>lvl. lvl\<lparr>entries := f lvl, uniqueValues := g lvl\<rparr>) ic) =
      reverseAssociationsTree ic"
    by (simp_all add: fun_eq_iff associationsTree_def reverseAssociationsTree_def h
        option.map_comp comp_def)
qed

lemma trees_ext_putHash [simp]: "trees_ext ic (putHash i raw ic)"
  by (rule trees_ext_eq) (simp_all add: putHash_def)

lemma getAssociations_trees_ext:
  assumes "trees_ext ic ic'"
  shows "getAssociations ic' = getAssociations ic"
    and "getReverseAssociations ic' = getReverseAssociations ic"
proof -
  have "getAssociations ic' l i = getAssociations ic l i \<and>
      getReverseAssociations ic' l i = getReverseAssociations ic l i" for l i
    using assms [unfolded trees_ext_def, rule_format, of l]
    by (auto simp: getAssociations_def getReverseAssociations_def)
  then show "getAssociations ic' = getAssociations ic"
    and "getReverseAssociations ic' = getReverseAssociations ic" by blast+
qed

text \<open>Every entry that was there is there, and everything but the trie is as before.\<close>

definition intern_ext :: "collection \<Rightarrow> collection \<Rightarrow> bool" where
  "intern_ext ic ic' \<longleftrightarrow>
     (\<forall>l i uv. getUniqueValue ic l i = Some uv \<longrightarrow> getUniqueValue ic' l i = Some uv) \<and>
     (\<forall>i raw. hashEntry ic i = Some raw \<longrightarrow> hashEntry ic' i = Some raw) \<and>
     trees_ext ic ic' \<and> record_at ic' = record_at ic \<and>
     blobPolicy ic' = blobPolicy ic \<and> reverseRelations ic' = reverseRelations ic \<and>
     readOnly ic' = readOnly ic \<and> writeToDisk ic' = writeToDisk ic \<and> ioErr ic' = ioErr ic \<and>
     searchGen ic' = searchGen ic \<and> totalAssociations ic' = totalAssociations ic"

lemma intern_extD:
  assumes "intern_ext ic ic'"
  shows "getUniqueValue ic l i = Some uv \<Longrightarrow> getUniqueValue ic' l i = Some uv"
    "hashEntry ic i = Some raw \<Longrightarrow> hashEntry ic' i = Some raw"
    "trees_ext ic ic'" "record_at ic' = record_at ic"
    "blobPolicy ic' = blobPolicy ic" "reverseRelations ic' = reverseRelations ic"
    "readOnly ic' = readOnly ic" "writeToDisk ic' = writeToDisk ic" "ioErr ic' = ioErr ic"
    "searchGen ic' = searchGen ic" "totalAssociations ic' = totalAssociations ic"
    "getAssociations ic' = getAssociations ic"
    "getReverseAssociations ic' = getReverseAssociations ic"
  using assms getAssociations_trees_ext [of ic ic'] unfolding intern_ext_def by auto

lemma intern_ext_refl [simp]: "intern_ext ic ic"
  by (simp add: intern_ext_def)

lemma intern_ext_trans [trans]: "intern_ext a b \<Longrightarrow> intern_ext b c \<Longrightarrow> intern_ext a c"
  unfolding intern_ext_def by (auto intro: trees_ext_trans)

text \<open>Every entry and hash has its record in the file, and the file has no other.\<close>

definition persisted :: "collection \<Rightarrow> bool" where
  "persisted ic \<longleftrightarrow>
     (writeToDisk ic \<longrightarrow>
       (\<forall>l i uv. (\<exists>p. file_rec ic p = Some (EntryRecord l i uv)) \<longleftrightarrow> getUniqueValue ic l i = Some uv) \<and>
       (\<forall>i raw. (\<exists>p. file_rec ic p = Some (HashRecord i raw)) \<longleftrightarrow> hashEntry ic i = Some raw))"

definition grows :: "collection \<Rightarrow> collection \<Rightarrow> bool" where
  "grows ic ic' \<longleftrightarrow>
     trie_wf ic' \<and> store_inv ic' \<and> intern_ext ic ic' \<and> (persisted ic \<longrightarrow> persisted ic')"

lemma grows_refl [simp]: "trie_wf ic \<Longrightarrow> store_inv ic \<Longrightarrow> grows ic ic"
  by (simp add: grows_def)

lemma grows_trans [trans]: "grows a b \<Longrightarrow> grows b c \<Longrightarrow> grows a c"
  unfolding grows_def by (auto intro: intern_ext_trans)

lemma grows_secureLevel: "trie_wf ic \<Longrightarrow> store_inv ic \<Longrightarrow> grows ic (secureLevelInIndex n ic)"
proof -
  assume "trie_wf ic" "store_inv ic"
  moreover have "searchGen (secureLevelInIndex n ic) = searchGen ic"
    "totalAssociations (secureLevelInIndex n ic) = totalAssociations ic"
    by (simp_all add: secureLevelInIndex_def)
  ultimately show ?thesis
    by (simp add: grows_def intern_ext_def persisted_def index_step_obs [OF index_step_upd(6)])
qed

lemma pathId_grows:
  assumes "trie_wf ic" "grows ic ic'" "pathId ic l p vs = Some i"
  shows "pathId ic' l p vs = Some i"
  using assms(3)
proof (induction vs arbitrary: l p)
  case (Cons v vs)
  then obtain j where j: "uniqueValueId ic l \<lparr>ParentId = p, Value = v\<rparr> = Some j"
    "pathId ic (l + 1) j vs = Some i" by (auto split: option.splits)
  have "uniqueValueId ic' l \<lparr>ParentId = p, Value = v\<rparr> = Some j"
    using j(1) assms(1,2) trie_wfD(1) intern_extD(1) unfolding grows_def by metis
  with j(2) Cons.IH show ?case by simp
qed simp

lemma asBlob_cong: "blobPolicy ic' = blobPolicy ic \<Longrightarrow> asBlob ic' v = asBlob ic v"
  by (simp add: asBlob_def)

text \<open>An id handed out once is the id of that value for good.\<close>

lemma lookupEntry_grows:
  assumes "trie_wf ic" "grows ic ic'" "lookupEntry ic v = Some r"
  shows "lookupEntry ic' v = Some r"
proof -
  have ic': "trie_wf ic'" "intern_ext ic ic'" using assms(2) by (simp_all add: grows_def)
  note blob = asBlob_cong [OF intern_extD(5) [OF ic'(2)], of v]
  show ?thesis
  proof (cases "asBlob ic v")
    case None
    with assms(3) blob show ?thesis
      by (auto simp: lookupEntry_def dest: pathId_grows [OF assms(1,2)])
  next
    case (Some raw)
    with assms(3) obtain i where "hashId ic raw = Some i" "r = (i, HASH_LEVEL)"
      by (auto simp: lookupEntry_def)
    with Some blob show ?thesis
      using trie_wfD(4) [OF assms(1)] trie_wfD(4) [OF ic'(1)] intern_extD(2) [OF ic'(2)]
      by (simp add: lookupEntry_def)
  qed
qed

section \<open>A new entry\<close>

definition room :: "nat \<Rightarrow> collection \<Rightarrow> bool" where
  "room n ic \<longleftrightarrow> unat (totalEntries ic) + n < 2 ^ 64"

definition parent_ok :: "collection \<Rightarrow> int \<Rightarrow> u64 \<Rightarrow> bool" where
  "parent_ok ic l p \<longleftrightarrow> (if l = 0 then p = 0 else getUniqueValue ic (l - 1) p \<noteq> None)"

lemma room_next:
  assumes "room 1 ic"
  shows "unat (totalEntries ic + 1) = unat (totalEntries ic) + 1" and "totalEntries ic + 1 \<noteq> 0"
    and "totalEntries ic < totalEntries ic + 1"
proof -
  show *: "unat (totalEntries ic + 1) = unat (totalEntries ic) + 1"
    using assms by (simp add: room_def unat_word_ariths(1))
  then show "totalEntries ic + 1 \<noteq> 0" by (metis Suc_eq_plus1 nat.simps(3) unat_0)
  from * show "totalEntries ic < totalEntries ic + 1" by (simp add: word_less_nat_alt)
qed

lemma fresh_id:
  assumes "trie_wf ic" "room 1 ic"
  shows "getUniqueValue ic l (totalEntries ic + 1) = None" "hashEntry ic (totalEntries ic + 1) = None"
proof -
  have "\<not> totalEntries ic + 1 \<le> totalEntries ic" using room_next(3) [OF assms(2)] by simp
  then show "getUniqueValue ic l (totalEntries ic + 1) = None"
    "hashEntry ic (totalEntries ic + 1) = None"
    using trie_wfD(2) [OF assms(1), of l "totalEntries ic + 1"]
      trie_wfD(5) [OF assms(1), of "totalEntries ic + 1"]
    by (cases "getUniqueValue ic l (totalEntries ic + 1)"; cases "hashEntry ic (totalEntries ic + 1)";
        auto simp: entry_ok_def hash_ok_def)+
qed

lemma insertEntry_obs:
  assumes "0 \<le> l"
  shows "getUniqueValue (insertEntry l i uv ic) l' i' =
      (if l' = l \<and> i' = i then Some uv else getUniqueValue ic l' i')"
    and "uniqueValueId (insertEntry l i uv ic) l' uv' =
      (if l' = l \<and> uv' = uv then Some i else uniqueValueId ic l' uv')"
    and "hashEntry (insertEntry l i uv ic) = hashEntry ic"
    and "hashId (insertEntry l i uv ic) = hashId ic"
    and "trees_ext ic (insertEntry l i uv ic)"
proof -
  show "getUniqueValue (insertEntry l i uv ic) l' i' =
      (if l' = l \<and> i' = i then Some uv else getUniqueValue ic l' i')"
    and "uniqueValueId (insertEntry l i uv ic) l' uv' =
      (if l' = l \<and> uv' = uv then Some i else uniqueValueId ic l' uv')"
    using assms by (auto simp: insertEntry_def getUniqueValue_def uniqueValueId_def
        levelAt_secureLevel newEntryLevel_def split: option.splits)
  show "trees_ext ic (insertEntry l i uv ic)"
    unfolding insertEntry_def
    by (rule trees_ext_trans [OF trees_ext_secureLevel trees_ext_updEntries])
qed (simp_all add: insertEntry_def)

lemma insertEntry_same [simp]:
  "totalEntries (insertEntry l i uv ic) = totalEntries ic"
  "totalAssociations (insertEntry l i uv ic) = totalAssociations ic"
  "searchGen (insertEntry l i uv ic) = searchGen ic"
  "hashEntries (insertEntry l i uv ic) = hashEntries ic"
  "hashValues (insertEntry l i uv ic) = hashValues ic"
  by (simp_all add: insertEntry_def secureLevelInIndex_def updLevel_def split: option.splits)

text \<open>Adding a chunk under a fresh id to a well-formed trie.\<close>

lemma trie_wf_new_entry:
  assumes wf: "trie_wf ic" and l: "0 \<le> l" "l < 2 ^ 62" and par: "parent_ok ic l p"
    and len: "length v = SIZE_VALUE" and room: "room 1 ic"
    and new: "uniqueValueId ic l \<lparr>ParentId = p, Value = v\<rparr> = None"
    and obs: "\<And>l' i'. getUniqueValue ic' l' i' =
        (if l' = l \<and> i' = totalEntries ic + 1 then Some \<lparr>ParentId = p, Value = v\<rparr>
         else getUniqueValue ic l' i')"
      "\<And>l' uv'. uniqueValueId ic' l' uv' =
        (if l' = l \<and> uv' = \<lparr>ParentId = p, Value = v\<rparr> then Some (totalEntries ic + 1)
         else uniqueValueId ic l' uv')"
      "hashEntry ic' = hashEntry ic" "hashId ic' = hashId ic"
      "totalEntries ic' = totalEntries ic + 1"
      "blobPolicy ic' = blobPolicy ic" "hashEntries ic' = hashEntries ic"
      "hashValues ic' = hashValues ic"
  shows "trie_wf ic'"
proof -
  let ?i = "totalEntries ic + 1"
  note fresh = fresh_id [OF wf room]
  note less = room_next(3) [OF room] room_next(2) [OF room]
  have le: "i \<le> totalEntries ic \<Longrightarrow> i \<le> ?i" for i using less(1) by simp
  have keep: "getUniqueValue ic' l' i' \<noteq> None" if "getUniqueValue ic l' i' \<noteq> None" for l' i'
    using that obs(1) by auto
  have entry: "entry_ok ic' l' i' uv'" if "getUniqueValue ic' l' i' = Some uv'" for l' i' uv'
  proof (cases "l' = l \<and> i' = ?i")
    case True
    with that obs(1) have "uv' = \<lparr>ParentId = p, Value = v\<rparr>" by simp
    with True l par len keep [of "l - 1" p] less show ?thesis
      by (auto simp: entry_ok_def parent_ok_def obs(5))
  next
    case False
    with that obs(1) have "getUniqueValue ic l' i' = Some uv'" by simp
    from trie_wfD(2) [OF wf this] keep [of "l' - 1" "ParentId uv'"] show ?thesis
      by (auto simp: entry_ok_def obs(5) le)
  qed
  have hash: "hash_ok ic' i' raw" if "hashEntry ic' i' = Some raw" for i' raw
  proof -
    from that have h: "hashEntry ic i' = Some raw" by (simp add: obs(3))
    with fresh(2) have "i' \<noteq> ?i" by auto
    with trie_wfD(5) [OF wf h] show ?thesis by (auto simp: hash_ok_def obs(1,5) le)
  qed
  have inverse: "uniqueValueId ic' l' uv' = Some i' \<longleftrightarrow> getUniqueValue ic' l' i' = Some uv'"
    for l' uv' i'
    using new fresh(1) [of l] trie_wfD(1) [OF wf] unfolding obs(1,2) by force
  have unique: "l' = l''" if "getUniqueValue ic' l' i' \<noteq> None" "getUniqueValue ic' l'' i' \<noteq> None"
    for l' l'' i'
    using that fresh(1) trie_wfD(3) [OF wf, of l' i' l'']
    by (cases "i' = ?i") (auto simp: obs(1) split: if_splits)
  show ?thesis
    unfolding trie_wf_def
    using entry hash inverse unique trie_wfD(4,6,7) [OF wf] unfolding obs(3,4,6,7,8) by blast
qed

text \<open>Queueing the record of an entry or a hash touches no triple.\<close>

lemma diskPut_value_record:
  assumes "store_inv ic" "writeToDisk ic" "record_ok r" "\<And>t. r \<noteq> AssociationRecord t"
  shows "store_inv (snd (diskPut r ic))" and "record_at (snd (diskPut r ic)) = record_at ic"
    and "ioErr (snd (diskPut r ic)) = ioErr ic"
    and "file_rec (snd (diskPut r ic)) = (file_rec ic)(fst (diskPut r ic) \<mapsto> r)"
    and "file_rec ic (fst (diskPut r ic)) = None"
proof -
  have inv: "disk_inv ic" using assms(1,2) by (simp add: store_inv_def)
  note len = length_recordBytes [OF assms(3)]
  have w: "writeToDisk (snd (diskPut r ic)) = writeToDisk ic"
    by (rule core_cong(17)) simp
  show fr: "file_rec (snd (diskPut r ic)) = (file_rec ic)(fst (diskPut r ic) \<mapsto> r)"
    and none: "file_rec ic (fst (diskPut r ic)) = None"
    by (rule file_rec_diskPut [OF inv assms(3)])+
  show "store_inv (snd (diskPut r ic))"
    using assms(2) diskPut_inv [OF inv len] by (simp add: store_inv_def w)
  have "disk_rec (snd (diskPut r ic)) p = disk_rec ic p" for p
    by (rule option_eqI) (use assms(4) none in \<open>auto simp: disk_rec_file_rec fr\<close>)
  then show "record_at (snd (diskPut r ic)) = record_at ic"
    using assms(2) by (simp add: record_at_def w fun_eq_iff)
  show "ioErr (snd (diskPut r ic)) = ioErr ic"
    by (simp add: diskPut_unfold [OF inv] split: list.splits)
qed

text \<open>The storage half of an insertion: the record is queued in disk mode, nothing happens otherwise.\<close>

definition queueRecord :: "FileRecord \<Rightarrow> collection \<Rightarrow> collection" where
  "queueRecord r ic = (if writeToDisk ic then snd (diskPut r ic) else ic)"

lemma core_queueRecord [simp]: "core (queueRecord r ic) = core ic"
  by (simp add: queueRecord_def)

lemma queueRecord_obs:
  assumes "store_inv ic" "record_ok r" "\<And>t. r \<noteq> AssociationRecord t"
  shows "store_inv (queueRecord r ic)" and "record_at (queueRecord r ic) = record_at ic"
    and "ioErr (queueRecord r ic) = ioErr ic"
    and "writeToDisk ic \<Longrightarrow>
      \<exists>p. file_rec ic p = None \<and> file_rec (queueRecord r ic) = (file_rec ic)(p \<mapsto> r)"
  using assms diskPut_value_record [OF assms(1) _ assms(2,3)] by (auto simp: queueRecord_def)

lemma exists_upd:
  "m p = None \<Longrightarrow> (\<exists>q. (m(p \<mapsto> r)) q = Some r') \<longleftrightarrow> r' = r \<or> (\<exists>q. m q = Some r')"
  by (metis fun_upd_apply option.distinct(1) option.sel)

lemma persisted_add:
  assumes "persisted ic" "writeToDisk ic" "file_rec ic q = None"
    and "file_rec ic' = (file_rec ic)(q \<mapsto> r)"
    and "\<And>l i uv. getUniqueValue ic' l i = Some uv \<longleftrightarrow>
      r = EntryRecord l i uv \<or> getUniqueValue ic l i = Some uv"
    and "\<And>i raw. hashEntry ic' i = Some raw \<longleftrightarrow> r = HashRecord i raw \<or> hashEntry ic i = Some raw"
  shows "persisted ic'"
  using assms(1,2) unfolding persisted_def assms(4,5,6) exists_upd [where m = "file_rec ic", OF assms(3)] by auto

lemma insertValue_spec:
  assumes wf: "trie_wf ic" "store_inv ic" and l: "0 \<le> l" "l < 2 ^ 62" and par: "parent_ok ic l p"
    and len: "length v = SIZE_VALUE" and room: "room 1 ic"
    and new: "uniqueValueId ic l \<lparr>ParentId = p, Value = v\<rparr> = None"
    and ins: "insertValue l p v ic = (i, ic')"
  shows "grows ic ic'" and "uniqueValueId ic' l \<lparr>ParentId = p, Value = v\<rparr> = Some i"
    and "unat (totalEntries ic') = unat (totalEntries ic) + 1"
    and "\<forall>w. uniqueValueId ic' (l + 1) \<lparr>ParentId = i, Value = w\<rparr> = None"
proof -
  let ?uv = "\<lparr>ParentId = p, Value = v\<rparr>" and ?r = "EntryRecord l (totalEntries ic + 1) \<lparr>ParentId = p, Value = v\<rparr>"
  define ic1 where "ic1 = ic\<lparr>totalEntries := totalEntries ic + 1\<rparr>"
  define ic2 where "ic2 = queueRecord ?r ic1"
  have i: "i = totalEntries ic + 1" and ic': "ic' = insertEntry l i ?uv ic2"
    using ins by (auto simp: insertValue_def nextID_def ic2_def ic1_def queueRecord_def Let_def)
  note step1 = index_step_obs [OF index_step_upd(1) [of ic "totalEntries ic + 1"], folded ic1_def]
  have ok: "record_ok ?r" "\<And>t. ?r \<noteq> AssociationRecord t"
    using l len by (auto simp: level_ok_def)
  have inv1: "store_inv ic1" using wf(2) step1 by simp
  note step2 = queueRecord_obs [OF inv1 ok, folded ic2_def]
  have c2: "core ic2 = core ic1" by (simp add: ic2_def)
  note step3 = index_step_obs [OF index_step_insertEntry, of l i ?uv ic2, folded ic']
  have obs2: "getUniqueValue ic2 = getUniqueValue ic" "uniqueValueId ic2 = uniqueValueId ic"
    "hashEntry ic2 = hashEntry ic" "hashId ic2 = hashId ic" "totalEntries ic2 = totalEntries ic + 1"
    "hashEntries ic2 = hashEntries ic" "hashValues ic2 = hashValues ic"
    "blobPolicy ic2 = blobPolicy ic" "reverseRelations ic2 = reverseRelations ic"
    "readOnly ic2 = readOnly ic" "writeToDisk ic2 = writeToDisk ic" "searchGen ic2 = searchGen ic"
    "totalAssociations ic2 = totalAssociations ic"
    unfolding core_cong [OF c2] by (simp_all add: ic1_def)
  have trees: "trees_ext ic ic2"
    by (rule trees_ext_eq; unfold core_cong [OF c2]) (simp_all add: ic1_def)
  note obs = insertEntry_obs(1-4) [OF l(1), of i ?uv ic2, folded ic', unfolded obs2]
  have trees': "trees_ext ic ic'"
    using insertEntry_obs(5) [OF l(1), of ic2 i ?uv, folded ic'] by (rule trees_ext_trans [OF trees])
  have wf': "trie_wf ic'"
    by (rule trie_wf_new_entry [OF wf(1) l par len room new])
      (simp_all add: obs i [symmetric] step3 obs2, simp_all add: ic' obs2 i)
  have "intern_ext ic ic'"
    unfolding intern_ext_def step3 obs2 step1 step2 obs(3)
    using trees' fresh_id(1) [OF wf(1) room]
    by (auto simp: obs(1) i) (simp_all add: ic' obs2 step2 step1)
  moreover have "persisted ic'" if "persisted ic"
  proof (cases "writeToDisk ic")
    case True
    with step2(4) obtain q where q: "file_rec ic q = None" "file_rec ic' = (file_rec ic)(q \<mapsto> ?r)"
      unfolding step3 step1 by blast
    show ?thesis
      by (rule persisted_add [OF that True q])
        (use fresh_id(1) [OF wf(1) room, of l] in \<open>auto simp: obs i\<close>)
  qed (simp add: persisted_def step3 obs2)
  ultimately show "grows ic ic'" using wf' wf(2) step1 step2 step3 by (simp add: grows_def)
  show "uniqueValueId ic' l ?uv = Some i" by (simp add: obs)
  show "unat (totalEntries ic') = unat (totalEntries ic) + 1"
    using room_next(1) [OF room] by (simp add: ic' obs2)
  show "\<forall>w. uniqueValueId ic' (l + 1) \<lparr>ParentId = i, Value = w\<rparr> = None"
  proof
    fix w
    have "uniqueValueId ic (l + 1) \<lparr>ParentId = i, Value = w\<rparr> \<noteq> Some j" for j
      using trie_wfD(1) [OF wf(1)] trie_wfD(2) [OF wf(1), of "l + 1" j "\<lparr>ParentId = i, Value = w\<rparr>"]
        fresh_id(1) [OF wf(1) room, of l] l(1)
      by (auto simp: entry_ok_def i)
    then have "uniqueValueId ic (l + 1) \<lparr>ParentId = i, Value = w\<rparr> = None" by blast
    then show "uniqueValueId ic' (l + 1) \<lparr>ParentId = i, Value = w\<rparr> = None" by (simp add: obs)
  qed
qed

section \<open>A new hash\<close>

lemma putHash_obs:
  assumes "hashEntries ic \<noteq> None" "hashValues ic \<noteq> None"
  shows "hashEntry (putHash i raw ic) = (hashEntry ic)(i \<mapsto> raw)"
    and "hashId (putHash i raw ic) = (hashId ic)(raw \<mapsto> i)"
    and "getUniqueValue (putHash i raw ic) = getUniqueValue ic"
    and "uniqueValueId (putHash i raw ic) = uniqueValueId ic"
  using assms by (auto simp: fun_eq_iff putHash_def hashEntry_def hashId_def)

lemma trie_wf_new_hash:
  assumes wf: "trie_wf ic" and room: "room 1 ic" and len: "length raw = 32"
    and new: "hashId ic raw = None"
    and obs: "getUniqueValue ic' = getUniqueValue ic" "uniqueValueId ic' = uniqueValueId ic"
      "hashEntry ic' = (hashEntry ic)(totalEntries ic + 1 \<mapsto> raw)"
      "hashId ic' = (hashId ic)(raw \<mapsto> totalEntries ic + 1)"
      "totalEntries ic' = totalEntries ic + 1" "blobPolicy ic' = blobPolicy ic"
      "hashEntries ic' \<noteq> None" "hashValues ic' \<noteq> None" "blobPolicy ic \<noteq> None"
  shows "trie_wf ic'"
proof -
  note fresh = fresh_id [OF wf room]
  have le: "i \<le> totalEntries ic \<Longrightarrow> i \<le> totalEntries ic + 1" for i
    using room_next(3) [OF room] by simp
  have "entry_ok ic' l i uv" if "getUniqueValue ic l i = Some uv" for l i uv
    using trie_wfD(2) [OF wf that] by (auto simp: entry_ok_def obs(1,5) le)
  moreover have "hash_ok ic' i raw'" if "hashEntry ic' i = Some raw'" for i raw'
    using that trie_wfD(5) [OF wf, of i raw'] len fresh(1) room_next(2) [OF room]
    by (auto simp: hash_ok_def obs(1,3,5) le split: if_splits)
  moreover have "hashId ic' raw' = Some i \<longleftrightarrow> hashEntry ic' i = Some raw'" for i raw'
    using trie_wfD(4) [OF wf] new fresh(2) unfolding obs(3,4) by force
  ultimately show ?thesis
    unfolding trie_wf_def using trie_wfD(1,3,6) [OF wf] obs(7-9) unfolding obs(1,2,6) by blast
qed

lemma insertHash_spec:
  assumes wf: "trie_wf ic" "store_inv ic" and len: "length raw = 32" and room: "room 1 ic"
    and policy: "blobPolicy ic \<noteq> None" and ins: "insertHash raw ic = (i, ic')"
  shows "grows ic ic'" and "hashId ic' raw = Some i"
    and "unat (totalEntries ic') \<le> unat (totalEntries ic) + 1"
proof -
  have some: "hashEntries ic \<noteq> None" "hashValues ic \<noteq> None"
    using trie_wfD(6) [OF wf(1)] policy by auto
  have "grows ic ic' \<and> hashId ic' raw = Some i \<and>
    unat (totalEntries ic') \<le> unat (totalEntries ic) + 1"
  proof (cases "hashId ic raw")
    case (Some j)
    with ins wf show ?thesis by (simp add: insertHash_def)
  next
    case None
    let ?r = "HashRecord (totalEntries ic + 1) raw"
    define ic1 where "ic1 = putHash (totalEntries ic + 1) raw (ic\<lparr>totalEntries := totalEntries ic + 1\<rparr>)"
    have i: "i = totalEntries ic + 1" and ic': "ic' = queueRecord ?r ic1"
      using ins None by (auto simp: insertHash_def nextID_def ic1_def queueRecord_def Let_def)
    have "index_step ic ic1"
      unfolding ic1_def by (rule index_step_trans [OF index_step_upd(1) index_step_upd(10)])
    note step1 = index_step_obs [OF this]
    have "record_ok ?r" "\<And>t. ?r \<noteq> AssociationRecord t" using len by auto
    note step2 = queueRecord_obs [OF _ this, of ic1, folded ic', unfolded step1, OF wf(2)]
    have c: "core ic' = core ic1" by (simp add: ic')
    have obs: "hashEntry ic' = (hashEntry ic)(totalEntries ic + 1 \<mapsto> raw)"
      "hashId ic' = (hashId ic)(raw \<mapsto> totalEntries ic + 1)"
      "getUniqueValue ic' = getUniqueValue ic" "uniqueValueId ic' = uniqueValueId ic"
      "totalEntries ic' = totalEntries ic + 1" "blobPolicy ic' = blobPolicy ic"
      "reverseRelations ic' = reverseRelations ic" "readOnly ic' = readOnly ic"
      "writeToDisk ic' = writeToDisk ic" "searchGen ic' = searchGen ic"
      "totalAssociations ic' = totalAssociations ic"
      "associationsTree ic' = associationsTree ic"
      "reverseAssociationsTree ic' = reverseAssociationsTree ic"
      unfolding core_cong [OF c] ic1_def
      using putHash_obs [of "ic\<lparr>totalEntries := totalEntries ic + 1\<rparr>"] some
      by (simp_all, simp_all add: putHash_def)
    have some': "hashEntries ic' \<noteq> None" "hashValues ic' \<noteq> None"
      unfolding core_cong [OF c] ic1_def using some by (simp_all add: putHash_def)
    have wf': "trie_wf ic'"
      by (rule trie_wf_new_hash [OF wf(1) room len None obs(3,4,1,2,5,6) some' policy])
    have "intern_ext ic ic'"
      unfolding intern_ext_def obs step2 step1
      using trees_ext_eq [OF obs(12,13)] fresh_id(2) [OF wf(1) room] by auto
    moreover have "persisted ic'" if "persisted ic"
    proof (cases "writeToDisk ic")
      case True
      with step2(4) obtain q where q: "file_rec ic q = None" "file_rec ic' = (file_rec ic)(q \<mapsto> ?r)"
        by blast
      show ?thesis
        by (rule persisted_add [OF that True q])
          (use fresh_id(2) [OF wf(1) room] in \<open>auto simp: obs\<close>)
    qed (simp add: persisted_def obs)
    ultimately show ?thesis
      using wf' step2(1) room_next(1) [OF room] by (simp add: grows_def obs i)
  qed
  then show "grows ic ic'" and "hashId ic' raw = Some i"
    and "unat (totalEntries ic') \<le> unat (totalEntries ic) + 1" by blast+
qed

section \<open>Inserting a value\<close>

lemma grows_wf: "grows ic ic' \<Longrightarrow> trie_wf ic'" "grows ic ic' \<Longrightarrow> store_inv ic'"
  by (simp_all add: grows_def)

lemma uniqueValueId_parent:
  assumes "trie_wf ic" "uniqueValueId ic l \<lparr>ParentId = p, Value = v\<rparr> = Some i"
  shows "parent_ok ic (l + 1) i"
  using assms trie_wfD(1) [OF assms(1)] trie_wfD(2) [OF assms(1), of l i]
  by (fastforce simp: parent_ok_def entry_ok_def)

lemma pathId_insertLoop:
  assumes "trie_wf ic" "store_inv ic" "\<forall>v \<in> set vs. length v = SIZE_VALUE" "0 \<le> l"
    "l + int (length vs) \<le> 2 ^ 62" "parent_ok ic l p" "room (length vs) ic"
    "\<not> chk \<Longrightarrow> \<forall>v. uniqueValueId ic l \<lparr>ParentId = p, Value = v\<rparr> = None"
    and "insertLoop l p chk vs ic = ((i, l'), ic')"
  shows "grows ic ic' \<and> pathId ic' l p vs = Some i \<and> l' = l + int (length vs) - 1 \<and>
    unat (totalEntries ic') \<le> unat (totalEntries ic) + length vs"
  using assms
proof (induction vs arbitrary: l p chk ic)
  case Nil
  then show ?case by simp
next
  case (Cons v vs)
  note prems = Cons.prems
  have room1: "room 1 ic" "room (length vs) ic" using prems(7) by (auto simp: room_def)
  define ic1 where "ic1 = (if chk then secureLevelInIndex l ic else ic)"
  define tmp where "tmp = (if chk then uniqueValueId ic l \<lparr>ParentId = p, Value = v\<rparr> else None)"
  have g1: "grows ic ic1" using prems(1,2) by (simp add: ic1_def grows_secureLevel)
  have same: "getUniqueValue ic1 = getUniqueValue ic" "uniqueValueId ic1 = uniqueValueId ic"
    "totalEntries ic1 = totalEntries ic"
    by (simp_all add: ic1_def) (simp add: secureLevelInIndex_def)
  have tmp: "tmp = uniqueValueId ic l \<lparr>ParentId = p, Value = v\<rparr>"
    using prems(8) by (simp add: tmp_def)
  have step: "insertLoop l p chk (v # vs) ic =
      (case tmp of Some j \<Rightarrow> insertLoop (l + 1) j True vs ic1
       | None \<Rightarrow> (let (j, ic2) = insertValue l p v ic1 in insertLoop (l + 1) j False vs ic2))"
    unfolding tmp_def ic1_def by (simp add: valueExists_def Let_def)
  show ?case
  proof (cases tmp)
    case (Some j)
    then have j: "uniqueValueId ic1 l \<lparr>ParentId = p, Value = v\<rparr> = Some j" by (simp add: tmp same)
    have "grows ic1 ic' \<and> pathId ic' (l + 1) j vs = Some i \<and> l' = l + 1 + int (length vs) - 1 \<and>
        unat (totalEntries ic') \<le> unat (totalEntries ic1) + length vs"
    proof (rule Cons.IH [of ic1 "l + 1" j True])
      show "parent_ok ic1 (l + 1) j" by (rule uniqueValueId_parent [OF grows_wf(1) [OF g1] j])
      show "insertLoop (l + 1) j True vs ic1 = ((i, l'), ic')" using prems(9) step Some by simp
    qed (use prems room1 g1 grows_wf in \<open>auto simp: room_def same\<close>)
    then show ?thesis
      using g1 pathId_grows [OF grows_wf(1) [OF g1], of ic' l p "[v]" j] j same(3)
      by (auto intro: grows_trans split: option.splits)
  next
    case None
    obtain j ic2 where ins: "insertValue l p v ic1 = (j, ic2)" by force
    note iv = insertValue_spec [OF grows_wf [OF g1] prems(4) _ _ _ _ _ ins]
    have iv: "grows ic1 ic2" "uniqueValueId ic2 l \<lparr>ParentId = p, Value = v\<rparr> = Some j"
      "unat (totalEntries ic2) = unat (totalEntries ic) + 1"
      "\<forall>w. uniqueValueId ic2 (l + 1) \<lparr>ParentId = j, Value = w\<rparr> = None"
      using iv prems(3,5,6) room1(1) None tmp by (simp_all add: parent_ok_def room_def same)
    have "grows ic2 ic' \<and> pathId ic' (l + 1) j vs = Some i \<and> l' = l + 1 + int (length vs) - 1 \<and>
        unat (totalEntries ic') \<le> unat (totalEntries ic2) + length vs"
    proof (rule Cons.IH [of ic2 "l + 1" j False])
      show "parent_ok ic2 (l + 1) j" by (rule uniqueValueId_parent [OF grows_wf(1) [OF iv(1)] iv(2)])
      show "insertLoop (l + 1) j False vs ic2 = ((i, l'), ic')" using prems(9) step None ins by simp
    qed (use prems iv grows_wf in \<open>auto simp: room_def\<close>)
    then show ?thesis
      using g1 iv pathId_grows [OF grows_wf(1) [OF iv(1)], of ic' l p "[v]" j]
      by (auto intro: grows_trans split: option.splits)
  qed
qed

text \<open>Ids an insertion of \<open>v\<close> may need.\<close>

definition need :: "string \<Rightarrow> nat" where
  "need v = length v div 24 + 1"

lemma insertLocked_spec:
  assumes wf: "trie_wf ic" "store_inv ic" and v: "storable v" and room: "room (need v) ic"
    and ins: "insertLocked v ic = (r, ic')"
  shows "grows ic ic'" and "lookupEntry ic' v = Some r"
    and "unat (totalEntries ic') \<le> unat (totalEntries ic) + need v"
proof -
  have "grows ic ic' \<and> lookupEntry ic' v = Some r \<and>
      unat (totalEntries ic') \<le> unat (totalEntries ic) + need v"
  proof (cases "asBlob ic v")
    case None
    obtain i l where r: "r = (i, l)" by force
    have "grows ic ic' \<and> pathId ic' 0 0 (valueChunks v) = Some i \<and>
        l = 0 + int (length (valueChunks v)) - 1 \<and>
        unat (totalEntries ic') \<le> unat (totalEntries ic) + length (valueChunks v)"
    proof (rule pathId_insertLoop [OF wf])
      show "insertLoop 0 0 True (valueChunks v) ic = ((i, l), ic')"
        using ins None r by (simp add: insertLocked_def)
    qed (use room v valueChunk_length [of _ v] in
        \<open>auto simp: parent_ok_def room_def need_def length_valueChunks storable_def\<close>)
    moreover from this have "asBlob ic' v = asBlob ic v"
      by (intro asBlob_cong) (simp add: grows_def intern_extD)
    ultimately show ?thesis using None r by (simp add: lookupEntry_def need_def length_valueChunks)
  next
    case (Some raw)
    obtain i where ih: "insertHash raw ic = (i, ic')" "r = (i, HASH_LEVEL)"
      using ins Some by (auto simp: insertLocked_def split: prod.splits)
    obtain p where p: "blobPolicy ic = Some p" "length raw = 32"
      using asBlob_decode [OF wf(1) Some] by blast
    have "room 1 ic" using room by (auto simp: room_def need_def)
    note ihs = insertHash_spec [OF wf p(2) this _ ih(1)]
    have "blobPolicy ic \<noteq> None" using p(1) by simp
    note ihs = ihs [OF this]
    have "asBlob ic' v = asBlob ic v"
      using ihs(1) by (intro asBlob_cong) (simp add: grows_def intern_extD)
    with Some ihs ih(2) show ?thesis by (simp add: lookupEntry_def need_def)
  qed
  then show "grows ic ic'" and "lookupEntry ic' v = Some r"
    and "unat (totalEntries ic') \<le> unat (totalEntries ic) + need v" by blast+
qed

end
