(* ===== verification/Assoc_Index.thy ===== *)
theory Assoc_Index
  imports Intern_Insert
begin

text \<open>
  The write paths of \<^verbatim>\<open>tiedb/assoc.go\<close> that maintain the forward and the reverse association index:
  \<open>Add\<close>, \<open>Delete\<close>, \<open>Update\<close> and \<open>UpdateAdd\<close>. The theory also states what a well-formed index
  is: both indexes hold exactly the triples of the record store.
\<close>

section \<open>Messages\<close>

text \<open>
  The message half of a \<open>(string, bool)\<close> result: a text, or the text of an error followed by a
  text.
\<close>

datatype message = Text string | ErrorText tie_error string

fun appendText :: "message \<Rightarrow> string \<Rightarrow> message" where
  "appendText (Text s) t = Text (s @ t)"
| "appendText (ErrorText e s) t = ErrorText e (s @ t)"

definition quoted :: "string \<Rightarrow> string" where
  "quoted s = [CHR 0x27] @ s @ [CHR 0x27]"

section \<open>Operations\<close>

record StringTriple =
  Key :: string
  Value1 :: string
  Value2 :: string

definition makeStringTriple :: "collection \<Rightarrow> Triple \<Rightarrow> StringTriple" where
  "makeStringTriple ic t =
     \<lparr>Key = getValueString ic (t_Level t) (t_Key t),
      Value1 = getValueString ic (t_Value1Level t) (t_Value1 t),
      Value2 = getValueString ic (t_Value2Level t) (t_Value2 t)\<rparr>"

definition shouldBuildReverse :: "Triple \<Rightarrow> collection \<Rightarrow> bool" where
  "shouldBuildReverse a ic =
     (case reverseRelations ic of
        None \<Rightarrow> True
      | Some rels \<Rightarrow> getValueString ic (t_Value1Level a) (t_Value1 a) \<in> set rels)"

definition GetAssociations :: "string \<Rightarrow> collection \<Rightarrow> (AssociationSet \<times> bool) \<times> collection" where
  "GetAssociations value ic =
     (case getEntryFromString value ic of
        (None, ic) \<Rightarrow> ((newAssociationSet, False), ic)
      | (Some (entryID, level), ic) \<Rightarrow> ((getAssociations ic level entryID, True), ic))"

definition GetReverseAssociations ::
    "string \<Rightarrow> collection \<Rightarrow> (AssociationSet \<times> bool) \<times> collection" where
  "GetReverseAssociations value ic =
     (case getEntryFromString value ic of
        (None, ic) \<Rightarrow> ((newAssociationSet, False), ic)
      | (Some (entryID, level), ic) \<Rightarrow> ((getReverseAssociations ic level entryID, True), ic))"

definition uniqueAssociationExists :: "collection \<Rightarrow> int \<Rightarrow> u64 \<Rightarrow> u64 \<Rightarrow> u64 \<Rightarrow> bool" where
  "uniqueAssociationExists ic keyLevel key value1 value2 \<longleftrightarrow>
     as_Get (getAssociations ic keyLevel key) \<lparr>AssociateTo = value2, Relation = value1\<rparr> \<noteq> None"

text \<open>
  \<open>insertAssociation\<close> uses the two trees without a check; \<open>insertAssociation_panics\<close> says when the
  Go code dereferences a nil tree instead (a level below \<open>HASH_LEVEL\<close>, or \<open>HASH_LEVEL\<close> without a
  hash store), and the state is then left as it is.
\<close>

definition secureEntryLevel :: "int \<Rightarrow> collection \<Rightarrow> collection" where
  "secureEntryLevel level ic = (if level \<noteq> HASH_LEVEL then secureLevelInIndex level ic else ic)"

definition insertAssociation :: "int \<Rightarrow> Triple \<Rightarrow> int \<Rightarrow> collection \<Rightarrow> collection" where
  "insertAssociation level a pos ic =
     (let ic = secureEntryLevel level ic;
          ic = secureEntryLevel (t_Value2Level a) ic;
          ic = updAssociationsTree level
                 (putAssoc (t_Key a) \<lparr>AssociateTo = t_Value2 a, Relation = t_Value1 a\<rparr> pos) ic;
          ic = ic\<lparr>totalAssociations := totalAssociations ic + 1\<rparr>
      in if \<not> shouldBuildReverse a ic then ic
         else updReverseAssociationsTree (t_Value2Level a)
                (putAssoc (t_Value2 a) \<lparr>AssociateTo = t_Key a, Relation = t_Value1 a\<rparr> pos) ic)"

definition insertAssociation_panics :: "int \<Rightarrow> Triple \<Rightarrow> collection \<Rightarrow> bool" where
  "insertAssociation_panics level a ic =
     (let ic = secureEntryLevel (t_Value2Level a) (secureEntryLevel level ic)
      in associationsTree ic level = None \<or>
         shouldBuildReverse a ic \<and> reverseAssociationsTree ic (t_Value2Level a) = None)"

definition addLocked ::
    "string \<Rightarrow> string \<Rightarrow> string \<Rightarrow> collection \<Rightarrow> tie_error option \<times> collection" where
  "addLocked key value1 value2 ic =
     (if readOnly ic then (Some ErrReadOnly, ic)
      else case ioErr ic of
        Some err \<Rightarrow> (Some err, ic)
      | None \<Rightarrow>
        (let ((keyID, keyLevel), ic) = insertLocked key ic;
             ((value1ID, value1Level), ic) = insertLocked value1 ic;
             ((value2ID, value2Level), ic) = insertLocked value2 ic;
             ass = \<lparr>t_Level = keyLevel, t_Key = keyID, t_Value1Level = value1Level,
                    t_Value1 = value1ID, t_Value2Level = value2Level, t_Value2 = value2ID\<rparr>
         in if uniqueAssociationExists ic keyLevel keyID value1ID value2ID then (None, ic)
            else if writeToDisk ic then
              (let (pos, ic) = allocSlot ic;
                   (queued, ic) = queueWrite (FILE_ADD pos (AssociationRecord ass)) ic
               in if \<not> queued then (ioErr ic, ic)
                  else (let ic = insertAssociation keyLevel ass pos ic
                        in (None, ic\<lparr>searchGen := searchGen ic + 1\<rparr>)))
            else
              (let (pos, ic) = arenaStore ass ic;
                   ic = insertAssociation keyLevel ass pos ic
               in (None, ic\<lparr>searchGen := searchGen ic + 1\<rparr>))))"

definition Add :: "string \<Rightarrow> string \<Rightarrow> string \<Rightarrow> collection \<Rightarrow> tie_error option \<times> collection" where
  "Add key value1 value2 ic = addLocked key value1 value2 ic"

text \<open>The set is the one stored under \<open>(level, entryID)\<close>.\<close>

definition deleteAssociation ::
    "int \<Rightarrow> u64 \<Rightarrow> UniqueAssociation \<Rightarrow> int \<Rightarrow> collection \<Rightarrow> collection" where
  "deleteAssociation level entryID key triplePos ic =
     (let ic = updAssociationsTree level (updStored entryID (as_Delete key)) ic
      in if writeToDisk ic then diskFree triplePos ic else arenaFreeSlot triplePos ic)"

definition didNotFindKey :: "string \<Rightarrow> message" where
  "didNotFindKey key = Text (''Did not find '' @ quoted key)"

definition didNotFindValue :: "string \<Rightarrow> string \<Rightarrow> message" where
  "didNotFindValue value1 value2 =
     Text (''Did not find '' @ quoted value2 @ '' with value1 '' @ quoted value1)"

definition deleteLocked ::
    "string \<Rightarrow> string \<Rightarrow> string \<Rightarrow> collection \<Rightarrow> (message \<times> bool) \<times> collection" where
  "deleteLocked key value1 value2 ic =
     (if readOnly ic then ((ErrorText ErrReadOnly '''', False), ic)
      else
        let (kk, ic) = getEntryFromString key ic;
            (vv1, ic) = getEntryFromString value1 ic;
            (vv2, ic) = getEntryFromString value2 ic
        in case kk of
             None \<Rightarrow> ((didNotFindKey key, False), ic)
           | Some (k, _) \<Rightarrow>
        (case (vv1, vv2) of
           (Some (v1, _), Some (v2, l2)) \<Rightarrow>
             (let assKey = \<lparr>AssociateTo = v2, Relation = v1\<rparr>;
                  reverseAssKey = \<lparr>AssociateTo = k, Relation = v1\<rparr>;
                  dropReverse = updReverseAssociationsTree l2 (updStored v2 (as_Delete reverseAssKey));
                  (kk', ic) = getEntryFromString key ic;
                  pos = (case kk' of
                           None \<Rightarrow> None
                         | Some (k', lk) \<Rightarrow>
                             map_option (Pair (k', lk)) (as_Get (getAssociations ic lk k') assKey))
              in case pos of
                   Some ((k', lk), pos) \<Rightarrow>
                     (let ic = dropReverse (deleteAssociation lk k' assKey pos ic)
                      in ((Text '''', True), ic\<lparr>searchGen := searchGen ic + 1\<rparr>))
                 | None \<Rightarrow>
                     if as_Get (getReverseAssociations ic l2 v2) reverseAssKey \<noteq> None then
                       ((Text (''removed stale reverse-index entry for '' @ quoted key @ '' '' @
                               value1 @ '' '' @ quoted value2), True), dropReverse ic)
                     else
                       (case getEntryFromString key ic of
                          (None, ic) \<Rightarrow> ((didNotFindKey key, False), ic)
                        | (Some _, ic) \<Rightarrow> ((didNotFindValue value1 value2, False), ic)))
         | _ \<Rightarrow> ((didNotFindValue value1 value2, False), ic)))"

definition Delete ::
    "string \<Rightarrow> string \<Rightarrow> string \<Rightarrow> collection \<Rightarrow> (message \<times> bool) \<times> collection" where
  "Delete key value1 value2 ic = deleteLocked key value1 value2 ic"

definition Update ::
    "string \<Rightarrow> string \<Rightarrow> string \<Rightarrow> string \<Rightarrow> collection \<Rightarrow> (message \<times> bool) \<times> collection" where
  "Update key value1 value2 newValue2 ic =
     (if readOnly ic then ((ErrorText ErrReadOnly '''', False), ic)
      else
        case deleteLocked key value1 value2 ic of
          ((msg, True), ic) \<Rightarrow>
            (case addLocked key value1 newValue2 ic of
               (Some err, ic) \<Rightarrow> ((ErrorText err '''', False), ic)
             | (None, ic) \<Rightarrow> ((Text '''', True), ic))
        | ((msg, False), ic) \<Rightarrow> ((msg, False), ic))"

definition UpdateAdd ::
    "string \<Rightarrow> string \<Rightarrow> string \<Rightarrow> string \<Rightarrow> collection \<Rightarrow> (message \<times> bool) \<times> collection" where
  "UpdateAdd key value1 value2 newValue2 ic =
     (if readOnly ic then ((ErrorText ErrReadOnly '''', False), ic)
      else
        let ((msg, ok), ic) = deleteLocked key value1 value2 ic
        in case addLocked key value1 newValue2 ic of
             (Some err, ic) \<Rightarrow> ((ErrorText err '''', False), ic)
           | (None, ic) \<Rightarrow>
               ((if ok then Text ''''
                 else appendText msg '': could not update; adding new value as requested.'', True), ic))"

end
