(* ===== verification/Index_Correct.thy ===== *)
theory Index_Correct
  imports Assoc_Index
begin

text \<open>
  The index invariant and the abstract view of a collection as a set of string triples. The
  operations of \<open>Assoc_Index\<close> are shown to keep the invariant and to act on that set as insertion
  and removal.
\<close>

section \<open>States with the same trie\<close>

definition same_trie :: "collection \<Rightarrow> collection \<Rightarrow> bool" where
  "same_trie ic ic' \<longleftrightarrow>
     getUniqueValue ic' = getUniqueValue ic \<and> uniqueValueId ic' = uniqueValueId ic \<and>
     hashEntry ic' = hashEntry ic \<and> hashId ic' = hashId ic \<and>
     totalEntries ic' = totalEntries ic \<and> blobPolicy ic' = blobPolicy ic \<and>
     hashEntries ic' = hashEntries ic \<and> hashValues ic' = hashValues ic \<and>
     reverseRelations ic' = reverseRelations ic"

lemma same_trie_refl [simp]: "same_trie ic ic"
  by (simp add: same_trie_def)

lemma same_trie_trans [trans]: "same_trie a b \<Longrightarrow> same_trie b c \<Longrightarrow> same_trie a c"
  by (simp add: same_trie_def)

lemma same_trie_core: "core ic' = core ic \<Longrightarrow> same_trie ic ic'"
  unfolding same_trie_def by (intro conjI) (erule core_cong)+

lemma same_trie_upd [simp]:
  "same_trie ic (secureLevelInIndex n ic)"
  "same_trie ic (updAssociationsTree l f ic)" "same_trie ic (updReverseAssociationsTree l f ic)"
  "same_trie ic (ic\<lparr>totalAssociations := x1\<rparr>)" "same_trie ic (ic\<lparr>searchGen := x2\<rparr>)"
  by (simp_all add: same_trie_def)
    (simp_all add: secureLevelInIndex_def updAssociationsTree_def updReverseAssociationsTree_def
      updLevel_def split: option.splits)

lemma getChain_cong: "getUniqueValue ic' = getUniqueValue ic \<Longrightarrow> getChain ic' n i = getChain ic n i"
  by (induction n arbitrary: i) (auto split: option.splits)

lemma same_trie_lookup:
  assumes "same_trie ic ic'"
  shows "lookupEntry ic' = lookupEntry ic" and "getValueString ic' = getValueString ic"
    and "makeStringTriple ic' = makeStringTriple ic" and "trie_wf ic' = trie_wf ic"
    and "shouldBuildReverse t ic' = shouldBuildReverse t ic"
proof -
  note eqs = assms [unfolded same_trie_def]
  have "pathId ic' l p vs = pathId ic l p vs" for l p vs
    using eqs by (induction vs arbitrary: l p) (auto split: option.splits)
  moreover have "asBlob ic' v = asBlob ic v" for v using eqs by (simp add: asBlob_def)
  ultimately show "lookupEntry ic' = lookupEntry ic"
    using eqs by (simp add: fun_eq_iff lookupEntry_def split: option.splits)
  have "getChain ic' n i = getChain ic n i" for n i using eqs by (blast intro: getChain_cong)
  then have "getValue ic' = getValue ic" by (simp add: fun_eq_iff getValue_def del: getChain.simps)
  then show gvs: "getValueString ic' = getValueString ic"
    using eqs by (simp add: fun_eq_iff getValueString_def)
  then show "makeStringTriple ic' = makeStringTriple ic"
    by (simp add: fun_eq_iff makeStringTriple_def)
  show "trie_wf ic' = trie_wf ic" using eqs by (intro trie_wf_cong) blast+
  show "shouldBuildReverse t ic' = shouldBuildReverse t ic"
    unfolding shouldBuildReverse_def gvs using eqs by simp
qed

section \<open>Names\<close>

definition named :: "collection \<Rightarrow> int \<Rightarrow> u64 \<Rightarrow> bool" where
  "named ic l i \<longleftrightarrow> (\<exists>v. storable v \<and> lookupEntry ic v = Some (i, l))"

definition triple_named :: "collection \<Rightarrow> Triple \<Rightarrow> bool" where
  "triple_named ic t \<longleftrightarrow>
     named ic (t_Level t) (t_Key t) \<and> named ic (t_Value1Level t) (t_Value1 t) \<and>
     named ic (t_Value2Level t) (t_Value2 t)"

lemma named_value:
  assumes "trie_wf ic" "named ic l i"
  shows "storable (getValueString ic l i)" and "lookupEntry ic (getValueString ic l i) = Some (i, l)"
  using assms lookupEntry_value [OF assms(1)] by (auto simp: named_def)

lemma named_idAt: "trie_wf ic \<Longrightarrow> named ic l i \<Longrightarrow> idAt ic l i"
  by (auto simp: named_def intro: lookupEntry_idAt)

lemma named_level: "trie_wf ic \<Longrightarrow> named ic l i \<Longrightarrow> named ic l' i \<Longrightarrow> l = l'"
  by (blast intro: idAt_unique named_idAt)

lemma named_grows:
  assumes "trie_wf ic" "grows ic ic'" "named ic l i"
  shows "named ic' l i" and "getValueString ic' l i = getValueString ic l i"
proof -
  note v = named_value [OF assms(1,3)]
  note v' = lookupEntry_grows [OF assms(1,2) v(2)]
  show "named ic' l i" using v(1) v' by (auto simp: named_def)
  show "getValueString ic' l i = getValueString ic l i"
    by (rule lookupEntry_value [OF grows_wf(1) [OF assms(2)] v(1) v'])
qed

lemma triple_named_grows:
  assumes "trie_wf ic" "grows ic ic'" "triple_named ic t"
  shows "triple_named ic' t" and "makeStringTriple ic' t = makeStringTriple ic t"
    and "shouldBuildReverse t ic' = shouldBuildReverse t ic"
  using assms(3) named_grows [OF assms(1,2)] assms(2)
  by (auto simp: triple_named_def makeStringTriple_def shouldBuildReverse_def grows_def intern_extD
      split: option.splits)

lemma triple_named_ok: "trie_wf ic \<Longrightarrow> triple_named ic t \<Longrightarrow> triple_ok t"
  by (auto simp: triple_named_def triple_ok_def intro: idAt_level_ok named_idAt)

text \<open>Named triples are equal when their ids are, and when their strings are.\<close>

lemma triple_named_eqI:
  assumes "trie_wf ic" "triple_named ic t" "triple_named ic t'"
    and "t_Key t = t_Key t'" "t_Value1 t = t_Value1 t'" "t_Value2 t = t_Value2 t'"
  shows "t = t'"
  using assms by (auto simp: triple_named_def intro!: Triple.equality dest: named_level)

lemma makeStringTriple_inject:
  assumes "trie_wf ic" "triple_named ic t" "triple_named ic t'"
  shows "makeStringTriple ic t = makeStringTriple ic t' \<longleftrightarrow> t = t'"
proof
  assume "makeStringTriple ic t = makeStringTriple ic t'"
  then have "getValueString ic (t_Level t) (t_Key t) = getValueString ic (t_Level t') (t_Key t')"
    "getValueString ic (t_Value1Level t) (t_Value1 t) = getValueString ic (t_Value1Level t') (t_Value1 t')"
    "getValueString ic (t_Value2Level t) (t_Value2 t) = getValueString ic (t_Value2Level t') (t_Value2 t')"
    by (simp_all add: makeStringTriple_def)
  then have "t_Key t = t_Key t'" "t_Value1 t = t_Value1 t'" "t_Value2 t = t_Value2 t'"
    using assms(2,3) unfolding triple_named_def
    by (metis named_value(2) [OF assms(1)] option.inject prod.inject)+
  then show "t = t'" by (rule triple_named_eqI [OF assms])
qed simp

section \<open>The index invariant\<close>

definition fwd :: "collection \<Rightarrow> int \<Rightarrow> u64 \<Rightarrow> u64 \<Rightarrow> u64 \<Rightarrow> int option" where
  "fwd ic l k v1 v2 = as_Get (getAssociations ic l k) \<lparr>AssociateTo = v2, Relation = v1\<rparr>"

definition bwd :: "collection \<Rightarrow> int \<Rightarrow> u64 \<Rightarrow> u64 \<Rightarrow> u64 \<Rightarrow> int option" where
  "bwd ic l v2 v1 k = as_Get (getReverseAssociations ic l v2) \<lparr>AssociateTo = k, Relation = v1\<rparr>"

definition sets_ok :: "collection \<Rightarrow> bool" where
  "sets_ok ic \<longleftrightarrow>
     (\<forall>l i. as_inv (getAssociations ic l i) \<and> as_inv (getReverseAssociations ic l i)) \<and>
     (\<forall>l t. associationsTree ic l = Some t \<longrightarrow> lt_inv t) \<and>
     (\<forall>l t. reverseAssociationsTree ic l = Some t \<longrightarrow> lt_inv t) \<and>
     (blobPolicy ic \<noteq> None \<longrightarrow> hashAssociations ic \<noteq> None \<and> hashReverseAssociations ic \<noteq> None)"

text \<open>Both indexes hold exactly the stored records, the reverse one those of its relations.\<close>

definition idx_wf :: "collection \<Rightarrow> bool" where
  "idx_wf ic \<longleftrightarrow>
     sets_ok ic \<and>
     (\<forall>p t. record_at ic p = Some t \<longrightarrow> triple_named ic t) \<and>
     (\<forall>l k v1 v2 p. fwd ic l k v1 v2 = Some p \<longleftrightarrow>
        (\<exists>t. record_at ic p = Some t \<and> t_Level t = l \<and> t_Key t = k \<and> t_Value1 t = v1 \<and> t_Value2 t = v2)) \<and>
     (\<forall>l v2 v1 k p. bwd ic l v2 v1 k = Some p \<longleftrightarrow>
        (\<exists>t. record_at ic p = Some t \<and> t_Value2Level t = l \<and> t_Value2 t = v2 \<and> t_Value1 t = v1 \<and>
             t_Key t = k \<and> shouldBuildReverse t ic))"

lemma idx_wfD:
  assumes "idx_wf ic"
  shows "sets_ok ic"
    and "record_at ic p = Some t \<Longrightarrow> triple_named ic t"
    and "fwd ic l k v1 v2 = Some p \<longleftrightarrow>
      (\<exists>t. record_at ic p = Some t \<and> t_Level t = l \<and> t_Key t = k \<and> t_Value1 t = v1 \<and> t_Value2 t = v2)"
    and "bwd ic l v2 v1 k = Some p \<longleftrightarrow>
      (\<exists>t. record_at ic p = Some t \<and> t_Value2Level t = l \<and> t_Value2 t = v2 \<and> t_Value1 t = v1 \<and>
           t_Key t = k \<and> shouldBuildReverse t ic)"
  using assms unfolding idx_wf_def by blast+

definition coll_wf :: "collection \<Rightarrow> bool" where
  "coll_wf ic \<longleftrightarrow> trie_wf ic \<and> store_inv ic \<and> idx_wf ic \<and> persisted ic"

lemma wfD:
  assumes "coll_wf ic"
  shows "trie_wf ic" and "store_inv ic" and "idx_wf ic" and "persisted ic"
  using assms by (simp_all add: coll_wf_def)

definition triples :: "collection \<Rightarrow> StringTriple set" where
  "triples ic = makeStringTriple ic ` ran (record_at ic)"

lemma sets_ok_ext:
  assumes "sets_ok ic" "trees_ext ic ic'" "blobPolicy ic' = blobPolicy ic"
  shows "sets_ok ic'"
proof -
  have "hashAssociations ic' \<noteq> None" "hashReverseAssociations ic' \<noteq> None" if "blobPolicy ic' \<noteq> None"
    using that assms unfolding sets_ok_def trees_ext_def
    by (auto simp: associationsTree_def reverseAssociationsTree_def dest!: spec [of _ HASH_LEVEL])
  moreover have "lt_inv t" if "associationsTree ic' l = Some t" for l t
    using that assms(1) assms(2) [unfolded trees_ext_def, rule_format, of l]
    by (auto simp: sets_ok_def)
  moreover have "lt_inv t" if "reverseAssociationsTree ic' l = Some t" for l t
    using that assms(1) assms(2) [unfolded trees_ext_def, rule_format, of l]
    by (auto simp: sets_ok_def)
  ultimately show ?thesis
    using assms(1) getAssociations_trees_ext [OF assms(2)] by (simp add: sets_ok_def)
qed

text \<open>Interning values and reading leave the abstract set as it is.\<close>

lemma wf_grows:
  assumes "coll_wf ic" "grows ic ic'"
  shows "coll_wf ic'" and "triples ic' = triples ic"
    and "fwd ic' = fwd ic" and "bwd ic' = bwd ic"
proof -
  note w = wfD [OF assms(1)] and g = assms(2) [unfolded grows_def]
  note same = intern_extD [OF g [THEN conjunct2, THEN conjunct2, THEN conjunct1]]
  note kept = triple_named_grows [OF w(1) assms(2) idx_wfD(2) [OF w(3)]]
  show f: "fwd ic' = fwd ic" and b: "bwd ic' = bwd ic"
    by (simp_all add: fun_eq_iff fwd_def bwd_def same)
  have "sets_ok ic'" by (rule sets_ok_ext [OF idx_wfD(1) [OF w(3)] same(3,5)])
  then have "idx_wf ic'"
    unfolding idx_wf_def f b same(4) using idx_wfD [OF w(3)] kept by fastforce
  with g w show "coll_wf ic'" by (simp add: coll_wf_def)
  show "triples ic' = triples ic"
    unfolding triples_def same(4) by (rule image_cong) (auto simp: ran_def intro: kept(2))
qed

section \<open>Membership\<close>

lemma mem_triples:
  assumes "coll_wf ic"
  shows "st \<in> triples ic \<longleftrightarrow>
    (\<exists>k l v1 l1 v2 l2. storable (Key st) \<and> storable (Value1 st) \<and> storable (Value2 st) \<and>
       lookupEntry ic (Key st) = Some (k, l) \<and> lookupEntry ic (Value1 st) = Some (v1, l1) \<and>
       lookupEntry ic (Value2 st) = Some (v2, l2) \<and> fwd ic l k v1 v2 \<noteq> None)"
    (is "_ \<longleftrightarrow> ?found")
proof
  note w = wfD [OF assms]
  assume "st \<in> triples ic"
  then obtain p t where t: "record_at ic p = Some t" "st = makeStringTriple ic t"
    by (auto simp: triples_def ran_def)
  have n: "triple_named ic t" by (rule idx_wfD(2) [OF w(3) t(1)])
  have "fwd ic (t_Level t) (t_Key t) (t_Value1 t) (t_Value2 t) = Some p"
    using idx_wfD(3) [OF w(3)] t(1) by blast
  with n t(2) named_value [OF w(1)] show ?found
    by (auto simp: triple_named_def makeStringTriple_def)
next
  note w = wfD [OF assms]
  assume ?found
  then obtain k l v1 l1 v2 l2 p where
    st: "storable (Key st)" "storable (Value1 st)" "storable (Value2 st)" and
    e: "lookupEntry ic (Key st) = Some (k, l)" "lookupEntry ic (Value1 st) = Some (v1, l1)"
      "lookupEntry ic (Value2 st) = Some (v2, l2)" and p: "fwd ic l k v1 v2 = Some p"
    by blast
  from p idx_wfD(3) [OF w(3)] obtain t where t: "record_at ic p = Some t" "t_Level t = l"
    "t_Key t = k" "t_Value1 t = v1" "t_Value2 t = v2" by blast
  note n = idx_wfD(2) [OF w(3) t(1)]
  have "named ic l1 v1" "named ic l2 v2" using st e by (auto simp: named_def)
  with n t have "t_Value1Level t = l1" "t_Value2Level t = l2"
    using named_level [OF w(1)] by (auto simp: triple_named_def)
  then have "makeStringTriple ic t = st"
    using st e t lookupEntry_value [OF w(1)] by (simp add: makeStringTriple_def)
  with t(1) show "st \<in> triples ic" by (auto simp: triples_def ran_def)
qed

section \<open>Storing and freeing a record in either mode\<close>

definition storeTriple :: "Triple \<Rightarrow> collection \<Rightarrow> int \<times> collection" where
  "storeTriple t ic = (if writeToDisk ic then diskPut (AssociationRecord t) ic else arenaStore t ic)"

definition freeTriple :: "int \<Rightarrow> collection \<Rightarrow> collection" where
  "freeTriple p ic = (if writeToDisk ic then diskFree p ic else arenaFreeSlot p ic)"

lemma core_storeTriple [simp]: "core (snd (storeTriple t ic)) = core ic"
  by (simp add: storeTriple_def)

lemma core_freeTriple [simp]: "core (freeTriple p ic) = core ic"
  by (simp add: freeTriple_def)

lemmas freeTriple_core [simp] = core_cong [OF core_freeTriple]

lemma persisted_file_cong:
  assumes "persisted ic" "writeToDisk ic' = writeToDisk ic" "getUniqueValue ic' = getUniqueValue ic"
    "hashEntry ic' = hashEntry ic"
    and "\<And>r. writeToDisk ic \<Longrightarrow> \<forall>t. r \<noteq> AssociationRecord t \<Longrightarrow>
      (\<exists>p. file_rec ic' p = Some r) \<longleftrightarrow> (\<exists>p. file_rec ic p = Some r)"
  shows "persisted ic'"
  using assms(1,5) unfolding persisted_def assms(2,3,4) by auto

lemma storeTriple_spec:
  assumes "store_inv ic" "triple_ok t" "storeTriple t ic = (p, ic')"
  shows "record_at ic p = None" and "record_at ic' = (record_at ic)(p \<mapsto> t)"
    and "store_inv ic'" and "ioErr ic' = ioErr ic" and "persisted ic \<Longrightarrow> persisted ic'"
proof -
  have c: "core ic' = core ic" using assms(3) core_storeTriple [of t ic] by simp
  note w = core_cong(17) [OF c]
  show "record_at ic p = None" "record_at ic' = (record_at ic)(p \<mapsto> t)" "store_inv ic'"
    "ioErr ic' = ioErr ic"
    using assms w disk_store.store_fresh [of ic t] disk_store.store_rec [of ic t]
      disk_store.store_inv [of ic t] arena_store.store_fresh [of ic t]
      arena_store.store_rec [of ic t] arena_store.store_inv [of ic t]
    by (auto simp: storeTriple_def record_at_def store_inv_def diskPut_unfold arenaStore_def
        split: if_splits list.splits)
  show "persisted ic'" if "persisted ic"
  proof (rule persisted_file_cong [OF that w core_cong(1) [OF c] core_cong(3) [OF c]])
    fix r
    assume d: "writeToDisk ic" and r: "\<forall>t. r \<noteq> AssociationRecord t"
    have "file_rec ic p = None" "file_rec ic' = (file_rec ic)(p \<mapsto> AssociationRecord t)"
      using d assms file_rec_diskPut [of ic "AssociationRecord t"]
      by (auto simp: storeTriple_def store_inv_def)
    then show "(\<exists>p. file_rec ic' p = Some r) \<longleftrightarrow> (\<exists>p. file_rec ic p = Some r)"
      using r exists_upd [of "file_rec ic" p "AssociationRecord t" r] by auto
  qed
qed

lemma freeTriple_spec:
  assumes "store_inv ic" "record_at ic p \<noteq> None"
  shows "record_at (freeTriple p ic) = (record_at ic)(p := None)"
    and "store_inv (freeTriple p ic)" and "ioErr (freeTriple p ic) = ioErr ic"
    and "persisted ic \<Longrightarrow> persisted (freeTriple p ic)"
proof -
  have c: "core (freeTriple p ic) = core ic" by simp
  note w = core_cong(17) [OF c]
  have ioe: "ioErr (diskFree p ic) = ioErr ic" if "disk_inv ic"
    using that by (simp add: diskFree_def queueWrite_def cacheEvict_def disk_inv_def)
  show "record_at (freeTriple p ic) = (record_at ic)(p := None)" "store_inv (freeTriple p ic)"
    "ioErr (freeTriple p ic) = ioErr ic"
    using assms w ioe disk_store.free_rec [of ic p] disk_store.free_inv [of ic p]
      arena_store.free_rec [of ic p] arena_store.free_inv [of ic p]
    by (auto simp: freeTriple_def record_at_def store_inv_def arenaFreeSlot_def split: if_splits)
  show "persisted (freeTriple p ic)" if "persisted ic"
  proof (rule persisted_file_cong [OF that w core_cong(1) [OF c] core_cong(3) [OF c]])
    fix r
    assume d: "writeToDisk ic" and r: "\<forall>t. r \<noteq> AssociationRecord t"
    obtain t where "disk_rec ic p = Some t" using d assms(2) by (auto simp: record_at_def)
    then have "file_rec ic p = Some (AssociationRecord t)"
      "file_rec (freeTriple p ic) = (file_rec ic)(p := None)"
      using d assms file_rec_diskFree [of ic p] disk_rec_file_rec [of ic p t]
      by (auto simp: freeTriple_def store_inv_def)
    then show "(\<exists>q. file_rec (freeTriple p ic) q = Some r) \<longleftrightarrow> (\<exists>q. file_rec ic q = Some r)"
      using r by (metis fun_upd_apply option.distinct(1) option.inject)
  qed
qed

section \<open>Entering a triple into the indexes\<close>

definition tree_ready :: "collection \<Rightarrow> int \<Rightarrow> bool" where
  "tree_ready ic l \<longleftrightarrow>
     (if l = HASH_LEVEL then hashAssociations ic \<noteq> None \<and> hashReverseAssociations ic \<noteq> None
      else 0 \<le> l)"

lemma named_tree_ready:
  assumes "trie_wf ic" "sets_ok ic" "named ic l i"
  shows "tree_ready ic l"
proof -
  from assms(3) obtain v where v: "lookupEntry ic v = Some (i, l)" by (auto simp: named_def)
  show ?thesis
  proof (cases "asBlob ic v")
    case None
    with v show ?thesis using length_valueChunks [of v]
      by (auto simp: lookupEntry_def tree_ready_def HASH_LEVEL_def)
  next
    case (Some raw)
    with v asBlob_decode [OF assms(1)] assms(2) show ?thesis
      by (fastforce simp: lookupEntry_def tree_ready_def sets_ok_def)
  qed
qed

lemma secureEntryLevel_obs [simp]:
  "getAssociations (secureEntryLevel l ic) = getAssociations ic"
  "getReverseAssociations (secureEntryLevel l ic) = getReverseAssociations ic"
  "trees_ext ic (secureEntryLevel l ic)" "same_trie ic (secureEntryLevel l ic)"
  "index_step ic (secureEntryLevel l ic)"
  "hashAssociations (secureEntryLevel l ic) = hashAssociations ic"
  "hashReverseAssociations (secureEntryLevel l ic) = hashReverseAssociations ic"
  by (simp_all add: secureEntryLevel_def) (simp_all add: secureLevelInIndex_def)

lemma tree_ready_secure:
  assumes "tree_ready ic l"
  shows "associationsTree (secureEntryLevel l ic) l \<noteq> None"
    and "reverseAssociationsTree (secureEntryLevel l ic) l \<noteq> None"
  using assms by (auto simp: tree_ready_def associationsTree_def reverseAssociationsTree_def
      secureEntryLevel_def levelAt_secureLevel split: option.splits if_splits)

lemma tree_kept:
  "trees_ext ic ic' \<Longrightarrow> associationsTree ic l \<noteq> None \<Longrightarrow> associationsTree ic' l \<noteq> None"
  "trees_ext ic ic' \<Longrightarrow> reverseAssociationsTree ic l \<noteq> None \<Longrightarrow> reverseAssociationsTree ic' l \<noteq> None"
  unfolding trees_ext_def by (metis option.distinct(1))+

lemma sets_ok_putAssoc:
  assumes "sets_ok ic"
  shows "associationsTree ic l \<noteq> None \<Longrightarrow> sets_ok (updAssociationsTree l (putAssoc k sub pos) ic)"
    and "reverseAssociationsTree ic l \<noteq> None \<Longrightarrow> sets_ok (updReverseAssociationsTree l (putAssoc k sub pos) ic)"
proof -
  have h: "blobPolicy (updAssociationsTree l f ic) = blobPolicy ic"
    "blobPolicy (updReverseAssociationsTree l f ic) = blobPolicy ic"
    "(hashAssociations (updAssociationsTree l f ic) = None) = (hashAssociations ic = None)"
    "(hashAssociations (updReverseAssociationsTree l f ic) = None) = (hashAssociations ic = None)"
    "(hashReverseAssociations (updAssociationsTree l f ic) = None) = (hashReverseAssociations ic = None)"
    "(hashReverseAssociations (updReverseAssociationsTree l f ic) = None) = (hashReverseAssociations ic = None)"
    for f
    by (simp_all add: updAssociationsTree_def updReverseAssociationsTree_def updLevel_def
        split: option.splits)
  show "associationsTree ic l \<noteq> None \<Longrightarrow> sets_ok (updAssociationsTree l (putAssoc k sub pos) ic)"
    using assms unfolding sets_ok_def h
    by (auto simp: getAssociations_put as.inv_put split: if_splits)
  show "reverseAssociationsTree ic l \<noteq> None \<Longrightarrow> sets_ok (updReverseAssociationsTree l (putAssoc k sub pos) ic)"
    using assms unfolding sets_ok_def h
    by (auto simp: getReverseAssociations_put as.inv_put split: if_splits)
qed

lemma insertAssociation_obs:
  assumes "sets_ok ic" "tree_ready ic (t_Level a)" "tree_ready ic (t_Value2Level a)"
    and ins: "insertAssociation (t_Level a) a pos ic = ic'"
  shows "fwd ic' l k v1 v2 =
      (if l = t_Level a \<and> k = t_Key a \<and> v1 = t_Value1 a \<and> v2 = t_Value2 a then Some pos
       else fwd ic l k v1 v2)" (is ?F)
    and "bwd ic' l v2 v1 k =
      (if shouldBuildReverse a ic \<and> l = t_Value2Level a \<and> k = t_Key a \<and> v1 = t_Value1 a \<and>
          v2 = t_Value2 a then Some pos
       else bwd ic l v2 v1 k)" (is ?B)
    and "sets_ok ic'" and "same_trie ic ic'" and "index_step ic ic'"
proof -
  define ic1 where "ic1 = secureEntryLevel (t_Value2Level a) (secureEntryLevel (t_Level a) ic)"
  define ic2 where "ic2 = updAssociationsTree (t_Level a)
    (putAssoc (t_Key a) \<lparr>AssociateTo = t_Value2 a, Relation = t_Value1 a\<rparr> pos) ic1"
  define ic3 where "ic3 = ic2\<lparr>totalAssociations := totalAssociations ic2 + 1\<rparr>"
  have ext: "trees_ext ic ic1" "trees_ext (secureEntryLevel (t_Level a) ic) ic1"
    unfolding ic1_def by (rule trees_ext_trans [OF secureEntryLevel_obs(3) secureEntryLevel_obs(3)])
      (rule secureEntryLevel_obs)
  have s1: "same_trie ic ic1" "index_step ic ic1"
    unfolding ic1_def
    by (rule same_trie_trans [OF secureEntryLevel_obs(4) secureEntryLevel_obs(4)])
      (rule index_step_trans [OF secureEntryLevel_obs(5) secureEntryLevel_obs(5)])
  have g1: "getAssociations ic1 = getAssociations ic" "getReverseAssociations ic1 = getReverseAssociations ic"
    by (simp_all add: ic1_def)
  have ok1: "sets_ok ic1" using sets_ok_ext [OF assms(1) ext(1)] s1(1) by (simp add: same_trie_def)
  have t1: "associationsTree ic1 (t_Level a) \<noteq> None"
    using tree_kept(1) [OF ext(2)] tree_ready_secure(1) [OF assms(2)] by blast
  have "tree_ready (secureEntryLevel (t_Level a) ic) (t_Value2Level a)"
    using assms(3) by (simp add: tree_ready_def split: if_splits)
  then have r1: "reverseAssociationsTree ic1 (t_Value2Level a) \<noteq> None"
    unfolding ic1_def by (rule tree_ready_secure)
  have s3: "same_trie ic ic3" "index_step ic ic3"
    unfolding ic3_def ic2_def
    using same_trie_trans [OF same_trie_trans [OF s1(1) same_trie_upd(2)] same_trie_upd(4)]
      index_step_trans [OF index_step_trans [OF s1(2) index_step_upd(8)] index_step_upd(2)]
    by blast+
  have ok3: "sets_ok ic3"
    using sets_ok_putAssoc(1) [OF ok1 t1] unfolding ic3_def ic2_def by (simp add: sets_ok_def)
  have r3: "reverseAssociationsTree ic3 (t_Value2Level a) \<noteq> None"
    using r1 by (simp add: ic3_def ic2_def)
  note b3 = same_trie_lookup(5) [OF s3(1), of a]
  have ic': "ic' = (if \<not> shouldBuildReverse a ic then ic3 else updReverseAssociationsTree (t_Value2Level a)
      (putAssoc (t_Value2 a) \<lparr>AssociateTo = t_Key a, Relation = t_Value1 a\<rparr> pos) ic3)"
    unfolding ins [symmetric] insertAssociation_def ic1_def [symmetric] Let_def ic2_def [symmetric]
      ic3_def [symmetric] b3 ..
  have g3: "getAssociations ic3 l k = (if l = t_Level a \<and> k = t_Key a
      then as_Put \<lparr>AssociateTo = t_Value2 a, Relation = t_Value1 a\<rparr> pos (getAssociations ic l k)
      else getAssociations ic l k)" "getReverseAssociations ic3 = getReverseAssociations ic" for l k
    by (simp_all add: ic3_def ic2_def getAssociations_put [OF t1] g1)
  have inv: "as_inv (getAssociations ic l i)" "as_inv (getReverseAssociations ic l i)" for l i
    using assms(1) by (auto simp: sets_ok_def)
  show ?F using inv by (auto simp: fwd_def ic' g3 as.get_put)
  show ?B using inv by (auto simp: bwd_def ic' g3 getReverseAssociations_put [OF r3] as.get_put)
  show "sets_ok ic'" using ok3 sets_ok_putAssoc(2) [OF ok3 r3] by (simp add: ic')
  show "same_trie ic ic'" "index_step ic ic'"
    unfolding ic' using s3 same_trie_trans [OF s3(1) same_trie_upd(3)]
      index_step_trans [OF s3(2) index_step_upd(9)] by simp_all
qed

section \<open>Adding and removing a record keeps the invariant\<close>

lemma sets_ok_core: "core ic' = core ic \<Longrightarrow> sets_ok ic' = sets_ok ic"
  using core_cong [of ic' ic] by (simp add: sets_ok_def)

lemma named_same: "same_trie ic ic' \<Longrightarrow> named ic' = named ic"
  "same_trie ic ic' \<Longrightarrow> triple_named ic' = triple_named ic"
  using same_trie_lookup(1) [of ic ic'] by (simp_all add: fun_eq_iff named_def triple_named_def)

lemma record_added:
  assumes wf: "coll_wf ic" and n: "triple_named ic t"
    and new: "fwd ic (t_Level t) (t_Key t) (t_Value1 t) (t_Value2 t) = None"
    and st: "storeTriple t ic = (p, ic1)" and ins: "insertAssociation (t_Level t) t p ic1 = ic'"
  shows "coll_wf ic'" and "triples ic' = insert (makeStringTriple ic t) (triples ic)"
    and "same_trie ic ic'" and "ioErr ic' = ioErr ic" and "readOnly ic' = readOnly ic"
    and "writeToDisk ic' = writeToDisk ic"
proof -
  note w = wfD [OF wf]
  note spec = storeTriple_spec [OF w(2) triple_named_ok [OF w(1) n] st]
  have c: "core ic1 = core ic" using st core_storeTriple [of t ic] by simp
  note s1 = same_trie_core [OF c]
  have f1: "fwd ic1 = fwd ic" "bwd ic1 = bwd ic" by (simp_all add: fun_eq_iff fwd_def bwd_def core_cong [OF c])
  have ok1: "sets_ok ic1" using idx_wfD(1) [OF w(3)] sets_ok_core [OF c] by simp
  have "tree_ready ic (t_Level t)" "tree_ready ic (t_Value2Level t)"
    using n named_tree_ready [OF w(1) idx_wfD(1) [OF w(3)]] by (auto simp: triple_named_def)
  then have "tree_ready ic1 (t_Level t)" "tree_ready ic1 (t_Value2Level t)"
    by (simp_all add: tree_ready_def core_cong [OF c])
  note obs = insertAssociation_obs [OF ok1 this ins, unfolded f1 same_trie_lookup(5) [OF s1]]
  note io = index_step_obs [OF obs(5)]
  show same: "same_trie ic ic'" by (rule same_trie_trans [OF s1 obs(4)])
  note tr = same_trie_lookup [OF same]
  have rec: "record_at ic' = (record_at ic)(p \<mapsto> t)" using spec(2) io(3) by simp
  show "triples ic' = insert (makeStringTriple ic t) (triples ic)"
    unfolding triples_def rec tr(3) using spec(1) by (simp add: ran_map_upd)
  show "ioErr ic' = ioErr ic" "readOnly ic' = readOnly ic" "writeToDisk ic' = writeToDisk ic"
    using io spec(4) core_cong [OF c] by simp_all
  have pers: "persisted ic'"
    using spec(5) [OF w(4)] obs(4) by (simp add: persisted_def io same_trie_def)
  have nodup: False if "record_at ic q = Some t'" "t_Key t' = t_Key t" "t_Value1 t' = t_Value1 t"
    "t_Value2 t' = t_Value2 t" for q t'
  proof -
    have "t' = t" by (rule triple_named_eqI [OF w(1) idx_wfD(2) [OF w(3) that(1)] n that(2-4)])
    with that(1) idx_wfD(3) [OF w(3)] new show False by force
  qed
  have "fwd ic' l k v1 v2 = Some q \<longleftrightarrow>
      (\<exists>t. record_at ic' q = Some t \<and> t_Level t = l \<and> t_Key t = k \<and> t_Value1 t = v1 \<and> t_Value2 t = v2)"
    for l k v1 v2 q
    using idx_wfD(3) [OF w(3), of l k v1 v2 q] spec(1) nodup unfolding obs(1) rec by auto
  moreover have "bwd ic' l v2 v1 k = Some q \<longleftrightarrow>
      (\<exists>t. record_at ic' q = Some t \<and> t_Value2Level t = l \<and> t_Value2 t = v2 \<and> t_Value1 t = v1 \<and>
           t_Key t = k \<and> shouldBuildReverse t ic')" for l v2 v1 k q
    using idx_wfD(4) [OF w(3), of l v2 v1 k q] spec(1) nodup unfolding obs(2) rec tr(5) by auto
  moreover have "triple_named ic' u" if "record_at ic' q = Some u" for q u
    using that n idx_wfD(2) [OF w(3)] by (auto simp: rec named_same [OF same] split: if_splits)
  ultimately have "idx_wf ic'" unfolding idx_wf_def using obs(3) by blast
  with tr(4) w(1) io(2) spec(3) pers show "coll_wf ic'" by (simp add: coll_wf_def)
qed

lemma record_removed:
  assumes wf: "coll_wf ic" and rec: "record_at ic p = Some t"
    and ic1: "ic1 = updAssociationsTree (t_Level t)
      (updStored (t_Key t) (as_Delete \<lparr>AssociateTo = t_Value2 t, Relation = t_Value1 t\<rparr>)) ic"
    and ic': "ic' = updReverseAssociationsTree (t_Value2Level t)
      (updStored (t_Value2 t) (as_Delete \<lparr>AssociateTo = t_Key t, Relation = t_Value1 t\<rparr>))
      (freeTriple p ic1)"
  shows "coll_wf ic'" and "triples ic' = triples ic - {makeStringTriple ic t}"
    and "same_trie ic ic'" and "ioErr ic' = ioErr ic" and "readOnly ic' = readOnly ic"
    and "writeToDisk ic' = writeToDisk ic"
proof -
  note w = wfD [OF wf]
  have "index_step ic ic1" unfolding ic1 by simp
  note io1 = index_step_obs [OF this]
  note spec = freeTriple_spec [of ic1 p, unfolded io1, OF w(2)]
  have spec: "record_at (freeTriple p ic1) = (record_at ic)(p := None)"
    "store_inv (freeTriple p ic1)" "ioErr (freeTriple p ic1) = ioErr ic"
    "persisted ic1 \<Longrightarrow> persisted (freeTriple p ic1)" using spec rec by auto
  have c: "core (freeTriple p ic1) = core ic1" by simp
  have "index_step (freeTriple p ic1) ic'" unfolding ic' by simp
  note io2 = index_step_obs [OF this]
  have s1: "same_trie ic ic1" unfolding ic1 by simp
  have s2: "same_trie (freeTriple p ic1) ic'" unfolding ic' by simp
  show same: "same_trie ic ic'" by (rule same_trie_trans [OF same_trie_trans [OF s1 same_trie_core [OF c]] s2])
  note tr = same_trie_lookup [OF same]
  have rec': "record_at ic' = (record_at ic)(p := None)" using spec(1) io2(3) by simp
  show "ioErr ic' = ioErr ic" "readOnly ic' = readOnly ic" "writeToDisk ic' = writeToDisk ic"
    using spec(3) io1 io2 core_cong [OF c] by simp_all
  have pers: "persisted ic'"
  proof -
    have "persisted ic1" using w(4) s1 by (simp add: persisted_def io1 same_trie_def)
    then show ?thesis using spec(4) s2 by (simp add: persisted_def io2 same_trie_def)
  qed
  have g: "getAssociations ic' l i = (if l = t_Level t \<and> i = t_Key t
      then as_Delete \<lparr>AssociateTo = t_Value2 t, Relation = t_Value1 t\<rparr> (getAssociations ic l i)
      else getAssociations ic l i)" "getReverseAssociations ic' l i = (if l = t_Value2Level t \<and> i = t_Value2 t
      then as_Delete \<lparr>AssociateTo = t_Key t, Relation = t_Value1 t\<rparr> (getReverseAssociations ic l i)
      else getReverseAssociations ic l i)" for l i
    by (simp_all add: ic' getReverseAssociations_del ic1 getAssociations_del)
  have inv: "as_inv (getAssociations ic l i)" "as_inv (getReverseAssociations ic l i)" for l i
    using idx_wfD(1) [OF w(3)] by (auto simp: sets_ok_def)
  have ok: "sets_ok ic'"
  proof -
    have h: "(hashAssociations ic' = None) = (hashAssociations ic = None)"
      "(hashReverseAssociations ic' = None) = (hashReverseAssociations ic = None)"
      unfolding ic' ic1
      by (simp_all add: updAssociationsTree_def updReverseAssociationsTree_def updLevel_def
          split: option.splits)
    have trees: "lt_inv u" if "associationsTree ic' l = Some u" for l u
      using that idx_wfD(1) [OF w(3)]
      by (auto simp: ic' ic1 sets_ok_def split: if_splits)
    have rtrees: "lt_inv u" if "reverseAssociationsTree ic' l = Some u" for l u
      using that idx_wfD(1) [OF w(3)]
      by (auto simp: ic' ic1 sets_ok_def split: if_splits)
    show ?thesis
      using idx_wfD(1) [OF w(3)] same trees rtrees inv
      unfolding sets_ok_def h by (auto simp: g as.inv_del same_trie_def)
  qed
  have uniq: "u = t \<and> q = p" if "record_at ic q = Some u" "t_Key u = t_Key t" "t_Value1 u = t_Value1 t"
    "t_Value2 u = t_Value2 t" for q u
  proof -
    have "u = t"
      by (rule triple_named_eqI [OF w(1) idx_wfD(2) [OF w(3) that(1)] idx_wfD(2) [OF w(3) rec] that(2-4)])
    with that(1) rec idx_wfD(3) [OF w(3)] show ?thesis by (metis option.inject)
  qed
  have f: "fwd ic' l k v1 v2 = (if l = t_Level t \<and> k = t_Key t \<and> v1 = t_Value1 t \<and> v2 = t_Value2 t
      then None else fwd ic l k v1 v2)"
    and b: "bwd ic' l v2 v1 k = (if l = t_Value2Level t \<and> k = t_Key t \<and> v1 = t_Value1 t \<and>
      v2 = t_Value2 t then None else bwd ic l v2 v1 k)" for l k v1 v2
    using inv by (simp_all add: fwd_def bwd_def g as.get_del)
  have other: "\<not> (t_Key u = t_Key t \<and> t_Value1 u = t_Value1 t \<and> t_Value2 u = t_Value2 t)"
    if "record_at ic q = Some u" "q \<noteq> p" for q u
    using uniq [OF that(1)] that(2) by blast
  have "fwd ic' l k v1 v2 = Some q \<longleftrightarrow>
      (\<exists>t. record_at ic' q = Some t \<and> t_Level t = l \<and> t_Key t = k \<and> t_Value1 t = v1 \<and> t_Value2 t = v2)"
    for l k v1 v2 q
    using idx_wfD(3) [OF w(3), of l k v1 v2 q] rec other [of q] unfolding f rec' by auto
  moreover have "bwd ic' l v2 v1 k = Some q \<longleftrightarrow>
      (\<exists>t. record_at ic' q = Some t \<and> t_Value2Level t = l \<and> t_Value2 t = v2 \<and> t_Value1 t = v1 \<and>
           t_Key t = k \<and> shouldBuildReverse t ic')" for l v2 v1 k q
    using idx_wfD(4) [OF w(3), of l v2 v1 k q] rec other [of q] unfolding b rec' tr(5) by auto
  moreover have "triple_named ic' u" if "record_at ic' q = Some u" for q u
    using that idx_wfD(2) [OF w(3)] by (auto simp: rec' named_same [OF same] split: if_splits)
  ultimately have "idx_wf ic'" unfolding idx_wf_def using ok by blast
  with tr(4) w(1) io2(2) spec(2) pers show "coll_wf ic'" by (simp add: coll_wf_def)
  have "ran (record_at ic') = ran (record_at ic) - {t}"
    using other rec by (force simp: ran_def rec' split: if_splits)
  then show "triples ic' = triples ic - {makeStringTriple ic t}"
    unfolding triples_def tr(3)
    using makeStringTriple_inject [OF w(1)] idx_wfD(2) [OF w(3)] rec by (auto simp: ran_def)
qed

section \<open>Add\<close>

definition storable3 :: "string \<Rightarrow> string \<Rightarrow> string \<Rightarrow> bool" where
  "storable3 s r v \<longleftrightarrow> storable s \<and> storable r \<and> storable v"

definition need3 :: "string \<Rightarrow> string \<Rightarrow> string \<Rightarrow> nat" where
  "need3 s r v = need s + need r + need v"

text \<open>A collection that accepts writes.\<close>

definition writable :: "collection \<Rightarrow> bool" where
  "writable ic \<longleftrightarrow> coll_wf ic \<and> \<not> readOnly ic \<and> ioErr ic = None"

text \<open>Configuration that no operation on triples changes.\<close>

definition same_config :: "collection \<Rightarrow> collection \<Rightarrow> bool" where
  "same_config ic ic' \<longleftrightarrow>
     blobPolicy ic' = blobPolicy ic \<and> reverseRelations ic' = reverseRelations ic \<and>
     readOnly ic' = readOnly ic \<and> writeToDisk ic' = writeToDisk ic \<and> ioErr ic' = ioErr ic"

lemma same_config_refl [simp]: "same_config ic ic"
  by (simp add: same_config_def)

lemma same_config_trans [trans]: "same_config a b \<Longrightarrow> same_config b c \<Longrightarrow> same_config a c"
  by (simp add: same_config_def)

lemma grows_config: "grows ic ic' \<Longrightarrow> same_config ic ic'"
  by (simp add: grows_def same_config_def intern_extD)

lemma three_inserts:
  assumes "coll_wf ic" "storable3 s r v" "room (need3 s r v) ic"
    and "insertLocked s ic = (e1, ic1)" "insertLocked r ic1 = (e2, ic2)" "insertLocked v ic2 = (e3, ic3)"
  shows "grows ic ic3" and "lookupEntry ic3 s = Some e1" and "lookupEntry ic3 r = Some e2"
    and "lookupEntry ic3 v = Some e3"
    and "unat (totalEntries ic3) \<le> unat (totalEntries ic) + need3 s r v"
proof -
  note st = assms(2) [unfolded storable3_def]
  note w = wfD [OF assms(1)]
  have "room (need s) ic" using assms(3) by (simp add: room_def need3_def)
  note i1 = insertLocked_spec [OF w(1,2) _ this assms(4)]
  note i1 = i1 [OF st [THEN conjunct1]]
  have "room (need r) ic1" using assms(3) i1(3) by (simp add: room_def need3_def)
  note i2 = insertLocked_spec [OF grows_wf [OF i1(1)] _ this assms(5)]
  note i2 = i2 [OF st [THEN conjunct2, THEN conjunct1]]
  have "room (need v) ic2" using assms(3) i1(3) i2(3) by (simp add: room_def need3_def)
  note i3 = insertLocked_spec [OF grows_wf [OF i2(1)] _ this assms(6)]
  note i3 = i3 [OF st [THEN conjunct2, THEN conjunct2]]
  have g: "grows ic1 ic3" by (rule grows_trans [OF i2(1) i3(1)])
  show "grows ic ic3" by (rule grows_trans [OF i1(1) g])
  show "lookupEntry ic3 s = Some e1" by (rule lookupEntry_grows [OF grows_wf(1) [OF i1(1)] g i1(2)])
  show "lookupEntry ic3 r = Some e2" by (rule lookupEntry_grows [OF grows_wf(1) [OF i2(1)] i3(1) i2(2)])
  show "lookupEntry ic3 v = Some e3" by (rule i3(2))
  show "unat (totalEntries ic3) \<le> unat (totalEntries ic) + need3 s r v"
    using i1(3) i2(3) i3(3) by (simp add: need3_def)
qed

text \<open>In either mode, the storage half of \<open>addLocked\<close> is \<open>storeTriple\<close>.\<close>

lemma addLocked_unfold:
  assumes "\<not> readOnly ic" "ioErr ic = None"
    and "insertLocked s ic = ((k, l), ic1)" "insertLocked r ic1 = ((v1, l1), ic2)"
      "insertLocked v ic2 = ((v2, l2), ic3)" and "store_inv ic3"
    and t: "t = \<lparr>t_Level = l, t_Key = k, t_Value1Level = l1, t_Value1 = v1, t_Value2Level = l2, t_Value2 = v2\<rparr>"
  shows "addLocked s r v ic =
    (if fwd ic3 l k v1 v2 \<noteq> None then (None, ic3)
     else (let (p, ic4) = storeTriple t ic3; ic5 = insertAssociation l t p ic4
           in (None, ic5\<lparr>searchGen := searchGen ic5 + 1\<rparr>)))"
proof -
  have "writeToDisk ic3 \<Longrightarrow> disk_inv ic3" using assms(6) by (simp add: store_inv_def)
  then have d: "(let (pos, ic) = allocSlot ic3; (queued, ic) = queueWrite (FILE_ADD pos r) ic
       in (pos, queued, ic)) =
      (fst (diskPut r ic3), True, snd (diskPut r ic3))" if "writeToDisk ic3" for r
    using that by (auto simp: diskPut_def allocSlot_def queueWrite_def disk_inv_def split: list.splits)
  show ?thesis
    using assms(1-5) d [of "AssociationRecord t"]
    by (auto simp: addLocked_def uniqueAssociationExists_def fwd_def storeTriple_def t Let_def
        split: prod.splits)
qed

lemma wf_searchGen [simp]: "coll_wf (ic\<lparr>searchGen := x\<rparr>) = coll_wf ic" "triples (ic\<lparr>searchGen := x\<rparr>) = triples ic"
proof -
  note io = index_step_obs [OF index_step_upd(3) [of ic x]]
  note tr = same_trie_lookup [OF same_trie_upd(5) [of ic x]]
  have sets: "sets_ok (ic\<lparr>searchGen := x\<rparr>) = sets_ok ic" by (simp add: sets_ok_def)
  have named: "triple_named (ic\<lparr>searchGen := x\<rparr>) = triple_named ic" by (rule named_same) simp
  have "idx_wf (ic\<lparr>searchGen := x\<rparr>) = idx_wf ic"
    unfolding idx_wf_def sets io named tr by (simp add: fwd_def bwd_def)
  moreover have "persisted (ic\<lparr>searchGen := x\<rparr>) = persisted ic" by (simp add: persisted_def io)
  ultimately show "coll_wf (ic\<lparr>searchGen := x\<rparr>) = coll_wf ic" unfolding coll_wf_def io tr(4) by simp
  show "triples (ic\<lparr>searchGen := x\<rparr>) = triples ic" unfolding triples_def io tr(3) ..
qed

lemma addLocked_spec:
  assumes "writable ic" "storable3 s r v" "room (need3 s r v) ic" "addLocked s r v ic = (e, ic')"
  shows "e = None" and "coll_wf ic'" and "triples ic' = insert \<lparr>Key = s, Value1 = r, Value2 = v\<rparr> (triples ic)"
    and "same_config ic ic'"
    and "unat (totalEntries ic') \<le> unat (totalEntries ic) + need3 s r v"
proof -
  obtain k l ic1 v1 l1 ic2 v2 l2 ic3 where i: "insertLocked s ic = ((k, l), ic1)"
    "insertLocked r ic1 = ((v1, l1), ic2)" "insertLocked v ic2 = ((v2, l2), ic3)"
    by (metis prod.collapse)
  have wf: "coll_wf ic" "\<not> readOnly ic" "ioErr ic = None" using assms(1) by (auto simp: writable_def)
  note ins = three_inserts [OF wf(1) assms(2,3) i]
  note g = wf_grows [OF wf(1) ins(1)]
  note w3 = wfD [OF g(1)]
  define t where "t = \<lparr>t_Level = l, t_Key = k, t_Value1Level = l1, t_Value1 = v1, t_Value2Level = l2, t_Value2 = v2\<rparr>"
  let ?st = "\<lparr>Key = s, Value1 = r, Value2 = v\<rparr>"
  have n: "triple_named ic3 t"
    using ins(2-4) assms(2) by (auto simp: t_def triple_named_def named_def storable3_def)
  have mst: "makeStringTriple ic3 t = ?st"
    using ins(2-4) assms(2) lookupEntry_value [OF w3(1)]
    by (auto simp: t_def makeStringTriple_def storable3_def)
  note unf = addLocked_unfold [OF wf(2,3) i w3(2) t_def]
  have "e = None \<and> coll_wf ic' \<and> triples ic' = insert ?st (triples ic) \<and> same_config ic ic' \<and>
      totalEntries ic' = totalEntries ic3"
  proof (cases "fwd ic3 l k v1 v2 = None")
    case False
    then have "?st \<in> triples ic3"
      unfolding mem_triples [OF g(1)] using ins(2-4) assms(2) by (auto simp: storable3_def)
    with False unf assms(4) g grows_config [OF ins(1)] show ?thesis by auto
  next
    case True
    obtain p ic4 where st: "storeTriple t ic3 = (p, ic4)" by force
    define ic5 where "ic5 = insertAssociation l t p ic4"
    have new: "fwd ic3 (t_Level t) (t_Key t) (t_Value1 t) (t_Value2 t) = None"
      using True by (simp add: t_def)
    have ins5: "insertAssociation (t_Level t) t p ic4 = ic5" by (simp add: ic5_def t_def)
    note ra = record_added [OF g(1) n new st ins5]
    have "e = None" "ic' = ic5\<lparr>searchGen := searchGen ic5 + 1\<rparr>"
      using unf assms(4) True st by (auto simp: ic5_def Let_def)
    moreover have "same_config ic3 ic5" using ra(3-6) by (simp add: same_config_def same_trie_def)
    ultimately show ?thesis
      using ra(1-3) mst g(2) same_config_trans [OF grows_config [OF ins(1)]]
      by (auto simp: same_config_def same_trie_def)
  qed
  then show "e = None" and "coll_wf ic'" and "triples ic' = insert ?st (triples ic)" and "same_config ic ic'"
    and "unat (totalEntries ic') \<le> unat (totalEntries ic) + need3 s r v"
    using ins(5) by auto
qed

section \<open>Delete\<close>

text \<open>Looking strings up only grows the level list.\<close>

lemma getEntryFromString_grows:
  assumes "trie_wf ic" "store_inv ic" "getEntryFromString v ic = (e, ic')"
  shows "e = lookupEntry ic v" and "grows ic ic'" and "same_trie ic ic'"
proof -
  obtain n where "getEntryFromString v ic = (lookupEntry ic v, secureLevelInIndex n ic)"
    by (rule getEntryFromString_spec)
  with assms grows_secureLevel [OF assms(1,2)]
  show "e = lookupEntry ic v" and "grows ic ic'" and "same_trie ic ic'" by auto
qed

text \<open>What \<open>deleteLocked\<close> does once its lookups are made; \<open>ic1\<close> is the state after them.\<close>

definition dropReverse :: "int \<Rightarrow> u64 \<Rightarrow> u64 \<Rightarrow> u64 \<Rightarrow> collection \<Rightarrow> collection" where
  "dropReverse l2 v2 v1 k =
     updReverseAssociationsTree l2 (updStored v2 (as_Delete \<lparr>AssociateTo = k, Relation = v1\<rparr>))"

definition deleteResult ::
    "string \<Rightarrow> string \<Rightarrow> string \<Rightarrow> collection \<Rightarrow> collection \<Rightarrow> (message \<times> bool) \<times> collection" where
  "deleteResult s r v ic ic1 =
     (case (lookupEntry ic s, lookupEntry ic r, lookupEntry ic v) of
        (None, _, _) \<Rightarrow> ((didNotFindKey s, False), ic1)
      | (Some (k, l), Some (v1, _), Some (v2, l2)) \<Rightarrow>
          (case fwd ic l k v1 v2 of
             Some pos \<Rightarrow>
               (let ic2 = dropReverse l2 v2 v1 k (freeTriple pos (updAssociationsTree l
                      (updStored k (as_Delete \<lparr>AssociateTo = v2, Relation = v1\<rparr>)) ic1))
                in ((Text '''', True), ic2\<lparr>searchGen := searchGen ic2 + 1\<rparr>))
           | None \<Rightarrow>
               (if bwd ic l2 v2 v1 k \<noteq> None then
                  ((Text (''removed stale reverse-index entry for '' @ quoted s @ '' '' @ r @ '' '' @
                          quoted v), True), dropReverse l2 v2 v1 k ic1)
                else ((didNotFindValue r v, False), ic1)))
      | _ \<Rightarrow> ((didNotFindValue r v, False), ic1))"

lemma deleteLocked_unfold:
  assumes "coll_wf ic" "\<not> readOnly ic"
  obtains ic1 where "grows ic ic1" "same_trie ic ic1" "deleteLocked s r v ic = deleteResult s r v ic ic1"
proof -
  obtain ek ica where a: "getEntryFromString s ic = (ek, ica)" by force
  obtain e1 icb where b: "getEntryFromString r ica = (e1, icb)" by force
  obtain e2 icc where c: "getEntryFromString v icb = (e2, icc)" by force
  obtain e3 icd where d: "getEntryFromString s icc = (e3, icd)" by force
  obtain e4 ice where e: "getEntryFromString s icd = (e4, ice)" by force
  note w = wfD [OF assms(1)]
  note ga = getEntryFromString_grows [OF w(1,2) a]
  note gb = getEntryFromString_grows [OF grows_wf [OF ga(2)] b]
  note gc = getEntryFromString_grows [OF grows_wf [OF gb(2)] c]
  note gd = getEntryFromString_grows [OF grows_wf [OF gc(2)] d]
  note ge = getEntryFromString_grows [OF grows_wf [OF gd(2)] e]
  have s2: "same_trie ic icb" by (rule same_trie_trans [OF ga(3) gb(3)])
  have g1: "grows ic icc" "same_trie ic icc"
    by (rule grows_trans [OF grows_trans [OF ga(2) gb(2)] gc(2)]) (rule same_trie_trans [OF s2 gc(3)])
  have g2: "grows ic icd" "same_trie ic icd"
    by (rule grows_trans [OF g1(1) gd(2)]) (rule same_trie_trans [OF g1(2) gd(3)])
  have g3: "grows ic ice" "same_trie ic ice"
    by (rule grows_trans [OF g2(1) ge(2)]) (rule same_trie_trans [OF g2(2) ge(3)])
  have es: "ek = lookupEntry ic s" "e1 = lookupEntry ic r" "e2 = lookupEntry ic v"
    "e3 = lookupEntry ic s" "e4 = lookupEntry ic s"
    using ga(1) gb(1) gc(1) gd(1) ge(1) same_trie_lookup(1) [OF ga(3)] same_trie_lookup(1) [OF s2]
      same_trie_lookup(1) [OF g1(2)] same_trie_lookup(1) [OF g2(2)] by simp_all
  have f: "fwd icd = fwd ic" "bwd icd = bwd ic" using wf_grows [OF assms(1) g2(1)] by simp_all
  have wd: "writeToDisk (updAssociationsTree l f icd) = writeToDisk icd" for l f
    by (rule index_step_obs) simp
  show thesis
  proof (cases "lookupEntry ic s")
    case None
    with a b c es that [OF g1] assms(2) show thesis by (simp add: deleteLocked_def deleteResult_def)
  next
    case (Some kl)
    then obtain k l where kl: "lookupEntry ic s = Some (k, l)" by force
    show thesis
    proof (cases "lookupEntry ic r = None \<or> lookupEntry ic v = None")
      case True
      with kl a b c es that [OF g1] assms(2) show thesis
        by (auto simp: deleteLocked_def deleteResult_def split: option.splits)
    next
      case False
      then obtain v1 l1 v2 l2 where v12: "lookupEntry ic r = Some (v1, l1)"
        "lookupEntry ic v = Some (v2, l2)" by (metis option.exhaust surj_pair)
      have get: "as_Get (getAssociations icd l k) \<lparr>AssociateTo = v2, Relation = v1\<rparr> = fwd ic l k v1 v2"
        "as_Get (getReverseAssociations icd l2 v2) \<lparr>AssociateTo = k, Relation = v1\<rparr> = bwd ic l2 v2 v1 k"
        using f by (simp_all add: fwd_def [symmetric] bwd_def [symmetric])
      show thesis
      proof (cases "fwd ic l k v1 v2")
        case None
        then show thesis
          using that [OF g2] that [OF g3] kl v12 get a b c d e es assms(2)
          by (cases "bwd ic l2 v2 v1 k = None")
            (simp_all add: deleteLocked_def deleteResult_def Let_def dropReverse_def)
      next
        case (Some pos)
        with that [OF g2] kl v12 get a b c d es assms(2) show thesis
          by (simp add: deleteLocked_def deleteResult_def deleteAssociation_def freeTriple_def Let_def
              wd dropReverse_def)
      qed
    qed
  qed
qed

lemma deleteLocked_spec:
  assumes wf: "coll_wf ic" and ro: "\<not> readOnly ic" and st: "storable3 s r v"
    and del: "deleteLocked s r v ic = ((msg, ok), ic')"
  shows "coll_wf ic'" and "triples ic' = triples ic - {\<lparr>Key = s, Value1 = r, Value2 = v\<rparr>}"
    and "ok \<longleftrightarrow> \<lparr>Key = s, Value1 = r, Value2 = v\<rparr> \<in> triples ic"
    and "ok \<Longrightarrow> msg = Text ''''" and "same_config ic ic'" and "totalEntries ic' = totalEntries ic"
    and "\<not> ok \<Longrightarrow> msg = (if lookupEntry ic s = None then didNotFindKey s else didNotFindValue r v)"
proof -
  let ?st = "\<lparr>Key = s, Value1 = r, Value2 = v\<rparr>"
  obtain ic1 where g: "grows ic ic1" "same_trie ic ic1" and
    eq: "deleteLocked s r v ic = deleteResult s r v ic ic1" by (rule deleteLocked_unfold [OF wf ro])
  note w = wfD [OF wf] and wg = wf_grows [OF wf g(1)]
  have te: "totalEntries ic1 = totalEntries ic" using g(2) by (simp add: same_trie_def)
  have mem: "?st \<in> triples ic \<longleftrightarrow> (\<exists>k l v1 l1 v2 l2. lookupEntry ic s = Some (k, l) \<and>
      lookupEntry ic r = Some (v1, l1) \<and> lookupEntry ic v = Some (v2, l2) \<and> fwd ic l k v1 v2 \<noteq> None)"
    using st by (simp add: mem_triples [OF wf] storable3_def)
  have "coll_wf ic' \<and> triples ic' = triples ic - {?st} \<and> (ok \<longleftrightarrow> ?st \<in> triples ic) \<and>
    (ok \<longrightarrow> msg = Text '''') \<and> same_config ic ic' \<and> totalEntries ic' = totalEntries ic \<and>
    (\<not> ok \<longrightarrow> msg = (if lookupEntry ic s = None then didNotFindKey s else didNotFindValue r v))"
  proof (cases "?st \<in> triples ic")
    case True
    then obtain k l v1 l1 v2 l2 p where e: "lookupEntry ic s = Some (k, l)"
      "lookupEntry ic r = Some (v1, l1)" "lookupEntry ic v = Some (v2, l2)" "fwd ic l k v1 v2 = Some p"
      unfolding mem by blast
    from e(4) idx_wfD(3) [OF w(3)] obtain t where t: "record_at ic p = Some t" "t_Level t = l"
      "t_Key t = k" "t_Value1 t = v1" "t_Value2 t = v2" by blast
    have n: "named ic l2 v2" "named ic l1 v1" using e st by (auto simp: named_def storable3_def)
    note tn = idx_wfD(2) [OF w(3) t(1)]
    have l2: "t_Value2Level t = l2" "t_Value1Level t = l1"
      using tn n t named_level [OF w(1)] by (auto simp: triple_named_def)
    have mst: "makeStringTriple ic1 t = ?st"
      using e st t l2 lookupEntry_value [OF w(1)] same_trie_lookup(3) [OF g(2)]
      by (simp add: makeStringTriple_def storable3_def)
    have "intern_ext ic ic1" using g(1) by (simp add: grows_def)
    then have rec1: "record_at ic1 p = Some t" using t(1) intern_extD(4) by metis
    define ic2 where "ic2 = updAssociationsTree (t_Level t)
      (updStored (t_Key t) (as_Delete \<lparr>AssociateTo = t_Value2 t, Relation = t_Value1 t\<rparr>)) ic1"
    define ic3 where "ic3 = updReverseAssociationsTree (t_Value2Level t)
      (updStored (t_Value2 t) (as_Delete \<lparr>AssociateTo = t_Key t, Relation = t_Value1 t\<rparr>)) (freeTriple p ic2)"
    note rr = record_removed [OF wg(1) rec1 ic2_def ic3_def]
    have "((msg, ok), ic') = ((Text '''', True), ic3\<lparr>searchGen := searchGen ic3 + 1\<rparr>)"
      using del eq e t l2 by (simp add: ic3_def ic2_def Let_def deleteResult_def dropReverse_def)
    moreover have "same_config ic1 ic3" using rr(3-6) by (simp add: same_config_def same_trie_def)
    ultimately show ?thesis
      using rr(1-3) mst True wg(2) te same_config_trans [OF grows_config [OF g(1)]]
      by (auto simp: same_config_def same_trie_def)
  next
    case False
    have nb: "bwd ic l2 v2 v1 k = None" if "lookupEntry ic s = Some (k, l)"
      "lookupEntry ic r = Some (v1, l1)" "lookupEntry ic v = Some (v2, l2)" for k l v1 l1 v2 l2
    proof (rule ccontr)
      assume "bwd ic l2 v2 v1 k \<noteq> None"
      then obtain p t where t: "record_at ic p = Some t" "t_Key t = k" "t_Value1 t = v1" "t_Value2 t = v2"
        using idx_wfD(4) [OF w(3)] by blast
      have "named ic l k" using that(1) st by (auto simp: named_def storable3_def)
      with t idx_wfD(2) [OF w(3) t(1)] have "t_Level t = l"
        using named_level [OF w(1)] by (auto simp: triple_named_def)
      with t idx_wfD(3) [OF w(3), of l k v1 v2 p] have "fwd ic l k v1 v2 \<noteq> None" by auto
      with False that show False unfolding mem by blast
    qed
    have "\<not> ok \<and> ic' = ic1 \<and> msg = (if lookupEntry ic s = None then didNotFindKey s else didNotFindValue r v)"
      using False del eq nb unfolding mem deleteResult_def by (auto split: option.splits prod.splits)
    with False wg te grows_config [OF g(1)] show ?thesis by simp
  qed
  then show "coll_wf ic'" and "triples ic' = triples ic - {?st}" and "ok \<longleftrightarrow> ?st \<in> triples ic"
    and "ok \<Longrightarrow> msg = Text ''''" and "same_config ic ic'" and "totalEntries ic' = totalEntries ic"
    and "\<not> ok \<Longrightarrow> msg = (if lookupEntry ic s = None then didNotFindKey s else didNotFindValue r v)"
    by blast+
qed

end
