(* ===== verification/Load_DB.thy ===== *)
theory Load_DB
  imports Index_Correct
begin

text \<open>
  Building a collection (\<open>initialize\<close> of \<^verbatim>\<open>tiedb/tietree.go\<close>) and loading it from its record file
  (\<open>loadDB\<close>, \<open>loadPass\<close>, \<open>initDBSize\<close>, \<open>dBWriter\<close> of \<^verbatim>\<open>tiedb/filehandling.go\<close>). The theory shows that
  a new collection satisfies the invariants; that loading a file gives the triples back is shown in
  \<open>Load_Correct\<close>.
\<close>

section \<open>A new collection\<close>



definition newCollection ::
    "bool \<Rightarrow> bool \<Rightarrow> string list option \<Rightarrow> BlobPolicy option \<Rightarrow> int \<Rightarrow> collection" where
  "newCollection toDisk ro reverse policy maxBytes =
     (let ic = \<lparr>totalEntries = 0, totalAssociations = 0, levels = [], blobPolicy = None,
          hashEntries = None, hashValues = None, hashAssociations = None,
          hashReverseAssociations = None, reverseRelations = None, cache = None, arena = [],
          arenaFree = [], dBWriteQueue = [], freespace = [], writeToDisk = toDisk, readOnly = ro,
          lockHeld = False, writerGone = False, closed = False, closeSignals = 0, db_file = None, ioErr = None,
          selects = [], db_size = 0, searchGen = 0, searchCache = [], searchBytes = 0,
          searchMaxBytes = maxBytes, searchUse = 0\<rparr>;
          ic = SetReverseRelations reverse ic;
          ic = SetBlobPolicy policy ic
      in if toDisk then ic\<lparr>cache := Some (newTripleCache (int defaultTripleCacheSize))\<rparr> else ic)"

lemma newCollection_obs:
  "getUniqueValue (newCollection d r rs pol mb) = (\<lambda>_ _. None)"
  "uniqueValueId (newCollection d r rs pol mb) = (\<lambda>_ _. None)"
  "hashEntry (newCollection d r rs pol mb) = (\<lambda>_. None)"
  "hashId (newCollection d r rs pol mb) = (\<lambda>_. None)"
  "getAssociations (newCollection d r rs pol mb) = (\<lambda>_ _. newAssociationSet)"
  "getReverseAssociations (newCollection d r rs pol mb) = (\<lambda>_ _. newAssociationSet)"
  by (auto simp: newCollection_def SetReverseRelations_def SetBlobPolicy_def fun_eq_iff Let_def
      getUniqueValue_def uniqueValueId_def hashEntry_def hashId_def getAssociations_def
      getReverseAssociations_def associationsTree_def reverseAssociationsTree_def levelAt_def
      split: option.splits)

lemma newCollection_fields [simp]:
  "blobPolicy (newCollection d r rs pol mb) = pol"
  "writeToDisk (newCollection d r rs pol mb) = d" "readOnly (newCollection d r rs pol mb) = r"
  "ioErr (newCollection d r rs pol mb) = None" "totalEntries (newCollection d r rs pol mb) = 0"
  "db_file (newCollection d r rs pol mb) = None"
  "arena (newCollection d r rs pol mb) = []" "arenaFree (newCollection d r rs pol mb) = []"
  "levels (newCollection d r rs pol mb) = []"
  "reverseRelations (newCollection d r rs pol mb) = map_option remdups rs"
  by (simp_all add: newCollection_def SetReverseRelations_def SetBlobPolicy_def Let_def
      split: option.splits)

lemma newCollection_hash:
  "pol \<noteq> None \<Longrightarrow> hashEntries (newCollection d r rs pol mb) \<noteq> None"
  "pol \<noteq> None \<Longrightarrow> hashValues (newCollection d r rs pol mb) \<noteq> None"
  "pol \<noteq> None \<Longrightarrow> hashAssociations (newCollection d r rs pol mb) \<noteq> None"
  "pol \<noteq> None \<Longrightarrow> hashReverseAssociations (newCollection d r rs pol mb) \<noteq> None"
  "hashAssociations (newCollection d r rs pol mb) \<in> {None, Some (newLockedTree uint64Hash)}"
  "hashReverseAssociations (newCollection d r rs pol mb) \<in> {None, Some (newLockedTree uint64Hash)}"
  by (auto simp: newCollection_def SetReverseRelations_def SetBlobPolicy_def Let_def
      split: option.splits)

lemma trie_wf_new:
  "(\<And>p. pol = Some p \<Longrightarrow> policy_ok p) \<Longrightarrow> trie_wf (newCollection d r rs pol mb)"
  using newCollection_hash(1,2) [of pol d r rs mb] by (auto simp: trie_wf_def newCollection_obs)

lemma sets_ok_new: "sets_ok (newCollection d r rs pol mb)"
  using newCollection_hash(3,4) [of pol d r rs mb] newCollection_hash(5,6) [of d r rs pol mb]
  by (auto simp: sets_ok_def newCollection_obs associationsTree_def reverseAssociationsTree_def
      levelAt_def split: if_splits)

lemma wf_newMemory:
  assumes "\<And>p. pol = Some p \<Longrightarrow> policy_ok p"
  shows "coll_wf (newCollection False r rs pol mb)" and "triples (newCollection False r rs pol mb) = {}"
proof -
  let ?ic = "newCollection False r rs pol mb"
  have rec: "record_at ?ic = Map.empty"
    by (auto simp: fun_eq_iff record_at_def arena_rec_def arenaLoad_def)
  then show "triples ?ic = {}" by (simp add: triples_def)
  have "idx_wf ?ic"
    by (simp add: idx_wf_def sets_ok_new rec fwd_def bwd_def newCollection_obs)
  moreover have "store_inv ?ic" by (simp add: store_inv_def arena_inv_def)
  ultimately show "coll_wf ?ic"
    using trie_wf_new [of pol False r rs mb] assms by (simp add: coll_wf_def persisted_def)
qed

lemma writable_newMemory: "writable (newCollection False False rs None mb)"
  using wf_newMemory [of None] by (simp add: writable_def)

lemma room_newMemory: "n < 2 ^ 64 \<Longrightarrow> room n (newCollection d r rs pol mb)"
  by (simp add: room_def)

section \<open>Loading the record file\<close>

record RawDataEntry =
  Position :: int
  Data :: "byte list"

text \<open>\<open>None\<close> is the nil dereference of a record that names a tree the collection does not have.\<close>

definition loadEntry :: "RawDataEntry \<Rightarrow> collection \<Rightarrow> collection option" where
  "loadEntry e ic =
     (if recordType (Data e) = TYPE_ENTRY then
        (let (level, entryID, uv) = bufToEntry (Data e)
         in if level < 0 then None else Some (insertEntry level entryID uv (bumpTotalEntries entryID ic)))
      else if recordType (Data e) = TYPE_HASH then
        (let (entryID, raw) = bufToHash (Data e)
         in if hashEntries ic = None then None else Some (loadHash entryID raw ic))
      else if recordType (Data e) = TYPE_DELETE then Some (freeSlot (Position e) ic)
      else Some ic)"

definition loadAssociation :: "RawDataEntry \<Rightarrow> collection \<Rightarrow> collection option" where
  "loadAssociation e ic =
     (case bufToAssociation (Data e) of
        None \<Rightarrow> Some ic
      | Some a \<Rightarrow>
          if insertAssociation_panics (t_Level a) a ic then None
          else Some (insertAssociation (t_Level a) a (Position e) ic))"

text \<open>
  The records reach the eight workers in an order the scheduler picks. A worker handles one record
  at a time with operations that are atomic on the maps, so a pass is the sequence of its records
  in some order.
\<close>

fun runWorkers ::
    "(RawDataEntry \<Rightarrow> collection \<Rightarrow> collection option) \<Rightarrow> RawDataEntry list \<Rightarrow> collection \<Rightarrow> collection option" where
  "runWorkers worker [] ic = Some ic"
| "runWorkers worker (e # es) ic =
     (case worker e ic of None \<Rightarrow> None | Some ic \<Rightarrow> runWorkers worker es ic)"

definition loadEntries :: "RawDataEntry list \<Rightarrow> collection \<Rightarrow> collection option" where
  "loadEntries = runWorkers loadEntry"

definition loadAssociations :: "RawDataEntry list \<Rightarrow> collection \<Rightarrow> collection option" where
  "loadAssociations = runWorkers loadAssociation"

text \<open>
  The reading loop of \<open>loadPass\<close>: a buffer at a time, whole frames only. \<open>entry\<close> counts the frames
  read so far; \<open>bufLen\<close> is a multiple of the frame size (a million frames in the source).
\<close>

definition cutFrames :: "nat \<Rightarrow> byte list \<Rightarrow> RawDataEntry list" where
  "cutFrames entry bs =
     map (\<lambda>i. \<lparr>Position = int ((entry + i) * ENTRY_SIZE),
               Data = slice (i * ENTRY_SIZE) (i * ENTRY_SIZE + ENTRY_SIZE) bs\<rparr>)
       [0..<length bs div ENTRY_SIZE]"

function loadPass :: "nat \<Rightarrow> nat \<Rightarrow> byte list \<Rightarrow> RawDataEntry list" where
  "loadPass bufLen entry bs =
     (let v = take bufLen bs; whole = length v div ENTRY_SIZE
      in if v = [] then []
         else cutFrames entry v @
           (if whole * ENTRY_SIZE \<noteq> length v then []
            else loadPass bufLen (entry + whole) (drop bufLen bs)))"
  by pat_completeness auto
termination
  by (relation "measure (\<lambda>(_, _, bs). length bs)") auto

declare loadPass.simps [simp del]

definition bufferSize :: nat where
  "bufferSize = ENTRY_SIZE * 1024 * 1024"

text \<open>A read-only load stops at the last whole record.\<close>

definition loadLimit :: "collection \<Rightarrow> byte list \<Rightarrow> byte list" where
  "loadLimit ic bs = (if readOnly ic then take (length bs - length bs mod ENTRY_SIZE) bs else bs)"

text \<open>The orders the two passes run in are parameters; \<open>load_order\<close> says which there can be.\<close>

definition load_order :: "collection \<Rightarrow> byte list \<Rightarrow> RawDataEntry list \<Rightarrow> bool" where
  "load_order ic bs es \<longleftrightarrow> mset es = mset (loadPass bufferSize 0 (loadLimit ic bs))"

definition loadDB ::
    "RawDataEntry list \<Rightarrow> RawDataEntry list \<Rightarrow> collection \<Rightarrow> collection option" where
  "loadDB es as ic = (case loadEntries es ic of None \<Rightarrow> None | Some ic \<Rightarrow> loadAssociations as ic)"

section \<open>Starting the writer\<close>

text \<open>The end of the last whole record is the append position; a partial tail is cut off.\<close>

definition initDBSize :: "byte list \<Rightarrow> collection \<Rightarrow> byte list \<times> collection" where
  "initDBSize bs ic =
     (let rem = length bs mod ENTRY_SIZE; trimmed = length bs - rem
      in (take trimmed bs, ic\<lparr>db_size := int trimmed\<rparr>))"

definition initReadSize :: "byte list \<Rightarrow> collection \<Rightarrow> collection" where
  "initReadSize bs ic = ic\<lparr>db_size := int (length bs - length bs mod ENTRY_SIZE)\<rparr>"

definition openFile :: "byte list \<Rightarrow> dbFile" where
  "openFile bs = \<lparr>db_bytes = bs, db_synced = bs, db_faults = []\<rparr>"

text \<open>
  \<open>dBWriter\<close> up to the start of the goroutine; the errors are those of the sizing and the opening.
  On failure \<open>writerDone\<close> is closed at once.
\<close>

definition dBWriter :: "byte list \<Rightarrow> string option \<Rightarrow> string option \<Rightarrow> collection \<Rightarrow> collection" where
  "dBWriter bs sizeErr openErr ic =
     (let ic = ic\<lparr>dBWriteQueue := []\<rparr>
      in case sizeErr of
           Some e \<Rightarrow> (setIOErr (ErrIO e) ic)\<lparr>writerGone := True\<rparr>
         | None \<Rightarrow>
             (let (bs, ic) = initDBSize bs ic
              in case openErr of
                   Some e \<Rightarrow> (setIOErr (ErrIO e) ic)\<lparr>writerGone := True\<rparr>
                 | None \<Rightarrow> ic\<lparr>db_file := Some (openFile bs)\<rparr>))"

end
