(* ===== verification/Sort_Page.thy ===== *)
theory Sort_Page
  imports Load_DB Complex_Main
begin

text \<open>
  \<^verbatim>\<open>tiedb/sort.go\<close>: resolving the entries of an association set into strings, ordering them, and
  cutting out a page. Reads go through the triple cache and the write queue, so every operation
  passes the collection on. A Go panic is the result \<open>None\<close>.
\<close>

section \<open>Options and numbers\<close>

record SortOptions =
  Offset :: int
  Limit :: int
  SortBy :: string
  SortByValue :: string
  SortByValueNumeric :: bool
  Descending :: bool

text \<open>\<^verbatim>\<open>SortOptions{Limit: -1}\<close>.\<close>

definition unlimited :: SortOptions where
  "unlimited = \<lparr>Offset = 0, Limit = -1, SortBy = '''', SortByValue = '''',
     SortByValueNumeric = False, Descending = False\<rparr>"

text \<open>A \<open>float64\<close>; the finite ones as rationals (both zeroes are \<open>0\<close>, which compare equal).\<close>

datatype float64 = NaN | NegInf | Fin rat | PosInf

fun floatRank :: "float64 \<Rightarrow> int" where
  "floatRank NaN = 0"
| "floatRank NegInf = 1"
| "floatRank (Fin _) = 2"
| "floatRank PosInf = 3"

text \<open>\<^verbatim>\<open>cmp.Compare\<close> (NaN below everything) and the operator \<open><\<close> (false for NaN).\<close>

fun floatCompare :: "float64 \<Rightarrow> float64 \<Rightarrow> int" where
  "floatCompare (Fin a) (Fin b) = cmpCompare a b"
| "floatCompare a b = cmpCompare (floatRank a) (floatRank b)"

definition floatLess :: "float64 \<Rightarrow> float64 \<Rightarrow> bool" where
  "floatLess a b \<longleftrightarrow> a \<noteq> NaN \<and> b \<noteq> NaN \<and> floatCompare a b < 0"

text \<open>Addition of two Go \<open>int\<close>s wraps around.\<close>

definition int_add :: "int \<Rightarrow> int \<Rightarrow> int" where
  "int_add a b = sint (word_of_int (a + b) :: u64)"

section \<open>Resolving entries\<close>

type_synonym assocEntries = "(UniqueAssociation \<times> int) list"

fun resolveEntries :: "assocEntries \<Rightarrow> collection \<Rightarrow> StringTriple list \<times> collection" where
  "resolveEntries [] ic = ([], ic)"
| "resolveEntries ((ua, pos) # es) ic =
     (case resolveEntry ua pos ic of
        (None, ic) \<Rightarrow> resolveEntries es ic
      | (Some t, ic) \<Rightarrow>
          (let (sts, ic') = resolveEntries es ic in (makeStringTriple ic t # sts, ic')))"

text \<open>The values a key holds under a relation id.\<close>

fun relationEntries :: "u64 \<Rightarrow> assocEntries \<Rightarrow> collection \<Rightarrow> string list \<times> collection" where
  "relationEntries relationID [] ic = ([], ic)"
| "relationEntries relationID ((ua, pos) # es) ic =
     (if Relation ua \<noteq> relationID then relationEntries relationID es ic
      else
        case resolveEntry ua pos ic of
          (None, ic) \<Rightarrow> relationEntries relationID es ic
        | (Some t, ic) \<Rightarrow>
            if t_Value1 t \<noteq> relationID then relationEntries relationID es ic
            else (let (vs, ic') = relationEntries relationID es ic
                  in (getValueString ic (t_Value2Level t) (t_Value2 t) # vs, ic')))"

definition relationValues :: "string \<Rightarrow> string \<Rightarrow> collection \<Rightarrow> string list option \<times> collection" where
  "relationValues key relation ic =
     (case GetAssociations key ic of
        ((_, False), ic) \<Rightarrow> (None, ic)
      | ((tree, True), ic) \<Rightarrow>
          (case getEntryFromString relation ic of
             (None, ic) \<Rightarrow> (None, ic)
           | (Some (relationID, _), ic) \<Rightarrow>
               (let (out, ic) = relationEntries relationID (as_ForEach tree) ic
                in (if out = [] then None else Some out, ic))))"

fun smallest :: "string list \<Rightarrow> string" where
  "smallest [] = ''''"
| "smallest (v # vs) = fold (\<lambda>v best. if v < best then v else best) vs v"

definition firstValueOf :: "string \<Rightarrow> string \<Rightarrow> collection \<Rightarrow> string \<times> collection" where
  "firstValueOf key relation ic =
     (case relationValues key relation ic of
        (None, ic) \<Rightarrow> ('''', ic)
      | (Some values, ic) \<Rightarrow> (smallest values, ic))"

definition smallestNumber :: "(string \<Rightarrow> float64 option) \<Rightarrow> string list \<Rightarrow> float64 option" where
  "smallestNumber parseFloat values =
     fold (\<lambda>v best.
       case parseFloat v of
         None \<Rightarrow> best
       | Some n \<Rightarrow>
           (case best of
              None \<Rightarrow> Some n
            | Some b \<Rightarrow> if floatLess n b then Some n else Some b)) values None"

definition firstNumberOf ::
    "(string \<Rightarrow> float64 option) \<Rightarrow> string \<Rightarrow> string \<Rightarrow> collection \<Rightarrow> float64 option \<times> collection" where
  "firstNumberOf parseFloat key relation ic =
     (case relationValues key relation ic of
        (None, ic) \<Rightarrow> (None, ic)
      | (Some values, ic) \<Rightarrow> (smallestNumber parseFloat values, ic))"

text \<open>
  The lookup of each distinct key, made once and kept in a map. The Go code makes them from inside
  the comparator; here they are made in the order of the list before sorting, and not at all when
  there is nothing to compare.
\<close>

fun lookupEach ::
    "(string \<Rightarrow> collection \<Rightarrow> 'v \<times> collection) \<Rightarrow> string list \<Rightarrow> collection
       \<Rightarrow> (string \<times> 'v) list \<times> collection" where
  "lookupEach f [] ic = ([], ic)"
| "lookupEach f (k # ks) ic =
     (let (v, ic) = f k ic; (vs, ic) = lookupEach f ks ic in ((k, v) # vs, ic))"

section \<open>Ordering\<close>

definition compareTriples :: "StringTriple \<Rightarrow> StringTriple \<Rightarrow> int" where
  "compareTriples a b =
     (if cmpCompare (Key a) (Key b) \<noteq> 0 then cmpCompare (Key a) (Key b)
      else if cmpCompare (Value1 a) (Value1 b) \<noteq> 0 then cmpCompare (Value1 a) (Value1 b)
      else cmpCompare (Value2 a) (Value2 b))"

definition negated :: "bool \<Rightarrow> int \<Rightarrow> int" where
  "negated descending n = (if descending then - n else n)"

definition cmpByNumber ::
    "(string \<Rightarrow> float64 option) \<Rightarrow> bool \<Rightarrow> StringTriple \<Rightarrow> StringTriple \<Rightarrow> int" where
  "cmpByNumber numberOf descending a b =
     (case (numberOf (Key a), numberOf (Key b)) of
        (Some na, Some nb) \<Rightarrow>
          negated descending
            (if floatCompare na nb = 0 then cmpCompare (Key a) (Key b) else floatCompare na nb)
      | (None, None) \<Rightarrow> cmpCompare (Key a) (Key b)
      | (Some _, None) \<Rightarrow> -1
      | (None, Some _) \<Rightarrow> 1)"

definition cmpByValue ::
    "(string \<Rightarrow> string) \<Rightarrow> bool \<Rightarrow> StringTriple \<Rightarrow> StringTriple \<Rightarrow> int" where
  "cmpByValue valueOf descending a b =
     negated descending
       (if cmpCompare (valueOf (Key a)) (valueOf (Key b)) = 0 then cmpCompare (Key a) (Key b)
        else cmpCompare (valueOf (Key a)) (valueOf (Key b)))"

definition cmpByRelation :: "string \<Rightarrow> bool \<Rightarrow> StringTriple \<Rightarrow> StringTriple \<Rightarrow> int" where
  "cmpByRelation sortBy descending a b =
     negated descending
       (if Value1 a \<noteq> sortBy then 1
        else if Value1 b \<noteq> sortBy then -1
        else if cmpCompare (Key a) (Key b) = 0 then cmpCompare (Value2 a) (Value2 b)
        else cmpCompare (Key a) (Key b))"

definition orderTriples ::
    "(string \<Rightarrow> float64 option) \<Rightarrow> SortOptions \<Rightarrow> StringTriple list \<Rightarrow> collection
       \<Rightarrow> StringTriple list \<times> collection" where
  "orderTriples parseFloat opts srt ic =
     (let keys = (if length srt < 2 then [] else remdups (map Key srt))
      in if SortByValue opts \<noteq> '''' \<and> SortByValueNumeric opts then
           (let (m, ic) = lookupEach (\<lambda>k. firstNumberOf parseFloat k (SortByValue opts)) keys ic
            in (sort_by (cmpByNumber (\<lambda>k. Option.bind (map_of m k) id) (Descending opts)) srt, ic))
         else if SortByValue opts \<noteq> '''' then
           (let (m, ic) = lookupEach (\<lambda>k. firstValueOf k (SortByValue opts)) keys ic
            in (sort_by (cmpByValue (\<lambda>k. case map_of m k of None \<Rightarrow> '''' | Some v \<Rightarrow> v) (Descending opts))
                  srt, ic))
         else if SortBy opts = '''' then
           (sort_by (\<lambda>a b. negated (Descending opts) (compareTriples a b)) srt, ic)
         else (sort_by (cmpByRelation (SortBy opts) (Descending opts)) srt, ic))"

section \<open>Paging\<close>

text \<open>\<^verbatim>\<open>xs[lo:hi]\<close>; \<open>None\<close> is the panic of a slice out of bounds.\<close>

definition goSlice :: "int \<Rightarrow> int \<Rightarrow> 'a list \<Rightarrow> 'a list option" where
  "goSlice lo hi xs =
     (if 0 \<le> lo \<and> lo \<le> hi \<and> hi \<le> int (length xs) then Some (take (nat (hi - lo)) (drop (nat lo) xs))
      else None)"

definition paginate :: "int \<Rightarrow> int \<Rightarrow> 'a list \<Rightarrow> ('a list \<times> nat) option" where
  "paginate offs limit srt =
     (let count = int (length srt);
          offs = max offs 0
      in if count < offs then Some ([], length srt)
         else if limit < 0 \<or> count < int_add offs limit
         then map_option (\<lambda>xs. (xs, length srt)) (goSlice offs count srt)
         else map_option (\<lambda>xs. (xs, length srt)) (goSlice offs (int_add offs limit) srt))"

definition matching :: "u64 option \<Rightarrow> assocEntries \<Rightarrow> assocEntries" where
  "matching filterID es =
     (case filterID of None \<Rightarrow> es | Some rel \<Rightarrow> filter (\<lambda>e. Relation (fst e) = rel) es)"

definition compareEntries :: "UniqueAssociation \<times> int \<Rightarrow> UniqueAssociation \<times> int \<Rightarrow> int" where
  "compareEntries a b =
     (if cmpCompare (AssociateTo (fst a)) (AssociateTo (fst b)) = 0
      then cmpCompare (Relation (fst a)) (Relation (fst b))
      else cmpCompare (AssociateTo (fst a)) (AssociateTo (fst b)))"

text \<open>The outer option of \<open>sortPaged\<close> is \<open>handled\<close>; the inner one a panic.\<close>

definition sortPaged ::
    "AssociationSet \<Rightarrow> u64 option \<Rightarrow> SortOptions \<Rightarrow> collection
       \<Rightarrow> (StringTriple list \<times> nat) option option \<times> collection" where
  "sortPaged tree filterID opts ic =
     (if SortBy opts \<noteq> '''' \<or> SortByValue opts \<noteq> '''' \<or> Limit opts < 0 then (None, ic)
      else
        let all = matching filterID (as_ForEach tree);
            offs = max (Offset opts) 0;
            pageEnd = (if int_add offs (Limit opts) < int (length all)
                       then int_add offs (Limit opts) else int (length all))
        in if int (length all) > pageEnd then
             (let all = sort_by (\<lambda>a b. negated (Descending opts) (compareEntries a b)) all
              in if int (length all) < offs then (Some (Some ([], length all)), ic)
                 else case goSlice offs pageEnd all of
                   None \<Rightarrow> (Some None, ic)
                 | Some page \<Rightarrow>
                     (let (srt, ic) = resolveEntries page ic
                      in (Some (Some (srt, length all)), ic)))
           else
             (let (srt, ic) = resolveEntries all ic;
                  srt = sort_by (\<lambda>a b. negated (Descending opts) (compareTriples a b)) srt
              in (Some (if int (length srt) < offs then Some ([], length srt)
                        else Some (drop (nat offs) srt, length srt)), ic)))"

definition Sort ::
    "(string \<Rightarrow> float64 option) \<Rightarrow> AssociationSet \<Rightarrow> string \<Rightarrow> SortOptions \<Rightarrow> collection
       \<Rightarrow> (StringTriple list \<times> nat) option \<times> collection" where
  "Sort parseFloat tree value1Filter opts ic =
     (let opts = (if Limit opts = 0 then opts\<lparr>Limit := 1000\<rparr> else opts);
          (filterID, ic) =
            (if value1Filter = '''' then (Some None, ic)
             else case getEntryFromString value1Filter ic of
                    (None, ic) \<Rightarrow> (None, ic)
                  | (Some (i, _), ic) \<Rightarrow> (Some (Some i), ic))
      in case filterID of
           None \<Rightarrow> (Some ([], 0), ic)
         | Some filterID \<Rightarrow>
             case (if SortBy opts = '''' \<and> SortByValue opts = '''' \<and> 0 \<le> Limit opts
                   then sortPaged tree filterID opts ic else (None, ic)) of
               (Some page, ic) \<Rightarrow> (page, ic)
             | (None, ic) \<Rightarrow>
                 (let (srt, ic) = resolveEntries (matching filterID (as_ForEach tree)) ic;
                      (srt, ic) = orderTriples parseFloat opts srt ic
                  in (paginate (Offset opts) (Limit opts) srt, ic)))"

definition GetPage ::
    "(string \<Rightarrow> float64 option) \<Rightarrow> AssociationSet \<Rightarrow> string \<Rightarrow> SortOptions \<Rightarrow> collection
       \<Rightarrow> (StringTriple list \<times> nat) option \<times> collection" where
  "GetPage parseFloat s value1Filter opts ic = Sort parseFloat s value1Filter opts ic"

text \<open>\<^verbatim>\<open>ic.Sort(set, filter, SortOptions{Limit: -1})\<close>, which parses no number and cannot panic.\<close>

definition SortAll ::
    "AssociationSet \<Rightarrow> string \<Rightarrow> collection \<Rightarrow> (StringTriple list \<times> nat) \<times> collection" where
  "SortAll tree value1Filter ic =
     (case Sort (\<lambda>_. None) tree value1Filter unlimited ic of
        (Some r, ic) \<Rightarrow> (r, ic)
      | (None, ic) \<Rightarrow> (([], 0), ic))"

end
