(* ===== verification/Query.thy ===== *)
theory Query
  imports Sort_Page
begin

text \<open>
  \<^verbatim>\<open>tiedb/query.go\<close> and \<^verbatim>\<open>tiedb/cotags.go\<close>: the lookups by key and relation, the tag query with its
  set algebra, the expansion of keys to rows, and the co-tag query; and \<open>ForEachTriple\<close> of
  \<^verbatim>\<open>tiedb/assoc.go\<close>.
\<close>

section \<open>Lookups\<close>

definition Get :: "string \<Rightarrow> string \<Rightarrow> collection \<Rightarrow> string list option \<times> collection" where
  "Get key value1 ic =
     (case GetAssociations key ic of
        ((_, False), ic) \<Rightarrow> (None, ic)
      | ((tree, True), ic) \<Rightarrow>
          (let ((trs, total), ic) = SortAll tree value1 ic
           in (if total = 0 then None else Some (map Value2 trs), ic)))"

definition GetReverse :: "string \<Rightarrow> string \<Rightarrow> collection \<Rightarrow> string list option \<times> collection" where
  "GetReverse key value1 ic =
     (case GetReverseAssociations key ic of
        ((_, False), ic) \<Rightarrow> (None, ic)
      | ((tree, True), ic) \<Rightarrow>
          (let ((trs, total), ic) = SortAll tree value1 ic
           in (if total = 0 then None else Some (map Key trs), ic)))"

section \<open>Tag queries\<close>

record TagQuery =
  Include :: "string list"
  Exclude :: "string list"
  Scope :: string
  MissingRelation :: string
  HasRel :: string                          \<comment> \<open>\<open>HasRelation\<close>\<close>
  Reverse :: bool
  Filter :: string
  SortOpts :: SortOptions                   \<comment> \<open>\<open>Sort\<close>\<close>

text \<open>Every forward association tree, the levels in order and the hash tree last.\<close>

definition forwardForest :: "collection \<Rightarrow> (u64, AssociationSet) lockedTree list" where
  "forwardForest ic =
     map associations (levels ic) @ (case hashAssociations ic of None \<Rightarrow> [] | Some t \<Rightarrow> [t])"

definition subjectsWithRelation :: "string \<Rightarrow> collection \<Rightarrow> AssociationSet \<times> collection" where
  "subjectsWithRelation relation ic =
     (case getEntryFromString relation ic of
        (None, ic) \<Rightarrow> (newAssociationSet, ic)
      | (Some (relID, _), ic) \<Rightarrow>
          (fold (\<lambda>tree out.
             fold (\<lambda>(subjectID, cur) out.
               fold (\<lambda>(ua, pos) out.
                 if Relation ua \<noteq> relID then out
                 else as_Put \<lparr>AssociateTo = subjectID, Relation = relID\<rparr> pos out)
               (as_ForEach cur) out)
             (lt_ForEach tree) out)
           (forwardForest ic) newAssociationSet, ic))"

text \<open>\<open>None\<close>: the relation was never interned, every entry qualifies.\<close>

fun missingLoop ::
    "u64 option \<Rightarrow> assocEntries \<Rightarrow> AssociationSet \<Rightarrow> collection \<Rightarrow> AssociationSet \<times> collection" where
  "missingLoop relID [] out ic = (out, ic)"
| "missingLoop None ((key, pos) # es) out ic = missingLoop None es (as_Put key pos out) ic"
| "missingLoop (Some relID) ((key, pos) # es) out ic =
     (case resolveEntry key pos ic of
        (None, ic) \<Rightarrow> missingLoop (Some relID) es out ic
      | (Some t, ic) \<Rightarrow>
          missingLoop (Some relID) es
            (if \<not> HasRelation (getAssociations ic (t_Level t) (t_Key t)) relID
             then as_Put key pos out else out) ic)"

definition filterMissingRelation ::
    "AssociationSet \<Rightarrow> string \<Rightarrow> collection \<Rightarrow> AssociationSet \<times> collection" where
  "filterMissingRelation seed relation ic =
     (let (rel, ic) = getEntryFromString relation ic
      in missingLoop (map_option fst rel) (as_ForEach seed) newAssociationSet ic)"

text \<open>
  The outcome of the set algebra: \<open>NotFound\<close>, \<open>Empty\<close> (an unmet term), the matched set, or a nil
  dereference.
\<close>

datatype resolved = NotFound | Empty | Matches AssociationSet | Panics

text \<open>The AND terms; \<open>None\<close>: a term that nothing carries.\<close>

fun intersectTerms ::
    "string list \<Rightarrow> AssociationSet \<Rightarrow> collection \<Rightarrow> AssociationSet option \<times> collection" where
  "intersectTerms [] cur ic = (Some cur, ic)"
| "intersectTerms (tag # tags) cur ic =
     (case GetReverseAssociations tag ic of
        ((_, False), ic) \<Rightarrow> (None, ic)
      | ((other, True), ic) \<Rightarrow> intersectTerms tags (intersect cur other) ic)"

fun excludeTerms ::
    "string list \<Rightarrow> AssociationSet \<Rightarrow> collection \<Rightarrow> AssociationSet \<times> collection" where
  "excludeTerms [] cur ic = (cur, ic)"
| "excludeTerms (tag # tags) cur ic =
     (case GetReverseAssociations tag ic of
        ((_, False), ic) \<Rightarrow> excludeTerms tags cur ic
      | ((other, True), ic) \<Rightarrow> excludeTerms tags (exclude cur other) ic)"

definition scopeTerm ::
    "string \<Rightarrow> AssociationSet \<Rightarrow> collection \<Rightarrow> AssociationSet option \<times> collection" where
  "scopeTerm sc cur ic =
     (if sc = '''' then (Some cur, ic)
      else case GetReverseAssociations sc ic of
             ((_, False), ic) \<Rightarrow> (None, ic)
           | ((scopeSet, True), ic) \<Rightarrow> (Some (intersectByAssociate cur scopeSet), ic))"

definition heldTerm ::
    "string \<Rightarrow> bool \<Rightarrow> AssociationSet \<Rightarrow> collection \<Rightarrow> AssociationSet \<times> collection" where
  "heldTerm relation seeded cur ic =
     (if relation = '''' then (cur, ic)
      else let (held, ic) = subjectsWithRelation relation ic
           in (if seeded then intersectByAssociate cur held else held, ic))"

definition missingTerm :: "string \<Rightarrow> AssociationSet \<Rightarrow> collection \<Rightarrow> AssociationSet \<times> collection" where
  "missingTerm relation cur ic =
     (if relation = '''' then (cur, ic) else filterMissingRelation cur relation ic)"

text \<open>
  Without an \<open>Include\<close> term the set is a nil pointer until \<open>HasRelation\<close> seeds it; \<open>Exclude\<close> and
  \<open>Scope\<close> come before that and call a method on it, which dereferences nil when they find their
  term (\<open>resolveQuery_panics\<close>). Where they do not, the nil set is not used before it is seeded,
  and an empty set stands for it.
\<close>

definition resolveQuery_panics :: "TagQuery \<Rightarrow> collection \<Rightarrow> bool" where
  "resolveQuery_panics q ic \<longleftrightarrow>
     Include q = [] \<and> HasRel q \<noteq> '''' \<and>
     ((\<exists>tag \<in> set (Exclude q). fst (getEntryFromString tag ic) \<noteq> None) \<or>
      Scope q \<noteq> '''' \<and> fst (getEntryFromString (Scope q) ic) \<noteq> None)"

definition resolveQuery :: "TagQuery \<Rightarrow> collection \<Rightarrow> resolved \<times> collection" where
  "resolveQuery q ic =
     (if Include q = [] \<and> HasRel q = '''' then (NotFound, ic)
      else if resolveQuery_panics q ic then (Panics, ic)
      else
        case (case Include q of
                [] \<Rightarrow> ((newAssociationSet, True), ic)
              | tag # _ \<Rightarrow>
                  if Reverse q then GetReverseAssociations tag ic else GetAssociations tag ic) of
          ((_, False), ic) \<Rightarrow> (NotFound, ic)
        | ((cur, True), ic) \<Rightarrow>
            case intersectTerms (tl (Include q)) cur ic of
              (None, ic) \<Rightarrow> (Empty, ic)
            | (Some cur, ic) \<Rightarrow>
                (let (cur, ic) = excludeTerms (Exclude q) cur ic
                 in case scopeTerm (Scope q) cur ic of
                      (None, ic) \<Rightarrow> (Empty, ic)
                    | (Some cur, ic) \<Rightarrow>
                        (let (cur, ic) = heldTerm (HasRel q) (Include q \<noteq> []) cur ic;
                             (cur, ic) = missingTerm (MissingRelation q) cur ic
                         in (Matches cur, ic))))"

text \<open>The triple is \<open>(sorted, total, found)\<close>; \<open>None\<close> is a panic.\<close>

definition QueryTags ::
    "(string \<Rightarrow> float64 option) \<Rightarrow> TagQuery \<Rightarrow> collection
       \<Rightarrow> (StringTriple list \<times> nat \<times> bool) option \<times> collection" where
  "QueryTags parseFloat q ic =
     (case resolveQuery q ic of
        (Panics, ic) \<Rightarrow> (None, ic)
      | (NotFound, ic) \<Rightarrow> (Some ([], 0, False), ic)
      | (Empty, ic) \<Rightarrow> (Some ([], 0, True), ic)
      | (Matches cur, ic) \<Rightarrow>
          (let (page, ic) = GetPage parseFloat cur (Filter q) (SortOpts q) ic
           in (map_option (\<lambda>(srt, total). (srt, total, True)) page, ic)))"

section \<open>Rows\<close>

text \<open>The attributes of a row: a Go map from relation to values, in order of appearance.\<close>

record Row =
  r_Key :: string
  Attributes :: "(string \<times> string list) list"

definition addAttribute ::
    "StringTriple \<Rightarrow> (string \<times> string list) list \<Rightarrow> (string \<times> string list) list" where
  "addAttribute t attrs =
     AList.update (Value1 t)
       ((case map_of attrs (Value1 t) of None \<Rightarrow> [] | Some vs \<Rightarrow> vs) @ [Value2 t]) attrs"

definition addToRows :: "StringTriple \<Rightarrow> Row list \<Rightarrow> Row list" where
  "addToRows t rows =
     (let rows = (if \<exists>r \<in> set rows. r_Key r = Key t then rows
                  else rows @ [\<lparr>r_Key = Key t, Attributes = []\<rparr>])
      in map (\<lambda>r. if r_Key r = Key t then r\<lparr>Attributes := addAttribute t (Attributes r)\<rparr> else r) rows)"

definition RowsFromSorted :: "StringTriple list \<Rightarrow> Row list" where
  "RowsFromSorted srt = fold addToRows srt []"

fun ExpandKeys :: "string list \<Rightarrow> string \<Rightarrow> collection \<Rightarrow> Row list \<times> collection" where
  "ExpandKeys [] flt ic = ([], ic)"
| "ExpandKeys (key # keys) flt ic =
     (case GetAssociations key ic of
        ((_, False), ic) \<Rightarrow> ExpandKeys keys flt ic
      | ((tree, True), ic) \<Rightarrow>
          (let ((srt, _), ic) = SortAll tree flt ic
           in if srt = [] \<and> flt = '''' then ExpandKeys keys flt ic
              else (let (rows, ic) = ExpandKeys keys flt ic
                    in (\<lparr>r_Key = key, Attributes = fold addAttribute srt []\<rparr> # rows, ic))))"

section \<open>Co-tags\<close>

text \<open>
  First pass: the subjects of the matched entries, each once. \<open>seenAssoc\<close> and \<open>seenSubject\<close> are
  the ids met so far.
\<close>

fun coSubjects ::
    "assocEntries \<Rightarrow> u64 list \<Rightarrow> u64 list \<Rightarrow> collection \<Rightarrow> (int \<times> u64) list \<times> collection" where
  "coSubjects [] seenAssoc seenSubject ic = ([], ic)"
| "coSubjects ((ua, pos) # es) seenAssoc seenSubject ic =
     (if AssociateTo ua \<in> set seenAssoc then coSubjects es seenAssoc seenSubject ic
      else
        let seenAssoc = AssociateTo ua # seenAssoc
        in case resolveEntry ua pos ic of
             (None, ic) \<Rightarrow> coSubjects es seenAssoc seenSubject ic
           | (Some t, ic) \<Rightarrow>
               if t_Key t \<in> set seenSubject then coSubjects es seenAssoc seenSubject ic
               else (let (ss, ic) = coSubjects es seenAssoc (t_Key t # seenSubject) ic
                     in ((t_Level t, t_Key t) # ss, ic)))"

text \<open>Second pass over one subject's entries: its values under the relation, each id once.\<close>

fun tagEntries ::
    "u64 \<Rightarrow> assocEntries \<Rightarrow> u64 list \<Rightarrow> collection \<Rightarrow> (string list \<times> u64 list) \<times> collection" where
  "tagEntries rel [] seenTag ic = (([], seenTag), ic)"
| "tagEntries rel ((ua, pos) # es) seenTag ic =
     (if Relation ua \<noteq> rel then tagEntries rel es seenTag ic
      else
        case resolveEntry ua pos ic of
          (None, ic) \<Rightarrow> tagEntries rel es seenTag ic
        | (Some t, ic) \<Rightarrow>
            if t_Value1 t \<noteq> rel \<or> t_Value2 t \<in> set seenTag then tagEntries rel es seenTag ic
            else (let ((tags, seen), ic') = tagEntries rel es (t_Value2 t # seenTag) ic
                  in ((getValueString ic (t_Value2Level t) (t_Value2 t) # tags, seen), ic')))"

fun subjectTags ::
    "u64 \<Rightarrow> (int \<times> u64) list \<Rightarrow> u64 list \<Rightarrow> collection \<Rightarrow> string list \<times> collection" where
  "subjectTags rel [] seenTag ic = ([], ic)"
| "subjectTags rel ((level, i) # ss) seenTag ic =
     (let tree = getAssociations ic level i
      in if as_Size tree = 0 then subjectTags rel ss seenTag ic
         else (let ((tags, seenTag), ic) = tagEntries rel (as_ForEach tree) seenTag ic;
                   (rest, ic) = subjectTags rel ss seenTag ic
               in (tags @ rest, ic)))"

definition CoTags :: "TagQuery \<Rightarrow> string \<Rightarrow> collection \<Rightarrow> (string list \<times> bool) \<times> collection" where
  "CoTags q tagRelation ic =
     (if Include q = [] then (([], False), ic)
      else case resolveQuery q ic of
        (Panics, ic) \<Rightarrow> (([], False), ic)
      | (NotFound, ic) \<Rightarrow> (([], False), ic)
      | (Empty, ic) \<Rightarrow> (([], True), ic)
      | (Matches cur, ic) \<Rightarrow>
          (case getEntryFromString tagRelation ic of
             (None, ic) \<Rightarrow> (([], True), ic)
           | (Some (tagRelID, _), ic) \<Rightarrow>
               (let (subjects, ic) = coSubjects (as_ForEach cur) [] [] ic;
                    (tags, ic) = subjectTags tagRelID subjects [] ic
                in ((tags, True), ic))))"

section \<open>The whole collection\<close>

text \<open>The triples in the order they are handed to the callback.\<close>

fun emitSets :: "AssociationSet list \<Rightarrow> collection \<Rightarrow> StringTriple list \<times> collection" where
  "emitSets [] ic = ([], ic)"
| "emitSets (cur # sets) ic =
     (let ((trs, _), ic) = SortAll cur '''' ic; (rest, ic) = emitSets sets ic in (trs @ rest, ic))"

definition ForEachTriple :: "collection \<Rightarrow> StringTriple list \<times> collection" where
  "ForEachTriple ic =
     emitSets (concat (map (\<lambda>tree. map snd (lt_ForEach tree)) (forwardForest ic))) ic"

end
