(* ===== verification/Query_Correct.thy ===== *)
theory Query_Correct
  imports Query
begin

text \<open>
  What the lookups and queries return, in terms of the set of triples, and that they change
  nothing a later operation can see.
\<close>

section \<open>Reading changes nothing\<close>

definition quiet :: "collection \<Rightarrow> collection \<Rightarrow> bool" where
  "quiet ic ic' \<longleftrightarrow> grows ic ic' \<and> same_trie ic ic'"

lemma quiet_refl: "coll_wf ic \<Longrightarrow> quiet ic ic"
  by (simp add: quiet_def wfD)

lemma quiet_trans [trans]: "quiet a b \<Longrightarrow> quiet b c \<Longrightarrow> quiet a c"
  by (auto simp: quiet_def intro: grows_trans same_trie_trans)

lemma quietD:
  assumes "coll_wf ic" "quiet ic ic'"
  shows "coll_wf ic'" and "triples ic' = triples ic" and "fwd ic' = fwd ic" and "bwd ic' = bwd ic"
    and "record_at ic' = record_at ic" and "getAssociations ic' = getAssociations ic"
    and "getReverseAssociations ic' = getReverseAssociations ic"
    and "lookupEntry ic' = lookupEntry ic" and "getValueString ic' = getValueString ic"
    and "makeStringTriple ic' = makeStringTriple ic" and "same_config ic ic'"
    and "totalEntries ic' = totalEntries ic"
proof -
  have g: "grows ic ic'" "same_trie ic ic'" "intern_ext ic ic'"
    using assms(2) by (simp_all add: quiet_def grows_def)
  show "coll_wf ic'" "triples ic' = triples ic" "fwd ic' = fwd ic" "bwd ic' = bwd ic"
    by (rule wf_grows [OF assms(1) g(1)])+
  show "record_at ic' = record_at ic" "getAssociations ic' = getAssociations ic"
    "getReverseAssociations ic' = getReverseAssociations ic" by (rule intern_extD [OF g(3)])+
  show "lookupEntry ic' = lookupEntry ic" "getValueString ic' = getValueString ic"
    "makeStringTriple ic' = makeStringTriple ic" by (rule same_trie_lookup [OF g(2)])+
  show "same_config ic ic'" by (rule grows_config [OF g(1)])
  show "totalEntries ic' = totalEntries ic" using g(2) by (simp add: same_trie_def)
qed

lemma writable_quiet: "writable ic \<Longrightarrow> quiet ic ic' \<Longrightarrow> writable ic'"
  using quietD(1,11) [of ic ic'] by (auto simp: writable_def same_config_def)

lemma storage_step_ioErr: "storage_step ic ic' \<Longrightarrow> ioErr ic' = ioErr ic"
  unfolding storage_step_def storage_norm_def by (drule arg_cong [where f = ioErr]) simp

lemma reads_quiet:
  assumes "coll_wf ic" "reads ic ic'"
  shows "quiet ic ic'"
proof -
  note w = wfD [OF assms(1)]
  have step: "storage_step ic ic'" "record_at ic' = record_at ic" "diskBytes ic' = diskBytes ic"
    "store_inv ic'" using assms(2) w(2) by (auto simp: reads_def)
  have c: "core ic' = core ic" by (rule core_storage_step [OF step(1)])
  have "intern_ext ic ic'"
    unfolding intern_ext_def core_cong [OF c] step(2) storage_step_ioErr [OF step(1)]
    using trees_ext_core [OF c] by simp
  moreover have "persisted ic'"
    using w(4) core_cong [OF c] by (simp add: persisted_def file_rec_def step(3))
  moreover have "trie_wf ic'" using w(1) trie_wf_core [OF c] by simp
  ultimately show ?thesis using step(4) same_trie_core [OF c] by (simp add: quiet_def grows_def)
qed

lemma getEntryFromString_quiet:
  assumes "coll_wf ic" "getEntryFromString v ic = (e, ic')"
  shows "e = lookupEntry ic v" and "quiet ic ic'"
  using getEntryFromString_grows [OF wfD(1,2) [OF assms(1)] assms(2)] by (simp_all add: quiet_def)

lemma GetAssociations_quiet:
  assumes "coll_wf ic" "GetAssociations v ic = ((s, found), ic')"
  shows "quiet ic ic'"
    and "found \<longleftrightarrow> lookupEntry ic v \<noteq> None"
    and "lookupEntry ic v = Some (i, l) \<Longrightarrow> s = getAssociations ic l i"
  using assms getEntryFromString_quiet [OF assms(1)] quietD(6) [OF assms(1)]
  by (auto simp: GetAssociations_def split: prod.splits option.splits)

lemma GetReverseAssociations_quiet:
  assumes "coll_wf ic" "GetReverseAssociations v ic = ((s, found), ic')"
  shows "quiet ic ic'"
    and "found \<longleftrightarrow> lookupEntry ic v \<noteq> None"
    and "lookupEntry ic v = Some (i, l) \<Longrightarrow> s = getReverseAssociations ic l i"
  using assms getEntryFromString_quiet [OF assms(1)] quietD(7) [OF assms(1)]
  by (auto simp: GetReverseAssociations_def split: prod.splits option.splits)

section \<open>Entries that resolve\<close>

definition sound :: "collection \<Rightarrow> assocEntries \<Rightarrow> bool" where
  "sound ic es \<longleftrightarrow> (\<forall>(ua, p) \<in> set es. \<exists>t. record_at ic p = Some t \<and> entryMatches ua t)"

definition tripleOf :: "collection \<Rightarrow> UniqueAssociation \<times> int \<Rightarrow> Triple" where
  "tripleOf ic e = the (record_at ic (snd e))"

definition strOf :: "collection \<Rightarrow> UniqueAssociation \<times> int \<Rightarrow> StringTriple" where
  "strOf ic e = makeStringTriple ic (tripleOf ic e)"

lemma sound_Cons [simp]:
  "sound ic ((ua, p) # es) \<longleftrightarrow> (\<exists>t. record_at ic p = Some t \<and> entryMatches ua t) \<and> sound ic es"
  by (simp add: sound_def)

lemma sound_Nil [simp]: "sound ic []"
  by (simp add: sound_def)

lemma sound_subset: "sound ic es \<Longrightarrow> set es' \<subseteq> set es \<Longrightarrow> sound ic es'"
  by (auto simp: sound_def)

lemma sound_quiet: "coll_wf ic \<Longrightarrow> quiet ic ic' \<Longrightarrow> sound ic' es = sound ic es"
  using quietD(5) [of ic ic'] by (simp add: sound_def)

lemma resolveEntry_quiet:
  assumes "coll_wf ic" "record_at ic p = Some t" "entryMatches ua t"
  obtains ic' where "resolveEntry ua p ic = (Some t, ic')" "quiet ic ic'"
  using resolveEntry_spec [OF wfD(2) [OF assms(1)] assms(2,3)] reads_quiet [OF assms(1)] by metis

lemma resolveEntries_spec:
  assumes "coll_wf ic" "sound ic es"
  shows "\<exists>ic'. resolveEntries es ic = (map (strOf ic) es, ic') \<and> quiet ic ic'"
  using assms
proof (induction es arbitrary: ic)
  case Nil
  then show ?case by (auto intro: quiet_refl)
next
  case (Cons e es)
  obtain ua p where e: "e = (ua, p)" by force
  with Cons.prems obtain t where t: "record_at ic p = Some t" "entryMatches ua t" and s: "sound ic es"
    by auto
  obtain ic1 where ic1: "resolveEntry ua p ic = (Some t, ic1)" "quiet ic ic1"
    by (rule resolveEntry_quiet [OF Cons.prems(1) t])
  note q = quietD [OF Cons.prems(1) ic1(2)]
  have "sound ic1 es" using s sound_quiet [OF Cons.prems(1) ic1(2)] by simp
  from Cons.IH [OF q(1) this] obtain ic2 where
    "resolveEntries es ic1 = (map (strOf ic1) es, ic2)" "quiet ic1 ic2" by blast
  moreover have "strOf ic1 = strOf ic" by (simp add: fun_eq_iff strOf_def tripleOf_def q)
  ultimately show ?case
    using e ic1 t(1) q(10) quiet_trans [OF ic1(2)] by (simp add: strOf_def tripleOf_def)
qed

section \<open>Ordering\<close>

lemma cmpCompare_simps [simp]:
  "cmpCompare a b = 0 \<longleftrightarrow> a = b" "cmpCompare a b \<le> 0 \<longleftrightarrow> a \<le> b" "cmpCompare a b < 0 \<longleftrightarrow> a < b"
  "0 \<le> cmpCompare a b \<longleftrightarrow> b \<le> a"
  by (auto simp: cmpCompare_def)

lemma compareTriples_le:
  "compareTriples a b \<le> 0 \<longleftrightarrow>
     Key a < Key b \<or> Key a = Key b \<and> (Value1 a < Value1 b \<or> Value1 a = Value1 b \<and> Value2 a \<le> Value2 b)"
  by (auto simp: compareTriples_def)

lemma total_compareTriples [simp]: "total_cmp compareTriples"
  by (auto simp: total_cmp_def compareTriples_le)

lemma compareTriples_antisym: "compareTriples a b \<le> 0 \<Longrightarrow> compareTriples b a \<le> 0 \<Longrightarrow> a = b"
  by (auto simp: compareTriples_le)

section \<open>The unlimited sort\<close>

lemma paginate_all: "paginate 0 (-1) xs = Some (xs, length xs)"
  by (simp add: paginate_def goSlice_def Let_def)

definition filterFor :: "collection \<Rightarrow> string \<Rightarrow> u64 option option" where
  "filterFor ic f = (if f = '''' then Some None else map_option (\<lambda>(i, _). Some i) (lookupEntry ic f))"

lemma set_matching: "set (matching flt es) \<subseteq> set es"
  by (cases flt) (auto simp: matching_def)

lemma SortAll_spec:
  assumes "coll_wf ic" "sound ic (as_ForEach s)"
  shows "\<exists>ic'. SortAll s f ic =
      ((case filterFor ic f of
          None \<Rightarrow> ([], 0)
        | Some flt \<Rightarrow> (sort_by compareTriples (map (strOf ic) (matching flt (as_ForEach s))),
                     length (matching flt (as_ForEach s)))), ic') \<and> quiet ic ic'"
proof -
  obtain flt ic1 where f: "(if f = '''' then (Some None, ic)
      else case getEntryFromString f ic of (None, ic) \<Rightarrow> (None, ic)
           | (Some (i, _), ic) \<Rightarrow> (Some (Some i), ic)) = (flt, ic1)" by force
  have "flt = filterFor ic f \<and> quiet ic ic1"
    using f quiet_refl [OF assms(1)] getEntryFromString_quiet [OF assms(1), of f]
    by (auto simp: filterFor_def split: if_splits prod.splits option.splits)
  then have flt: "flt = filterFor ic f" "quiet ic ic1" by simp_all
  show ?thesis
  proof (cases flt)
    case None
    with f flt show ?thesis by (auto simp: SortAll_def Sort_def unlimited_def)
  next
    case (Some g)
    note q = quietD [OF assms(1) flt(2)]
    have "sound ic1 (matching g (as_ForEach s))"
      using assms(2) sound_subset [OF _ set_matching] sound_quiet [OF assms(1) flt(2)] by blast
    from resolveEntries_spec [OF q(1) this] obtain ic2 where
      r: "resolveEntries (matching g (as_ForEach s)) ic1 = (map (strOf ic1) (matching g (as_ForEach s)), ic2)"
      "quiet ic1 ic2" by blast
    have "strOf ic1 = strOf ic" by (simp add: fun_eq_iff strOf_def tripleOf_def q)
    moreover have "filterFor ic f = Some g" using flt(1) Some by simp
    ultimately show ?thesis
      using quiet_trans [OF flt(2) r(2)] f [unfolded Some] r(1)
      by (simp add: SortAll_def Sort_def unlimited_def orderTriples_def negated_def paginate_all Let_def)
  qed
qed

section \<open>The association sets of the index\<close>

definition fwdKey :: "Triple \<Rightarrow> UniqueAssociation" where
  "fwdKey t = \<lparr>AssociateTo = t_Value2 t, Relation = t_Value1 t\<rparr>"

definition revKey :: "Triple \<Rightarrow> UniqueAssociation" where
  "revKey t = \<lparr>AssociateTo = t_Key t, Relation = t_Value1 t\<rparr>"

lemma ua_eqI: "\<lparr>AssociateTo = AssociateTo ua, Relation = Relation ua\<rparr> = (ua :: UniqueAssociation)"
  by simp

lemma assoc_inv:
  assumes "coll_wf ic"
  shows "as_inv (getAssociations ic l k)" and "as_inv (getReverseAssociations ic l k)"
  using idx_wfD(1) [OF wfD(3) [OF assms]] by (auto simp: sets_ok_def)

lemma forward_entries:
  assumes "coll_wf ic"
  shows "(ua, p) \<in> set (as_ForEach (getAssociations ic l k)) \<longleftrightarrow>
    (\<exists>t. record_at ic p = Some t \<and> t_Level t = l \<and> t_Key t = k \<and> ua = fwdKey t)"
proof (cases ua)
  case (fields a r)
  have "(ua, p) \<in> set (as_ForEach (getAssociations ic l k)) \<longleftrightarrow> fwd ic l k r a = Some p"
    by (simp only: as.entries_iff [OF assoc_inv(1) [OF assms]] fwd_def fields)
  then show ?thesis unfolding idx_wfD(3) [OF wfD(3) [OF assms]] fields fwdKey_def by auto
qed

lemma reverse_entries:
  assumes "coll_wf ic"
  shows "(ua, p) \<in> set (as_ForEach (getReverseAssociations ic l v)) \<longleftrightarrow>
    (\<exists>t. record_at ic p = Some t \<and> t_Value2Level t = l \<and> t_Value2 t = v \<and> shouldBuildReverse t ic \<and>
         ua = revKey t)"
proof (cases ua)
  case (fields a r)
  have "(ua, p) \<in> set (as_ForEach (getReverseAssociations ic l v)) \<longleftrightarrow> bwd ic l v r a = Some p"
    by (simp only: as.entries_iff [OF assoc_inv(2) [OF assms]] bwd_def fields)
  then show ?thesis unfolding idx_wfD(4) [OF wfD(3) [OF assms]] fields revKey_def by auto
qed

lemma record_inj:
  assumes "coll_wf ic" "record_at ic p = Some t" "record_at ic q = Some t"
  shows "p = q"
  using idx_wfD(3) [OF wfD(3) [OF assms(1)]] assms(2,3) by (metis option.inject)

text \<open>A list of entries that stands for the records with property \<open>P\<close>, one entry each.\<close>

lemma entries_strings:
  assumes wf: "coll_wf ic" and d: "distinct es"
    and es: "\<And>ua p. (ua, p) \<in> set es \<longleftrightarrow> (\<exists>t. record_at ic p = Some t \<and> P t \<and> ua = f t)"
  shows "set (map (strOf ic) es) = makeStringTriple ic ` {t \<in> ran (record_at ic). P t}"
    and "distinct (map (strOf ic) es)"
    and "(\<And>t. entryMatches (f t) t) \<Longrightarrow> sound ic es"
proof -
  have member: "\<exists>t. record_at ic (snd e) = Some t \<and> P t \<and> fst e = f t" if "e \<in> set es" for e
    using that es [of "fst e" "snd e"] by auto
  show "set (map (strOf ic) es) = makeStringTriple ic ` {t \<in> ran (record_at ic). P t}"
  proof
    show "set (map (strOf ic) es) \<subseteq> makeStringTriple ic ` {t \<in> ran (record_at ic). P t}"
      using member by (force simp: strOf_def tripleOf_def ran_def)
    show "makeStringTriple ic ` {t \<in> ran (record_at ic). P t} \<subseteq> set (map (strOf ic) es)"
    proof (clarsimp simp: ran_def)
      fix t p
      assume "P t" "record_at ic p = Some t"
      then have "(f t, p) \<in> set es" "strOf ic (f t, p) = makeStringTriple ic t"
        using es by (auto simp: strOf_def tripleOf_def)
      then show "makeStringTriple ic t \<in> strOf ic ` set es" by (metis imageI)
    qed
  qed
  have "inj_on (strOf ic) (set es)"
  proof (rule inj_onI)
    fix e e'
    assume e: "e \<in> set es" "e' \<in> set es" "strOf ic e = strOf ic e'"
    from member [OF e(1)] member [OF e(2)] obtain t t' where t: "record_at ic (snd e) = Some t"
      "fst e = f t" "record_at ic (snd e') = Some t'" "fst e' = f t'" by blast
    with e(3) have "makeStringTriple ic t = makeStringTriple ic t'"
      by (simp add: strOf_def tripleOf_def)
    then have "t = t'"
      using makeStringTriple_inject [OF wfD(1) [OF wf]] idx_wfD(2) [OF wfD(3) [OF wf]] t by metis
    with t record_inj [OF wf, of "snd e" t "snd e'"] show "e = e'" by (simp add: prod_eq_iff)
  qed
  with d show "distinct (map (strOf ic) es)" by (simp add: distinct_map)
  show "sound ic es" if "\<And>t. entryMatches (f t) t"
    using that member by (fastforce simp: sound_def)
qed

lemma entryMatches_keys [simp]: "entryMatches (fwdKey t) t" "entryMatches (revKey t) t"
  by (simp_all add: entryMatches_def fwdKey_def revKey_def)

lemma matching_entries:
  assumes "\<And>ua p. (ua, p) \<in> set es \<longleftrightarrow> (\<exists>t. record_at ic p = Some t \<and> P t \<and> ua = f t)"
    and "\<And>t. Relation (f t) = t_Value1 t"
  shows "(ua, p) \<in> set (matching flt es) \<longleftrightarrow>
    (\<exists>t. record_at ic p = Some t \<and> (P t \<and> (\<forall>r. flt = Some r \<longrightarrow> t_Value1 t = r)) \<and> ua = f t)"
  using assms by (cases flt) (auto simp: matching_def)

lemma distinct_matching: "distinct es \<Longrightarrow> distinct (matching flt es)"
  by (cases flt) (simp_all add: matching_def)

lemma distinct_ForEach:
  assumes "coll_wf ic"
  shows "distinct (as_ForEach (getAssociations ic l k))"
    and "distinct (as_ForEach (getReverseAssociations ic l k))"
  using as.distinct_entries [OF assoc_inv(1) [OF assms]] as.distinct_entries [OF assoc_inv(2) [OF assms]]
  by (simp_all add: distinct_map)

lemma sound_forward: "coll_wf ic \<Longrightarrow> sound ic (as_ForEach (getAssociations ic l k))"
  by (rule entries_strings(3) [OF _ distinct_ForEach(1),
        where P = "\<lambda>t. t_Level t = l \<and> t_Key t = k" and f = fwdKey])
    (auto simp: forward_entries)

lemma sound_reverse: "coll_wf ic \<Longrightarrow> sound ic (as_ForEach (getReverseAssociations ic l k))"
  by (rule entries_strings(3) [OF _ distinct_ForEach(2),
        where P = "\<lambda>t. t_Value2Level t = l \<and> t_Value2 t = k \<and> shouldBuildReverse t ic" and f = revKey])
    (auto simp: reverse_entries)

text \<open>The records whose strings have a given value at one place.\<close>

lemma named_string_iff:
  assumes "trie_wf ic" "storable s" "lookupEntry ic s = Some (k, l)" "named ic l' i"
  shows "getValueString ic l' i = s \<longleftrightarrow> l' = l \<and> i = k"
proof
  assume "getValueString ic l' i = s"
  with named_value(2) [OF assms(1,4)] assms(3) show "l' = l \<and> i = k" by simp
qed (use lookupEntry_value [OF assms(1,2,3)] in simp)

definition relation_ok :: "string \<Rightarrow> StringTriple \<Rightarrow> bool" where
  "relation_ok r st \<longleftrightarrow> r = '''' \<or> Value1 st = r"

definition reverseIndexed :: "collection \<Rightarrow> string \<Rightarrow> bool" where
  "reverseIndexed ic r \<longleftrightarrow> (case reverseRelations ic of None \<Rightarrow> True | Some rels \<Rightarrow> r \<in> set rels)"

lemma filterFor_triples:
  assumes wf: "coll_wf ic" and r: "storable r"
    and rec: "record_at ic p = Some t"
  shows "(\<exists>flt. filterFor ic r = Some flt \<and> (\<forall>i. flt = Some i \<longrightarrow> t_Value1 t = i)) \<longleftrightarrow>
    relation_ok r (makeStringTriple ic t)"
proof -
  note w = wfD [OF wf]
  have n: "named ic (t_Value1Level t) (t_Value1 t)"
    using idx_wfD(2) [OF w(3) rec] by (simp add: triple_named_def)
  show ?thesis
  proof (cases "lookupEntry ic r")
    case None
    then have "getValueString ic (t_Value1Level t) (t_Value1 t) \<noteq> r"
      using named_value(2) [OF w(1) n] by auto
    with None show ?thesis by (auto simp: filterFor_def relation_ok_def makeStringTriple_def)
  next
    case (Some e)
    obtain i l where e: "e = (i, l)" by force
    have "t_Value1 t = i \<Longrightarrow> t_Value1Level t = l"
      using named_level [OF w(1) n] r Some e by (auto simp: named_def)
    with Some e named_string_iff [OF w(1) r _ n, of i l] show ?thesis
      by (auto simp: filterFor_def relation_ok_def makeStringTriple_def)
  qed
qed

lemma forward_strings:
  assumes wf: "coll_wf ic" and s: "storable s" "lookupEntry ic s = Some (k, l)" and r: "storable r"
    and flt: "filterFor ic r = Some flt"
  defines "es \<equiv> matching flt (as_ForEach (getAssociations ic l k))"
  shows "set (map (strOf ic) es) = {st \<in> triples ic. Key st = s \<and> relation_ok r st}"
    and "distinct (map (strOf ic) es)"
proof -
  let ?P = "\<lambda>t. (t_Level t = l \<and> t_Key t = k) \<and> (\<forall>i. flt = Some i \<longrightarrow> t_Value1 t = i)"
  have es: "(ua, p) \<in> set es \<longleftrightarrow> (\<exists>t. record_at ic p = Some t \<and> ?P t \<and> ua = fwdKey t)" for ua p
    unfolding es_def by (rule matching_entries) (auto simp: forward_entries [OF wf] fwdKey_def)
  have d: "distinct es" unfolding es_def by (rule distinct_matching [OF distinct_ForEach(1) [OF wf]])
  note str = entries_strings [OF wf d es]
  show "distinct (map (strOf ic) es)" by (rule str(2))
  have "?P t \<longleftrightarrow> Key (makeStringTriple ic t) = s \<and> relation_ok r (makeStringTriple ic t)"
    if "record_at ic p = Some t" for p t
    using filterFor_triples [OF wf r that] flt idx_wfD(2) [OF wfD(3) [OF wf] that]
      named_string_iff [OF wfD(1) [OF wf] s, of "t_Level t" "t_Key t"]
    by (auto simp: triple_named_def makeStringTriple_def)
  then have "{t \<in> ran (record_at ic). ?P t} = {t \<in> ran (record_at ic).
      Key (makeStringTriple ic t) = s \<and> relation_ok r (makeStringTriple ic t)}"
    unfolding ran_def by blast
  then show "set (map (strOf ic) es) = {st \<in> triples ic. Key st = s \<and> relation_ok r st}"
    unfolding str(1) triples_def by auto
qed

lemma reverse_strings:
  assumes wf: "coll_wf ic" and v: "storable v" "lookupEntry ic v = Some (i, l)" and r: "storable r"
    and flt: "filterFor ic r = Some flt"
  defines "es \<equiv> matching flt (as_ForEach (getReverseAssociations ic l i))"
  shows "set (map (strOf ic) es) =
      {st \<in> triples ic. Value2 st = v \<and> reverseIndexed ic (Value1 st) \<and> relation_ok r st}"
    and "distinct (map (strOf ic) es)"
proof -
  let ?P = "\<lambda>t. (t_Value2Level t = l \<and> t_Value2 t = i \<and> shouldBuildReverse t ic) \<and>
    (\<forall>i. flt = Some i \<longrightarrow> t_Value1 t = i)"
  have es: "(ua, p) \<in> set es \<longleftrightarrow> (\<exists>t. record_at ic p = Some t \<and> ?P t \<and> ua = revKey t)" for ua p
    unfolding es_def by (rule matching_entries) (auto simp: reverse_entries [OF wf] revKey_def)
  have d: "distinct es" unfolding es_def by (rule distinct_matching [OF distinct_ForEach(2) [OF wf]])
  note str = entries_strings [OF wf d es]
  show "distinct (map (strOf ic) es)" by (rule str(2))
  have "?P t \<longleftrightarrow> Value2 (makeStringTriple ic t) = v \<and>
      reverseIndexed ic (Value1 (makeStringTriple ic t)) \<and> relation_ok r (makeStringTriple ic t)"
    if "record_at ic p = Some t" for p t
    using filterFor_triples [OF wf r that] flt idx_wfD(2) [OF wfD(3) [OF wf] that]
      named_string_iff [OF wfD(1) [OF wf] v, of "t_Value2Level t" "t_Value2 t"]
    by (auto simp: triple_named_def makeStringTriple_def shouldBuildReverse_def reverseIndexed_def)
  then have "{t \<in> ran (record_at ic). ?P t} = {t \<in> ran (record_at ic).
      Value2 (makeStringTriple ic t) = v \<and> reverseIndexed ic (Value1 (makeStringTriple ic t)) \<and>
      relation_ok r (makeStringTriple ic t)}"
    unfolding ran_def by blast
  then show "set (map (strOf ic) es) =
      {st \<in> triples ic. Value2 st = v \<and> reverseIndexed ic (Value1 st) \<and> relation_ok r st}"
    unfolding str(1) triples_def by auto
qed

section \<open>Lookups by key and relation\<close>

lemma triples_Key:
  assumes "coll_wf ic" "lookupEntry ic s = None" "st \<in> triples ic"
  shows "Key st \<noteq> s" and "Value1 st \<noteq> s" and "Value2 st \<noteq> s"
  using assms(2,3) by (auto simp: mem_triples [OF assms(1)])

lemma filterFor_None:
  assumes "coll_wf ic" "filterFor ic r = None" "st \<in> triples ic"
  shows "\<not> relation_ok r st"
  using assms triples_Key(2) [OF assms(1) _ assms(3), of r]
  by (auto simp: filterFor_def relation_ok_def split: if_splits)

text \<open>
  The unlimited sort of a forward or a reverse set lists exactly the matching triples, in order.
\<close>

lemma SortAll_forward:
  assumes wf: "coll_wf ic" and s: "storable s" "lookupEntry ic s = Some (k, l)" and r: "storable r"
    and "SortAll (getAssociations ic l k) r ic = ((trs, n), ic')"
  shows "set trs = {st \<in> triples ic. Key st = s \<and> relation_ok r st}" and "distinct trs"
    and "sorted_wrt (\<lambda>a b. compareTriples a b \<le> 0) trs" and "n = length trs" and "quiet ic ic'"
proof -
  from SortAll_spec [OF wf sound_forward [OF wf], of l k r] assms(5) show "quiet ic ic'" by auto
  have "set trs = {st \<in> triples ic. Key st = s \<and> relation_ok r st} \<and> distinct trs \<and>
    sorted_wrt (\<lambda>a b. compareTriples a b \<le> 0) trs \<and> n = length trs"
  proof (cases "filterFor ic r")
    case None
    then have "trs = [] \<and> n = 0" using SortAll_spec [OF wf sound_forward [OF wf], of l k r] assms(5) by auto
    with filterFor_None [OF wf None] show ?thesis by auto
  next
    case (Some flt)
    let ?es = "matching flt (as_ForEach (getAssociations ic l k))"
    have "trs = sort_by compareTriples (map (strOf ic) ?es)" "n = length ?es"
      using Some SortAll_spec [OF wf sound_forward [OF wf], of l k r] assms(5) by auto
    moreover have "distinct trs"
      using forward_strings(2) [OF wf s r Some] calculation(1) by (metis mset_sort_by mset_eq_imp_distinct_iff)
    ultimately show ?thesis
      using forward_strings(1) [OF wf s r Some] by (simp add: sorted_sort_by)
  qed
  then show "set trs = {st \<in> triples ic. Key st = s \<and> relation_ok r st}" and "distinct trs"
    and "sorted_wrt (\<lambda>a b. compareTriples a b \<le> 0) trs" and "n = length trs" by blast+
qed

lemma SortAll_reverse:
  assumes wf: "coll_wf ic" and v: "storable v" "lookupEntry ic v = Some (i, l)" and r: "storable r"
    and "SortAll (getReverseAssociations ic l i) r ic = ((trs, n), ic')"
  shows "set trs = {st \<in> triples ic. Value2 st = v \<and> reverseIndexed ic (Value1 st) \<and> relation_ok r st}"
    and "distinct trs" and "sorted_wrt (\<lambda>a b. compareTriples a b \<le> 0) trs" and "n = length trs"
    and "quiet ic ic'"
proof -
  from SortAll_spec [OF wf sound_reverse [OF wf], of l i r] assms(5) show "quiet ic ic'" by auto
  have "set trs = {st \<in> triples ic. Value2 st = v \<and> reverseIndexed ic (Value1 st) \<and> relation_ok r st} \<and>
    distinct trs \<and> sorted_wrt (\<lambda>a b. compareTriples a b \<le> 0) trs \<and> n = length trs"
  proof (cases "filterFor ic r")
    case None
    then have "trs = [] \<and> n = 0" using SortAll_spec [OF wf sound_reverse [OF wf], of l i r] assms(5) by auto
    with filterFor_None [OF wf None] show ?thesis by auto
  next
    case (Some flt)
    let ?es = "matching flt (as_ForEach (getReverseAssociations ic l i))"
    have "trs = sort_by compareTriples (map (strOf ic) ?es)" "n = length ?es"
      using Some SortAll_spec [OF wf sound_reverse [OF wf], of l i r] assms(5) by auto
    moreover have "distinct trs"
      using reverse_strings(2) [OF wf v r Some] calculation(1) by (metis mset_sort_by mset_eq_imp_distinct_iff)
    ultimately show ?thesis
      using reverse_strings(1) [OF wf v r Some] by (simp add: sorted_sort_by)
  qed
  then show "set trs = {st \<in> triples ic. Value2 st = v \<and> reverseIndexed ic (Value1 st) \<and> relation_ok r st}"
    and "distinct trs" and "sorted_wrt (\<lambda>a b. compareTriples a b \<le> 0) trs" and "n = length trs" by blast+
qed

definition valuesOf :: "collection \<Rightarrow> string \<Rightarrow> string \<Rightarrow> string set" where
  "valuesOf ic s r = {v. \<lparr>Key = s, Value1 = r, Value2 = v\<rparr> \<in> triples ic}"

lemma Get_triples:
  assumes "coll_wf ic" "storable s" "storable r" "Get s r ic = (res, ic')"
  shows "quiet ic ic'"
    and "\<exists>trs. res = (if trs = [] then None else Some (map Value2 trs)) \<and> distinct trs \<and>
      sorted_wrt (\<lambda>a b. compareTriples a b \<le> 0) trs \<and>
      set trs = {st \<in> triples ic. Key st = s \<and> relation_ok r st}"
proof -
  obtain t found ic1 where g: "GetAssociations s ic = ((t, found), ic1)" by (metis prod.collapse)
  note ga = GetAssociations_quiet [OF assms(1) g]
  have "quiet ic ic' \<and> (\<exists>trs. res = (if trs = [] then None else Some (map Value2 trs)) \<and> distinct trs \<and>
      sorted_wrt (\<lambda>a b. compareTriples a b \<le> 0) trs \<and>
      set trs = {st \<in> triples ic. Key st = s \<and> relation_ok r st})"
  proof (cases "lookupEntry ic s")
    case None
    then have "res = None" "ic' = ic1" using ga(2) assms(4) g by (auto simp: Get_def split: bool.splits)
    with ga(1) triples_Key(1) [OF assms(1) None] show ?thesis by (intro conjI exI [of _ "[]"]) auto
  next
    case (Some e)
    then obtain k l where e: "lookupEntry ic s = Some (k, l)" by force
    note q = quietD [OF assms(1) ga(1)]
    have t: "t = getAssociations ic1 l k" using ga(3) [OF e] q(6) by simp
    obtain trs n ic2 where sa: "SortAll (getAssociations ic1 l k) r ic1 = ((trs, n), ic2)"
      by (metis prod.collapse)
    have e1: "lookupEntry ic1 s = Some (k, l)" using e q(8) by simp
    note sf = SortAll_forward [OF q(1) assms(2) e1 assms(3) sa]
    have "res = (if n = 0 then None else Some (map Value2 trs))" "ic' = ic2"
      using assms(4) g ga(2) e sa by (auto simp: Get_def t)
    with sf q(2) quiet_trans [OF ga(1) sf(5)] show ?thesis by (intro conjI exI [of _ trs]) auto
  qed
  then show "quiet ic ic'" and "\<exists>trs. res = (if trs = [] then None else Some (map Value2 trs)) \<and>
      distinct trs \<and> sorted_wrt (\<lambda>a b. compareTriples a b \<le> 0) trs \<and>
      set trs = {st \<in> triples ic. Key st = s \<and> relation_ok r st}" by blast+
qed

lemma Get_spec:
  assumes "coll_wf ic" "storable s" "storable r" "r \<noteq> ''''" "Get s r ic = (res, ic')"
  shows "quiet ic ic'" and "res = None \<longleftrightarrow> valuesOf ic s r = {}"
    and "res = Some vs \<Longrightarrow> set vs = valuesOf ic s r \<and> distinct vs \<and> sorted vs"
proof -
  note g = Get_triples [OF assms(1-3,5)]
  show "quiet ic ic'" by (rule g(1))
  obtain trs where t: "res = (if trs = [] then None else Some (map Value2 trs))" "distinct trs"
    "sorted_wrt (\<lambda>a b. compareTriples a b \<le> 0) trs" "set trs = {st \<in> triples ic. Key st = s \<and> Value1 st = r}"
    using g(2) assms(4) by (auto simp: relation_ok_def)
  have st: "st = \<lparr>Key = s, Value1 = r, Value2 = Value2 st\<rparr>" if "st \<in> set trs" for st
  proof -
    have "Key st = s" "Value1 st = r" using that t(4) by auto
    then show ?thesis by (intro StringTriple.equality) simp_all
  qed
  have vals: "Value2 ` set trs = valuesOf ic s r"
  proof (intro set_eqI iffI)
    fix v
    assume "v \<in> Value2 ` set trs"
    then obtain st where "st \<in> set trs" "v = Value2 st" by blast
    with st [of st] t(4) show "v \<in> valuesOf ic s r" by (metis (mono_tags, lifting) mem_Collect_eq valuesOf_def)
  next
    fix v
    assume "v \<in> valuesOf ic s r"
    then have "\<lparr>Key = s, Value1 = r, Value2 = v\<rparr> \<in> set trs" by (simp add: valuesOf_def t(4))
    then show "v \<in> Value2 ` set trs" by (rule rev_image_eqI) simp
  qed
  then show "res = None \<longleftrightarrow> valuesOf ic s r = {}" using t(1) by auto
  have "inj_on Value2 (set trs)" using st by (metis inj_onI)
  then have "distinct (map Value2 trs)" using t(2) by (simp add: distinct_map)
  moreover have "sorted (map Value2 trs)"
    unfolding sorted_map using t(3)
    by (rule sorted_wrt_mono_rel [rotated]) (use t(4) in \<open>auto simp: compareTriples_le\<close>)
  ultimately show "res = Some vs \<Longrightarrow> set vs = valuesOf ic s r \<and> distinct vs \<and> sorted vs"
    using t(1) vals by (auto split: if_splits)
qed


definition subjectsOf :: "collection \<Rightarrow> string \<Rightarrow> string \<Rightarrow> string set" where
  "subjectsOf ic v r =
     (if reverseIndexed ic r then {s. \<lparr>Key = s, Value1 = r, Value2 = v\<rparr> \<in> triples ic} else {})"

lemma GetReverse_triples:
  assumes "coll_wf ic" "storable v" "storable r" "GetReverse v r ic = (res, ic')"
  shows "quiet ic ic'"
    and "\<exists>trs. res = (if trs = [] then None else Some (map Key trs)) \<and> distinct trs \<and>
      sorted_wrt (\<lambda>a b. compareTriples a b \<le> 0) trs \<and>
      set trs = {st \<in> triples ic. Value2 st = v \<and> reverseIndexed ic (Value1 st) \<and> relation_ok r st}"
proof -
  obtain t found ic1 where g: "GetReverseAssociations v ic = ((t, found), ic1)" by (metis prod.collapse)
  note ga = GetReverseAssociations_quiet [OF assms(1) g]
  have "quiet ic ic' \<and> (\<exists>trs. res = (if trs = [] then None else Some (map Key trs)) \<and> distinct trs \<and>
      sorted_wrt (\<lambda>a b. compareTriples a b \<le> 0) trs \<and>
      set trs = {st \<in> triples ic. Value2 st = v \<and> reverseIndexed ic (Value1 st) \<and> relation_ok r st})"
  proof (cases "lookupEntry ic v")
    case None
    then have "res = None" "ic' = ic1"
      using ga(2) assms(4) g by (auto simp: GetReverse_def split: bool.splits)
    with ga(1) triples_Key(3) [OF assms(1) None] show ?thesis by (intro conjI exI [of _ "[]"]) auto
  next
    case (Some e)
    then obtain k l where e: "lookupEntry ic v = Some (k, l)" by force
    note q = quietD [OF assms(1) ga(1)]
    have t: "t = getReverseAssociations ic1 l k" using ga(3) [OF e] q(7) by simp
    obtain trs n ic2 where sa: "SortAll (getReverseAssociations ic1 l k) r ic1 = ((trs, n), ic2)"
      by (metis prod.collapse)
    have e1: "lookupEntry ic1 v = Some (k, l)" using e q(8) by simp
    have ri: "reverseIndexed ic1 = reverseIndexed ic"
      using q(11) by (simp add: fun_eq_iff reverseIndexed_def same_config_def)
    note sf = SortAll_reverse [OF q(1) assms(2) e1 assms(3) sa]
    have "res = (if n = 0 then None else Some (map Key trs))" "ic' = ic2"
      using assms(4) g ga(2) e sa by (auto simp: GetReverse_def t)
    with sf q(2) ri quiet_trans [OF ga(1) sf(5)] show ?thesis by (intro conjI exI [of _ trs]) auto
  qed
  then show "quiet ic ic'" and "\<exists>trs. res = (if trs = [] then None else Some (map Key trs)) \<and> distinct trs \<and>
      sorted_wrt (\<lambda>a b. compareTriples a b \<le> 0) trs \<and>
      set trs = {st \<in> triples ic. Value2 st = v \<and> reverseIndexed ic (Value1 st) \<and> relation_ok r st}"
    by blast+
qed

lemma GetReverse_spec:
  assumes "coll_wf ic" "storable v" "storable r" "r \<noteq> ''''" "GetReverse v r ic = (res, ic')"
  shows "quiet ic ic'" and "res = None \<longleftrightarrow> subjectsOf ic v r = {}"
    and "res = Some ks \<Longrightarrow> set ks = subjectsOf ic v r \<and> distinct ks \<and> sorted ks"
proof -
  note g = GetReverse_triples [OF assms(1-3,5)]
  show "quiet ic ic'" by (rule g(1))
  obtain trs where t: "res = (if trs = [] then None else Some (map Key trs))" "distinct trs"
    "sorted_wrt (\<lambda>a b. compareTriples a b \<le> 0) trs"
    "set trs = {st \<in> triples ic. Value2 st = v \<and> reverseIndexed ic (Value1 st) \<and> Value1 st = r}"
    using g(2) assms(4) by (auto simp: relation_ok_def)
  have st: "st = \<lparr>Key = Key st, Value1 = r, Value2 = v\<rparr>" if "st \<in> set trs" for st
  proof -
    have "Value2 st = v" "Value1 st = r" using that t(4) by auto
    then show ?thesis by (intro StringTriple.equality) simp_all
  qed
  have keys: "Key ` set trs = subjectsOf ic v r"
  proof (intro set_eqI iffI)
    fix s
    assume "s \<in> Key ` set trs"
    then obtain x where x: "x \<in> set trs" "s = Key x" by blast
    have "reverseIndexed ic r" "x \<in> triples ic" using x(1) t(4) by auto
    with st [OF x(1)] x(2) show "s \<in> subjectsOf ic v r" by (simp add: subjectsOf_def)
  next
    fix s
    assume "s \<in> subjectsOf ic v r"
    then have "\<lparr>Key = s, Value1 = r, Value2 = v\<rparr> \<in> set trs"
      by (simp add: subjectsOf_def t(4) split: if_splits)
    then show "s \<in> Key ` set trs" by (rule rev_image_eqI) simp
  qed
  then show "res = None \<longleftrightarrow> subjectsOf ic v r = {}" using t(1) by auto
  have "inj_on Key (set trs)" using st by (metis inj_onI)
  then have "distinct (map Key trs)" using t(2) by (simp add: distinct_map)
  moreover have "sorted (map Key trs)"
    unfolding sorted_map using t(3)
    by (rule sorted_wrt_mono_rel [rotated]) (use t(4) in \<open>auto simp: compareTriples_le\<close>)
  ultimately show "res = Some ks \<Longrightarrow> set ks = subjectsOf ic v r \<and> distinct ks \<and> sorted ks"
    using t(1) keys by (auto split: if_splits)
qed

text \<open>The writer goroutine at work does not change what the collection answers.\<close>

lemma writerSteps_quiet:
  assumes "coll_wf ic" "writeToDisk ic"
  shows "quiet ic ((writerStep ^^ n) ic)"
proof -
  have inv: "disk_inv ic" using wfD(2) [OF assms(1)] assms(2) by (simp add: store_inv_def)
  note w = writerSteps_spec [OF inv, of n]
  have "writeToDisk ((writerStep ^^ n) ic)" using storage_step_writeToDisk [OF w(4)] assms(2) by simp
  moreover have "disk_rec ((writerStep ^^ n) ic) = disk_rec ic" using w(2) by (simp add: fun_eq_iff disk_rec_def)
  ultimately have "reads ic ((writerStep ^^ n) ic)"
    using w assms(2) inv by (simp add: reads_def store_inv_def record_at_def fun_eq_iff)
  then show ?thesis by (rule reads_quiet [OF assms(1)])
qed

section \<open>Fields that carry no triples\<close>

text \<open>The lock flag, the close signal and the search corpus take no part in what is stored.\<close>

definition view :: "collection \<Rightarrow> collection" where
  "view ic = ic\<lparr>lockHeld := False, closeSignals := 0, searchGen := 0, searchCache := [], searchBytes := 0,
     searchUse := 0, searchMaxBytes := 0\<rparr>"

lemma obs_view [simp]:
  "getUniqueValue (view ic) = getUniqueValue ic" "uniqueValueId (view ic) = uniqueValueId ic"
  "hashEntry (view ic) = hashEntry ic" "hashId (view ic) = hashId ic"
  "getAssociations (view ic) = getAssociations ic" "getReverseAssociations (view ic) = getReverseAssociations ic"
  "associationsTree (view ic) = associationsTree ic" "reverseAssociationsTree (view ic) = reverseAssociationsTree ic"
  "levels (view ic) = levels ic" "totalEntries (view ic) = totalEntries ic" "blobPolicy (view ic) = blobPolicy ic"
  "hashEntries (view ic) = hashEntries ic" "hashValues (view ic) = hashValues ic"
  "hashAssociations (view ic) = hashAssociations ic" "hashReverseAssociations (view ic) = hashReverseAssociations ic"
  "readOnly (view ic) = readOnly ic" "writeToDisk (view ic) = writeToDisk ic" "ioErr (view ic) = ioErr ic"
  "reverseRelations (view ic) = reverseRelations ic" "arena (view ic) = arena ic" "arenaFree (view ic) = arenaFree ic"
  "dBWriteQueue (view ic) = dBWriteQueue ic" "freespace (view ic) = freespace ic" "db_file (view ic) = db_file ic"
  "writerGone (view ic) = writerGone ic" "collection.closed (view ic) = collection.closed ic"
  "db_size (view ic) = db_size ic" "cache (view ic) = cache ic"
  by (simp_all add: view_def fun_eq_iff getUniqueValue_def uniqueValueId_def hashEntry_def hashId_def
      getAssociations_def getReverseAssociations_def associationsTree_def reverseAssociationsTree_def
      levelAt_def)

lemma stored_view [simp]:
  "diskBytes (view ic) = diskBytes ic" "disk_rec (view ic) = disk_rec ic" "file_rec (view ic) = file_rec ic"
  "record_at (view ic) = record_at ic" "store_inv (view ic) = store_inv ic" "trie_wf (view ic) = trie_wf ic"
  "lookupEntry (view ic) = lookupEntry ic" "getValueString (view ic) = getValueString ic"
  "makeStringTriple (view ic) = makeStringTriple ic"
proof -
  show b: "diskBytes (view ic) = diskBytes ic" by (simp add: diskBytes_def split: option.splits)
  show d: "disk_rec (view ic) = disk_rec ic" "file_rec (view ic) = file_rec ic"
    by (simp_all add: fun_eq_iff disk_rec_def file_rec_def b)
  show "record_at (view ic) = record_at ic"
    by (simp add: fun_eq_iff record_at_def d arena_rec_def arenaLoad_def)
  show "store_inv (view ic) = store_inv ic"
    by (simp add: store_inv_def disk_inv_def arena_inv_def b d pendingDeletes_def)
  show "trie_wf (view ic) = trie_wf ic" by (simp add: trie_wf_def entry_ok_def hash_ok_def)
  have "same_trie ic (view ic)" by (simp add: same_trie_def)
  then show "lookupEntry (view ic) = lookupEntry ic" "getValueString (view ic) = getValueString ic"
    "makeStringTriple (view ic) = makeStringTriple ic" by (rule same_trie_lookup)+
qed

lemma wf_view [simp]:
  "coll_wf (view ic) = coll_wf ic" "triples (view ic) = triples ic" "writable (view ic) = writable ic"
proof -
  have "shouldBuildReverse t (view ic) = shouldBuildReverse t ic" for t
    by (simp add: shouldBuildReverse_def split: option.splits)
  then show "coll_wf (view ic) = coll_wf ic"
    by (simp add: coll_wf_def persisted_def idx_wf_def sets_ok_def triple_named_def named_def fwd_def bwd_def)
  then show "triples (view ic) = triples ic" "writable (view ic) = writable ic"
    by (simp_all add: triples_def writable_def)
qed

lemma view_cong:
  assumes "view ic' = view ic"
  shows "coll_wf ic' = coll_wf ic" and "triples ic' = triples ic" and "writable ic' = writable ic"
    and "diskBytes ic' = diskBytes ic" and "lookupEntry ic' = lookupEntry ic"
    and "getAssociations ic' = getAssociations ic" and "record_at ic' = record_at ic"
    and "reverseRelations ic' = reverseRelations ic" and "writeToDisk ic' = writeToDisk ic"
    and "blobPolicy ic' = blobPolicy ic" and "totalEntries ic' = totalEntries ic"
  by (metis assms wf_view stored_view obs_view)+

end
