(* ===== verification/Query_Algebra.thy ===== *)
theory Query_Algebra
  imports Query_Correct
begin

text \<open>
  The tag query as set algebra on triples: what \<open>resolveQuery\<close> selects, and what a full dump lists.
\<close>

section \<open>All forward sets\<close>

lemma forest_iff: "tree \<in> set (forwardForest ic) \<longleftrightarrow> (\<exists>l. associationsTree ic l = Some tree)"
proof
  assume "tree \<in> set (forwardForest ic)"
  then consider lvl where "lvl \<in> set (levels ic)" "tree = associations lvl" | "hashAssociations ic = Some tree"
    by (auto simp: forwardForest_def split: option.splits)
  then show "\<exists>l. associationsTree ic l = Some tree"
  proof cases
    case 1
    then obtain n where "n < length (levels ic)" "levels ic ! n = lvl" by (metis in_set_conv_nth)
    with 1 show ?thesis
      by (intro exI [of _ "int n"]) (simp add: associationsTree_def levelAt_def HASH_LEVEL_def)
  next
    case 2
    then show ?thesis by (intro exI [of _ HASH_LEVEL]) (simp add: associationsTree_def)
  qed
next
  assume "\<exists>l. associationsTree ic l = Some tree"
  then show "tree \<in> set (forwardForest ic)"
    by (auto simp: associationsTree_def levelAt_def forwardForest_def split: if_splits)
qed

lemma forest_entries:
  assumes "coll_wf ic"
  shows "(\<exists>tree \<in> set (forwardForest ic). \<exists>cur. (k, cur) \<in> set (lt_ForEach tree) \<and> (ua, p) \<in> set (as_ForEach cur)) \<longleftrightarrow>
    (\<exists>t. record_at ic p = Some t \<and> t_Key t = k \<and> ua = fwdKey t)"
    (is "?L \<longleftrightarrow> ?R")
proof
  have inv: "lt_inv tree" if "associationsTree ic l = Some tree" for l tree
    using that idx_wfD(1) [OF wfD(3) [OF assms]] by (auto simp: sets_ok_def)
  {
    assume ?L
    then obtain tree cur where t: "tree \<in> set (forwardForest ic)" "(k, cur) \<in> set (lt_ForEach tree)"
      "(ua, p) \<in> set (as_ForEach cur)" by blast
    then obtain l where l: "associationsTree ic l = Some tree" by (auto simp: forest_iff)
    then have "getAssociations ic l k = cur"
      using t(2) by (simp add: getAssociations_def lt.entries_iff [OF inv [OF l]])
    with t(3) forward_entries [OF assms, of ua p l k] show ?R by blast
  next
    assume ?R
    then obtain t where t: "record_at ic p = Some t" "t_Key t = k" "ua = fwdKey t" by blast
    then have m: "(ua, p) \<in> set (as_ForEach (getAssociations ic (t_Level t) k))"
      by (auto simp: forward_entries [OF assms])
    then obtain tree cur where l: "associationsTree ic (t_Level t) = Some tree" and c: "lt_Get tree k = Some cur"
      by (auto simp: getAssociations_def as_ForEach_def newAssociationSet_def split: option.splits)
    with m t(2) show ?L
      unfolding Bex_def forest_iff
      by (intro exI [of _ tree]) (auto simp: getAssociations_def lt.entries_iff [OF inv [OF l]])
  }
qed

section \<open>Subjects that hold a relation\<close>

definition relationPuts :: "u64 \<Rightarrow> collection \<Rightarrow> (UniqueAssociation \<times> int) list" where
  "relationPuts relID ic =
     concat (map (\<lambda>tree. concat (map (\<lambda>(subjectID, cur).
       map (\<lambda>(ua, p). (\<lparr>AssociateTo = subjectID, Relation = relID\<rparr>, p))
         (filter (\<lambda>(ua, p). Relation ua = relID) (as_ForEach cur))) (lt_ForEach tree))) (forwardForest ic))"

lemma fold_concat: "fold f (concat xss) s = fold (\<lambda>xs. fold f xs) xss s"
  by (induction xss arbitrary: s) simp_all

lemma fold_put_filter:
  "fold (\<lambda>(ua, pos) out. if Relation ua \<noteq> relID then out
      else as_Put \<lparr>AssociateTo = i, Relation = relID\<rparr> pos out) es out =
   fold (\<lambda>(k, v). as_Put k v) (map (\<lambda>(ua, p). (\<lparr>AssociateTo = i, Relation = relID\<rparr>, p))
      (filter (\<lambda>(ua, p). Relation ua = relID) es)) out"
  by (induction es arbitrary: out) auto

lemma subjectsWithRelation_puts:
  "subjectsWithRelation r ic =
     (case getEntryFromString r ic of
        (None, ic) \<Rightarrow> (newAssociationSet, ic)
      | (Some (relID, _), ic) \<Rightarrow> (fold (\<lambda>(k, v). as_Put k v) (relationPuts relID ic) newAssociationSet, ic))"
proof -
  have "fold (\<lambda>(subjectID, cur) out. fold (\<lambda>(ua, pos) out. if Relation ua \<noteq> relID then out
      else as_Put \<lparr>AssociateTo = subjectID, Relation = relID\<rparr> pos out) (as_ForEach cur) out) xs out =
    fold (\<lambda>(k, v). as_Put k v) (concat (map (\<lambda>(subjectID, cur).
       map (\<lambda>(ua, p). (\<lparr>AssociateTo = subjectID, Relation = relID\<rparr>, p))
         (filter (\<lambda>(ua, p). Relation ua = relID) (as_ForEach cur))) xs)) out" for relID xs out
    unfolding fold_put_filter by (induction xs arbitrary: out) auto
  then have "fold (\<lambda>tree out. fold (\<lambda>(subjectID, cur) out. fold (\<lambda>(ua, pos) out. if Relation ua \<noteq> relID then out
      else as_Put \<lparr>AssociateTo = subjectID, Relation = relID\<rparr> pos out) (as_ForEach cur) out)
      (lt_ForEach tree) out) (forwardForest ic) out =
    fold (\<lambda>(k, v). as_Put k v) (relationPuts relID ic) out" for relID ic out
    unfolding relationPuts_def fold_concat fold_map comp_def by simp
  then show ?thesis unfolding subjectsWithRelation_def by (simp only:)
qed

lemma relationPuts_iff:
  assumes "coll_wf ic"
  shows "(ua, p) \<in> set (relationPuts relID ic) \<longleftrightarrow>
    (\<exists>t. record_at ic p = Some t \<and> t_Value1 t = relID \<and> ua = revKey t)"
proof -
  have "(ua, p) \<in> set (relationPuts relID ic) \<longleftrightarrow> Relation ua = relID \<and>
      (\<exists>u. Relation u = relID \<and> (\<exists>tree \<in> set (forwardForest ic). \<exists>cur. (AssociateTo ua, cur) \<in> set (lt_ForEach tree) \<and>
         (u, p) \<in> set (as_ForEach cur)))"
    (is "?M \<longleftrightarrow> ?N")
  proof
    assume ?M
    then obtain tree i cur u where "tree \<in> set (forwardForest ic)" "(i, cur) \<in> set (lt_ForEach tree)"
      "(u, p) \<in> set (as_ForEach cur)" "Relation u = relID" "ua = \<lparr>AssociateTo = i, Relation = relID\<rparr>"
      by (auto simp: relationPuts_def)
    then show ?N by auto
  next
    assume ?N
    then obtain tree cur u where "tree \<in> set (forwardForest ic)" "(AssociateTo ua, cur) \<in> set (lt_ForEach tree)"
      "(u, p) \<in> set (as_ForEach cur)" "Relation u = relID" "Relation ua = relID" by blast
    then have "(\<lparr>AssociateTo = AssociateTo ua, Relation = relID\<rparr>, p) \<in> set (relationPuts relID ic)"
      unfolding relationPuts_def set_concat set_map by force
    with \<open>Relation ua = relID\<close> show ?M by (cases ua) simp
  qed
  also have "\<dots> \<longleftrightarrow> (\<exists>t. record_at ic p = Some t \<and> t_Value1 t = relID \<and> ua = revKey t)"
    unfolding forest_entries [OF assms] by (cases ua) (auto simp: fwdKey_def revKey_def)
  finally show ?thesis .
qed

section \<open>Terms of a query\<close>

text \<open>A set that stands for the triples with property \<open>Q\<close>, in the shape of the reverse index.\<close>

definition selects :: "collection \<Rightarrow> AssociationSet \<Rightarrow> (StringTriple \<Rightarrow> bool) \<Rightarrow> bool" where
  "selects ic cur Q \<longleftrightarrow>
     as_inv cur \<and>
     (\<forall>ua p. as_Get cur ua = Some p \<longleftrightarrow>
        (\<exists>t. record_at ic p = Some t \<and> ua = revKey t \<and> Q (makeStringTriple ic t)))"

lemma selectsD:
  assumes "selects ic cur Q"
  shows "as_inv cur"
    and "as_Get cur ua = Some p \<longleftrightarrow> (\<exists>t. record_at ic p = Some t \<and> ua = revKey t \<and> Q (makeStringTriple ic t))"
  using assms unfolding selects_def by blast+

lemma selects_quiet: "coll_wf ic \<Longrightarrow> quiet ic ic' \<Longrightarrow> selects ic' cur Q = selects ic cur Q"
  by (simp add: selects_def quietD)

text \<open>Keeping the entries that a test on the key accepts keeps the triples that it accepts.\<close>

lemma selects_restrict:
  assumes "selects ic cur Q" "as_inv cur'"
    and "\<And>ua. as_Get cur' ua = (if T ua then as_Get cur ua else None)"
    and "\<And>p t. record_at ic p = Some t \<Longrightarrow> T (revKey t) \<longleftrightarrow> R (makeStringTriple ic t)"
  shows "selects ic cur' (\<lambda>st. Q st \<and> R st)"
  unfolding selects_def assms(3)
  using assms(2) selectsD(2) [OF assms(1)] assms(4) by (auto split: if_splits)

definition carries :: "collection \<Rightarrow> string \<Rightarrow> StringTriple \<Rightarrow> bool" where
  "carries ic tag st \<longleftrightarrow>
     reverseIndexed ic (Value1 st) \<and> \<lparr>Key = Key st, Value1 = Value1 st, Value2 = tag\<rparr> \<in> triples ic"

definition inScope :: "collection \<Rightarrow> string \<Rightarrow> StringTriple \<Rightarrow> bool" where
  "inScope ic sc st \<longleftrightarrow> (\<exists>r. reverseIndexed ic r \<and> \<lparr>Key = Key st, Value1 = r, Value2 = sc\<rparr> \<in> triples ic)"

definition holdsRelation :: "collection \<Rightarrow> string \<Rightarrow> StringTriple \<Rightarrow> bool" where
  "holdsRelation ic r st \<longleftrightarrow> (\<exists>v. \<lparr>Key = Key st, Value1 = r, Value2 = v\<rparr> \<in> triples ic)"

lemma shouldBuildReverse_string:
  "shouldBuildReverse t ic \<longleftrightarrow> reverseIndexed ic (Value1 (makeStringTriple ic t))"
  by (simp add: shouldBuildReverse_def reverseIndexed_def makeStringTriple_def)

text \<open>Ids and strings of stored triples agree.\<close>

lemma record_strings:
  assumes "coll_wf ic" "record_at ic p = Some t" "record_at ic q = Some u"
  shows "Key (makeStringTriple ic t) = Key (makeStringTriple ic u) \<longleftrightarrow> t_Key t = t_Key u"
    and "Value1 (makeStringTriple ic t) = Value1 (makeStringTriple ic u) \<longleftrightarrow> t_Value1 t = t_Value1 u"
proof -
  note w = wfD [OF assms(1)]
  have n: "triple_named ic t" "triple_named ic u"
    using idx_wfD(2) [OF w(3)] assms(2,3) by blast+
  then have *: "named ic (t_Level t) (t_Key t)" "named ic (t_Level u) (t_Key u)"
    "named ic (t_Value1Level t) (t_Value1 t)" "named ic (t_Value1Level u) (t_Value1 u)"
    by (simp_all add: triple_named_def)
  have eq: "getValueString ic l i = getValueString ic l' i' \<longleftrightarrow> i = i'"
    if "named ic l i" "named ic l' i'" for l i l' i'
    using named_value(2) [OF w(1)] named_level [OF w(1)] that by (metis option.inject prod.inject)
  show "Key (makeStringTriple ic t) = Key (makeStringTriple ic u) \<longleftrightarrow> t_Key t = t_Key u"
    and "Value1 (makeStringTriple ic t) = Value1 (makeStringTriple ic u) \<longleftrightarrow> t_Value1 t = t_Value1 u"
    using eq * by (simp_all add: makeStringTriple_def)
qed

lemma triples_iff: "st \<in> triples ic \<longleftrightarrow> (\<exists>p t. record_at ic p = Some t \<and> st = makeStringTriple ic t)"
  by (auto simp: triples_def ran_def)

lemma triple_iff:
  "\<lparr>Key = s, Value1 = r, Value2 = v\<rparr> \<in> triples ic \<longleftrightarrow>
     (\<exists>p t. record_at ic p = Some t \<and> Key (makeStringTriple ic t) = s \<and>
        Value1 (makeStringTriple ic t) = r \<and> Value2 (makeStringTriple ic t) = v)"
proof -
  have "\<lparr>Key = s, Value1 = r, Value2 = v\<rparr> = st \<longleftrightarrow> Key st = s \<and> Value1 st = r \<and> Value2 st = v"
    for st :: StringTriple by (cases st) auto
  then show ?thesis unfolding triples_iff by simp
qed

lemma revKey_eq: "revKey t = revKey u \<longleftrightarrow> t_Key t = t_Key u \<and> t_Value1 t = t_Value1 u"
  by (simp add: revKey_def)

text \<open>An entry of the reverse set of \<open>tag\<close>.\<close>

lemma reverse_get:
  assumes wf: "coll_wf ic" and tag: "storable tag" "lookupEntry ic tag = Some (i, l)"
  shows "(\<exists>p. as_Get (getReverseAssociations ic l i) ua = Some p) \<longleftrightarrow>
    (\<exists>q u. record_at ic q = Some u \<and> ua = revKey u \<and> Value2 (makeStringTriple ic u) = tag \<and>
       reverseIndexed ic (Value1 (makeStringTriple ic u)))"
proof -
  note w = wfD [OF wf]
  have v: "Value2 (makeStringTriple ic u) = tag \<longleftrightarrow> t_Value2Level u = l \<and> t_Value2 u = i"
    if "record_at ic q = Some u" for q u
    using named_string_iff [OF w(1) tag] idx_wfD(2) [OF w(3) that]
    by (simp add: triple_named_def makeStringTriple_def)
  show ?thesis
    unfolding as.entries_iff [OF assoc_inv(2) [OF wf], symmetric] reverse_entries [OF wf]
      shouldBuildReverse_string
    using v by blast
qed

lemma carries_get:
  assumes wf: "coll_wf ic" and tag: "storable tag" "lookupEntry ic tag = Some (i, l)"
    and t: "record_at ic p = Some t"
  shows "as_Get (getReverseAssociations ic l i) (revKey t) \<noteq> None \<longleftrightarrow> carries ic tag (makeStringTriple ic t)"
proof -
  let ?st = "makeStringTriple ic t"
  have c: "revKey t = revKey u \<longleftrightarrow>
      Key (makeStringTriple ic u) = Key ?st \<and> Value1 (makeStringTriple ic u) = Value1 ?st"
    if "record_at ic q = Some u" for q u
    using record_strings [OF wf t that] by (auto simp: revKey_eq)
  have "as_Get (getReverseAssociations ic l i) (revKey t) \<noteq> None \<longleftrightarrow>
    (\<exists>q u. record_at ic q = Some u \<and> (Key (makeStringTriple ic u) = Key ?st \<and>
       Value1 (makeStringTriple ic u) = Value1 ?st) \<and> Value2 (makeStringTriple ic u) = tag \<and>
       reverseIndexed ic (Value1 ?st))"
    unfolding not_None_eq reverse_get [OF wf tag] using c by (metis (no_types, opaque_lifting))
  then show ?thesis unfolding carries_def triple_iff by blast
qed

lemma inScope_get:
  assumes wf: "coll_wf ic" and tag: "storable sc" "lookupEntry ic sc = Some (i, l)"
    and t: "record_at ic p = Some t"
  shows "(\<exists>k. AssociateTo k = AssociateTo (revKey t) \<and> as_Get (getReverseAssociations ic l i) k \<noteq> None) \<longleftrightarrow>
    inScope ic sc (makeStringTriple ic t)"
proof -
  let ?st = "makeStringTriple ic t"
  have c: "AssociateTo (revKey u) = AssociateTo (revKey t) \<longleftrightarrow> Key (makeStringTriple ic u) = Key ?st"
    if "record_at ic q = Some u" for q u
    using record_strings(1) [OF wf t that] by (auto simp: revKey_def)
  have "(\<exists>k. AssociateTo k = AssociateTo (revKey t) \<and> as_Get (getReverseAssociations ic l i) k \<noteq> None) \<longleftrightarrow>
    (\<exists>q u. record_at ic q = Some u \<and> Key (makeStringTriple ic u) = Key ?st \<and>
       Value2 (makeStringTriple ic u) = sc \<and> reverseIndexed ic (Value1 (makeStringTriple ic u)))"
    unfolding not_None_eq reverse_get [OF wf tag] using c by (metis (no_types, opaque_lifting))
  then show ?thesis unfolding inScope_def triple_iff by blast
qed


lemma reverseIndexed_quiet: "coll_wf ic \<Longrightarrow> quiet ic ic' \<Longrightarrow> reverseIndexed ic' = reverseIndexed ic"
  using quietD(11) [of ic ic'] by (simp add: fun_eq_iff reverseIndexed_def same_config_def)

lemma tests_quiet:
  assumes "coll_wf ic" "quiet ic ic'"
  shows "carries ic' = carries ic" "inScope ic' = inScope ic" "holdsRelation ic' = holdsRelation ic"
  using quietD(2) [OF assms] reverseIndexed_quiet [OF assms]
  by (simp_all add: fun_eq_iff carries_def inScope_def holdsRelation_def)

lemma tests_unknown:
  assumes "coll_wf ic" "lookupEntry ic v = None"
  shows "\<not> carries ic v st" "\<not> inScope ic v st" "\<not> holdsRelation ic v st"
  using triples_Key(2,3) [OF assms] by (fastforce simp: carries_def inScope_def holdsRelation_def)+

lemma reverse_seed:
  assumes "coll_wf ic" "storable tag" "lookupEntry ic tag = Some (i, l)"
  shows "selects ic (getReverseAssociations ic l i)
    (\<lambda>st. Value2 st = tag \<and> reverseIndexed ic (Value1 st))"
proof -
  note w = wfD [OF assms(1)]
  have v: "Value2 (makeStringTriple ic u) = tag \<longleftrightarrow> t_Value2Level u = l \<and> t_Value2 u = i"
    if "record_at ic q = Some u" for q u
    using named_string_iff [OF w(1) assms(2,3)] idx_wfD(2) [OF w(3) that]
    by (simp add: triple_named_def makeStringTriple_def)
  show ?thesis
    unfolding selects_def as.entries_iff [OF assoc_inv(2) [OF assms(1)], symmetric]
      reverse_entries [OF assms(1)] shouldBuildReverse_string
    using v assoc_inv(2) [OF assms(1)] by auto
qed

lemma intersectTerms_spec:
  assumes "coll_wf ic" "selects ic cur Q" "\<forall>tag \<in> set tags. storable tag"
    and "intersectTerms tags cur ic = (res, ic')"
  shows "quiet ic ic' \<and>
    (case res of
       Some cur' \<Rightarrow> selects ic cur' (\<lambda>st. Q st \<and> (\<forall>tag \<in> set tags. carries ic tag st))
     | None \<Rightarrow> \<forall>st. \<not> (\<forall>tag \<in> set tags. carries ic tag st))"
  using assms
proof (induction tags arbitrary: cur Q ic)
  case Nil
  then show ?case by (auto intro: quiet_refl)
next
  case (Cons tag tags)
  obtain other found ic1 where g: "GetReverseAssociations tag ic = ((other, found), ic1)"
    by (metis prod.collapse)
  note ga = GetReverseAssociations_quiet [OF Cons.prems(1) g]
  note q = quietD [OF Cons.prems(1) ga(1)]
  show ?case
  proof (cases "lookupEntry ic tag")
    case None
    with ga(2) Cons.prems(4) g have "res = None" "ic' = ic1" by auto
    with ga(1) tests_unknown(1) [OF Cons.prems(1) None] show ?thesis by auto
  next
    case (Some e)
    obtain i l where e: "e = (i, l)" by force
    have o: "other = getReverseAssociations ic l i" using ga(3) Some e by simp
    have "selects ic (intersect cur other) (\<lambda>st. Q st \<and> carries ic tag st)"
    proof (rule selects_restrict [OF Cons.prems(2), where T = "\<lambda>ua. as_Get other ua \<noteq> None"])
      show "as_Get other (revKey t) \<noteq> None \<longleftrightarrow> carries ic tag (makeStringTriple ic t)"
        if "record_at ic p = Some t" for p t
        using carries_get [OF Cons.prems(1) _ _ that] Some e o Cons.prems(3) by simp
    qed (use selectsD(1) [OF Cons.prems(2)] in \<open>simp_all add: as_Get_intersect\<close>)
    then have s: "selects ic1 (intersect cur other) (\<lambda>st. Q st \<and> carries ic tag st)"
      using selects_quiet [OF Cons.prems(1) ga(1)] by simp
    have "intersectTerms tags (intersect cur other) ic1 = (res, ic')"
      using Cons.prems(4) g ga(2) Some by simp
    from Cons.IH [OF q(1) s _ this] Cons.prems(3) have ih: "quiet ic1 ic'"
      "case res of
         Some cur' \<Rightarrow> selects ic1 cur' (\<lambda>st. (Q st \<and> carries ic tag st) \<and> (\<forall>tag \<in> set tags. carries ic1 tag st))
       | None \<Rightarrow> \<forall>st. \<not> (\<forall>tag \<in> set tags. carries ic1 tag st)" by simp_all
    then show ?thesis
      using quiet_trans [OF ga(1) ih(1)] selects_quiet [OF Cons.prems(1) ga(1)]
        tests_quiet [OF Cons.prems(1) ga(1)]
      by (auto simp: conj_assoc split: option.splits)
  qed
qed

lemma excludeTerms_spec:
  assumes "coll_wf ic" "selects ic cur Q" "\<forall>tag \<in> set tags. storable tag"
    and "excludeTerms tags cur ic = (cur', ic')"
  shows "quiet ic ic' \<and> selects ic cur' (\<lambda>st. Q st \<and> (\<forall>tag \<in> set tags. \<not> carries ic tag st))"
  using assms
proof (induction tags arbitrary: cur Q ic)
  case Nil
  then show ?case by (auto intro: quiet_refl)
next
  case (Cons tag tags)
  obtain other found ic1 where g: "GetReverseAssociations tag ic = ((other, found), ic1)"
    by (metis prod.collapse)
  note ga = GetReverseAssociations_quiet [OF Cons.prems(1) g]
  note q = quietD [OF Cons.prems(1) ga(1)]
  define cur1 where "cur1 = (if found then exclude cur other else cur)"
  have "selects ic cur1 (\<lambda>st. Q st \<and> \<not> carries ic tag st)"
  proof (cases "lookupEntry ic tag")
    case None
    with ga(2) Cons.prems(2) tests_unknown(1) [OF Cons.prems(1) None] show ?thesis by (simp add: cur1_def)
  next
    case (Some e)
    obtain i l where e: "e = (i, l)" by force
    have o: "other = getReverseAssociations ic l i" using ga(3) Some e by simp
    have c1: "cur1 = exclude cur other" using ga(2) Some by (simp add: cur1_def)
    show ?thesis
      unfolding c1
    proof (rule selects_restrict [OF Cons.prems(2), where T = "\<lambda>ua. as_Get other ua = None"])
      show "as_Get other (revKey t) = None \<longleftrightarrow> \<not> carries ic tag (makeStringTriple ic t)"
        if "record_at ic p = Some t" for p t
        using carries_get [OF Cons.prems(1) _ _ that, of tag i l] Some e o Cons.prems(3)
        by (metis list.set_intros(1))
    qed (use selectsD(1) [OF Cons.prems(2)] in \<open>simp_all add: as_Get_exclude\<close>)
  qed
  then have s: "selects ic1 cur1 (\<lambda>st. Q st \<and> \<not> carries ic tag st)"
    using selects_quiet [OF Cons.prems(1) ga(1)] by simp
  have "excludeTerms tags cur1 ic1 = (cur', ic')"
    using Cons.prems(4) g by (simp add: cur1_def split: bool.splits)
  from Cons.IH [OF q(1) s _ this] Cons.prems(3) have ih: "quiet ic1 ic'"
    "selects ic1 cur' (\<lambda>st. (Q st \<and> \<not> carries ic tag st) \<and> (\<forall>tag \<in> set tags. \<not> carries ic1 tag st))"
    by simp_all
  then show ?case
    using quiet_trans [OF ga(1) ih(1)] selects_quiet [OF Cons.prems(1) ga(1)]
      tests_quiet [OF Cons.prems(1) ga(1)]
    by (simp add: conj_assoc)
qed

lemma scopeTerm_spec:
  assumes "coll_wf ic" "selects ic cur Q" "storable sc" "scopeTerm sc cur ic = (res, ic')"
  shows "quiet ic ic'"
    and "case res of
       Some cur' \<Rightarrow> selects ic cur' (\<lambda>st. Q st \<and> (sc \<noteq> '''' \<longrightarrow> inScope ic sc st))
     | None \<Rightarrow> \<forall>st. \<not> (sc \<noteq> '''' \<longrightarrow> inScope ic sc st)"
proof -
  obtain other found ic1 where g: "GetReverseAssociations sc ic = ((other, found), ic1)"
    by (metis prod.collapse)
  note ga = GetReverseAssociations_quiet [OF assms(1) g]
  show "quiet ic ic'" using assms(4) g ga(1) quiet_refl [OF assms(1)]
    by (auto simp: scopeTerm_def split: if_splits bool.splits)
  show "case res of
       Some cur' \<Rightarrow> selects ic cur' (\<lambda>st. Q st \<and> (sc \<noteq> '''' \<longrightarrow> inScope ic sc st))
     | None \<Rightarrow> \<forall>st. \<not> (sc \<noteq> '''' \<longrightarrow> inScope ic sc st)"
  proof (cases "sc = ''''")
    case True
    with assms show ?thesis by (auto simp: scopeTerm_def)
  next
    case False
    show ?thesis
    proof (cases "lookupEntry ic sc")
      case None
      with False g ga(2) assms(4) tests_unknown(2) [OF assms(1) None] show ?thesis
        by (auto simp: scopeTerm_def)
    next
      case (Some e)
      obtain i l where e: "e = (i, l)" by force
      have o: "other = getReverseAssociations ic l i" using ga(3) Some e by simp
      have inv: "as_inv other" using o assoc_inv(2) [OF assms(1)] by simp
      have res: "res = Some (intersectByAssociate cur other)"
        using assms(4) False g ga(2) Some by (simp add: scopeTerm_def)
      have "selects ic (intersectByAssociate cur other) (\<lambda>st. Q st \<and> inScope ic sc st)"
      proof (rule selects_restrict [OF assms(2), where
            T = "\<lambda>ua. \<exists>k. AssociateTo k = AssociateTo ua \<and> as_Get other k \<noteq> None"])
        show "(\<exists>k. AssociateTo k = AssociateTo (revKey t) \<and> as_Get other k \<noteq> None) \<longleftrightarrow>
            inScope ic sc (makeStringTriple ic t)"
          if "record_at ic p = Some t" for p t
          using inScope_get [OF assms(1,3) _ that] Some e o by simp
      qed (use selectsD(1) [OF assms(2)] as_Get_intersectByAssociate [OF _ inv] in simp_all)
      with res False show ?thesis by simp
    qed
  qed
qed


section \<open>Holding and lacking a relation\<close>

lemma relation_string:
  assumes "coll_wf ic" "storable r" "lookupEntry ic r = Some (i, l)" "record_at ic p = Some t"
  shows "Value1 (makeStringTriple ic t) = r \<longleftrightarrow> t_Value1 t = i"
proof -
  note w = wfD [OF assms(1)]
  have n: "named ic (t_Value1Level t) (t_Value1 t)"
    using idx_wfD(2) [OF w(3) assms(4)] by (simp add: triple_named_def)
  have "named ic l i" using assms(2,3) by (auto simp: named_def)
  then have "t_Value1 t = i \<Longrightarrow> t_Value1Level t = l" using named_level [OF w(1) n] by blast
  then show ?thesis
    using named_string_iff [OF w(1) assms(2,3) n] by (auto simp: makeStringTriple_def)
qed

lemma holdsRelation_iff:
  assumes "coll_wf ic" "storable r" "lookupEntry ic r = Some (i, l)" "record_at ic p = Some t"
  shows "holdsRelation ic r (makeStringTriple ic t) \<longleftrightarrow>
    (\<exists>q u. record_at ic q = Some u \<and> t_Value1 u = i \<and> t_Key u = t_Key t)"
  unfolding holdsRelation_def triple_iff
  using record_strings(1) [OF assms(1) _ assms(4)] relation_string [OF assms(1-3)] by blast

lemma revKey_assoc: "AssociateTo (revKey t) = t_Key t"
  by (simp add: revKey_def)

lemma heldTerm_spec:
  assumes "coll_wf ic" "selects ic cur Q" "storable r" "heldTerm r True cur ic = (cur', ic')"
  shows "quiet ic ic'"
    and "selects ic cur' (\<lambda>st. Q st \<and> (r \<noteq> '''' \<longrightarrow> holdsRelation ic r st))"
proof -
  obtain e ic1 where g: "getEntryFromString r ic = (e, ic1)" by force
  note ge = getEntryFromString_quiet [OF assms(1) g]
  note q = quietD [OF assms(1) ge(2)]
  show "quiet ic ic'"
    using assms(4) g ge(2) quiet_refl [OF assms(1)]
    by (auto simp: heldTerm_def subjectsWithRelation_puts split: if_splits option.splits prod.splits)
  show "selects ic cur' (\<lambda>st. Q st \<and> (r \<noteq> '''' \<longrightarrow> holdsRelation ic r st))"
  proof (cases "r = ''''")
    case True
    with assms show ?thesis by (auto simp: heldTerm_def)
  next
    case False
    obtain held where held: "fst (subjectsWithRelation r ic) = held" by blast
    have c': "cur' = intersectByAssociate cur held"
      using assms(4) False held by (auto simp: heldTerm_def split: prod.splits)
    have h: "as_inv held \<and> (\<forall>p t. record_at ic p = Some t \<longrightarrow>
        ((\<exists>k. AssociateTo k = AssociateTo (revKey t) \<and> as_Get held k \<noteq> None) \<longleftrightarrow>
         holdsRelation ic r (makeStringTriple ic t)))"
    proof (cases "lookupEntry ic r")
      case None
      then have "held = newAssociationSet" using held g ge(1) by (simp add: subjectsWithRelation_puts)
      with tests_unknown(3) [OF assms(1) None] show ?thesis by (simp add: as.laws)
    next
      case (Some x)
      obtain i l where x: "x = (i, l)" by force
      have hd: "held = fold (\<lambda>(k, v). as_Put k v) (relationPuts i ic1) newAssociationSet"
        using held g ge(1) Some x by (simp add: subjectsWithRelation_puts)
      have "as_Get held k \<noteq> None \<longleftrightarrow> (\<exists>q u. record_at ic q = Some u \<and> t_Value1 u = i \<and> k = revKey u)" for k
      proof -
        have "as_Get held k \<noteq> None \<longleftrightarrow> (\<exists>p. (k, p) \<in> set (relationPuts i ic1))"
          unfolding hd as.put_all(2) [OF as.inv_empty] as.get_empty
          by (simp add: map_of_eq_None_iff image_iff) (metis (no_types) fst_conv map_of_eq_None_iff
              not_None_eq image_iff set_rev prod.collapse)
        then show ?thesis unfolding relationPuts_iff [OF q(1)] q(5) .
      qed
      then have "(\<exists>k. AssociateTo k = AssociateTo (revKey t) \<and> as_Get held k \<noteq> None) \<longleftrightarrow>
          (\<exists>q u. record_at ic q = Some u \<and> t_Value1 u = i \<and> t_Key u = t_Key t)" for t
        unfolding not_None_eq by (metis revKey_assoc)
      then show ?thesis
        using holdsRelation_iff [OF assms(1,3)] Some x as.put_all(1) [OF as.inv_empty] by (simp add: hd)
    qed
    have "selects ic cur' (\<lambda>st. Q st \<and> holdsRelation ic r st)"
      unfolding c'
      by (rule selects_restrict [OF assms(2), where
            T = "\<lambda>ua. \<exists>k. AssociateTo k = AssociateTo ua \<and> as_Get held k \<noteq> None"])
        (use h selectsD(1) [OF assms(2)] as_Get_intersectByAssociate [of cur held] in simp_all)
    with False show ?thesis by simp
  qed
qed

lemma missingLoop_spec:
  assumes "coll_wf ic" "sound ic es"
  shows "\<exists>ic'. missingLoop rel es out ic =
    (fold (\<lambda>(k, p) s. if (case rel of None \<Rightarrow> True | Some i \<Rightarrow>
         \<not> HasRelation (getAssociations ic (t_Level (tripleOf ic (k, p))) (t_Key (tripleOf ic (k, p)))) i)
       then as_Put k p s else s) es out, ic') \<and> quiet ic ic'"
  using assms
proof (induction es arbitrary: ic out)
  case Nil
  then show ?case by (auto intro: quiet_refl)
next
  case (Cons e es)
  obtain ua p where e: "e = (ua, p)" by force
  show ?case
  proof (cases rel)
    case None
    with Cons e show ?thesis by auto
  next
    case (Some i)
    from Cons.prems e obtain t where t: "record_at ic p = Some t" "entryMatches ua t" and s: "sound ic es"
      by auto
    obtain ic1 where ic1: "resolveEntry ua p ic = (Some t, ic1)" "quiet ic ic1"
      by (rule resolveEntry_quiet [OF Cons.prems(1) t])
    note q = quietD [OF Cons.prems(1) ic1(2)]
    have "sound ic1 es" using s sound_quiet [OF Cons.prems(1) ic1(2)] by simp
    note ih = Cons.IH [OF q(1) this]
    have "tripleOf ic1 = tripleOf ic" by (simp add: fun_eq_iff tripleOf_def q)
    moreover have "tripleOf ic (ua, p) = t" using t(1) by (simp add: tripleOf_def)
    moreover obtain ic2 where "missingLoop (Some i) es
        (if \<not> HasRelation (getAssociations ic1 (t_Level t) (t_Key t)) i then as_Put ua p out else out) ic1 =
      (fold (\<lambda>(k, p) s. if (case Some i of None \<Rightarrow> True | Some i \<Rightarrow>
         \<not> HasRelation (getAssociations ic1 (t_Level (tripleOf ic1 (k, p))) (t_Key (tripleOf ic1 (k, p)))) i)
       then as_Put k p s else s) es
        (if \<not> HasRelation (getAssociations ic1 (t_Level t) (t_Key t)) i then as_Put ua p out else out), ic2)"
      "quiet ic1 ic2" using ih [unfolded Some] by blast
    ultimately show ?thesis
      using Some e ic1 q(6) quiet_trans [OF ic1(2)] by auto
  qed
qed


lemma selects_entries:
  assumes "coll_wf ic" "selects ic cur Q"
  shows "distinct (as_ForEach cur)"
    and "(ua, p) \<in> set (as_ForEach cur) \<longleftrightarrow>
      (\<exists>t. record_at ic p = Some t \<and> Q (makeStringTriple ic t) \<and> ua = revKey t)"
    and "sound ic (as_ForEach cur)"
proof -
  note inv = selectsD(1) [OF assms(2)]
  show d: "distinct (as_ForEach cur)" using as.distinct_entries [OF inv] by (simp add: distinct_map)
  show es: "(ua, p) \<in> set (as_ForEach cur) \<longleftrightarrow>
      (\<exists>t. record_at ic p = Some t \<and> Q (makeStringTriple ic t) \<and> ua = revKey t)" for ua p
    unfolding as.entries_iff [OF inv] selectsD(2) [OF assms(2)] by blast
  show "sound ic (as_ForEach cur)" by (rule entries_strings(3) [OF assms(1) d es]) simp
qed

lemma HasRelation_string:
  assumes "coll_wf ic" "storable r" "lookupEntry ic r = Some (i, l)" "record_at ic p = Some t"
  shows "HasRelation (getAssociations ic (t_Level t) (t_Key t)) i \<longleftrightarrow> holdsRelation ic r (makeStringTriple ic t)"
proof -
  note w = wfD [OF assms(1)]
  have "named ic (t_Level t) (t_Key t)" using idx_wfD(2) [OF w(3) assms(4)] by (simp add: triple_named_def)
  then have lv: "t_Level u = t_Level t" if "record_at ic q = Some u" "t_Key u = t_Key t" for q u
    using idx_wfD(2) [OF w(3) that(1)] that(2) named_level [OF w(1)] by (auto simp: triple_named_def)
  have "HasRelation (getAssociations ic (t_Level t) (t_Key t)) i \<longleftrightarrow>
      (\<exists>ua q. (ua, q) \<in> set (as_ForEach (getAssociations ic (t_Level t) (t_Key t))) \<and> Relation ua = i)"
    unfolding HasRelation_ForEach by force
  also have "\<dots> \<longleftrightarrow> (\<exists>q u. record_at ic q = Some u \<and> t_Value1 u = i \<and> t_Key u = t_Key t)"
    unfolding forward_entries [OF assms(1)] using lv by (force simp: fwdKey_def)
  finally show ?thesis unfolding holdsRelation_iff [OF assms] .
qed

lemma missingTerm_spec:
  assumes "coll_wf ic" "selects ic cur Q" "storable r" "missingTerm r cur ic = (cur', ic')"
  shows "quiet ic ic'"
    and "selects ic cur' (\<lambda>st. Q st \<and> (r \<noteq> '''' \<longrightarrow> \<not> holdsRelation ic r st))"
proof -
  obtain e ic1 where g: "getEntryFromString r ic = (e, ic1)" by force
  note ge = getEntryFromString_quiet [OF assms(1) g]
  note q = quietD [OF assms(1) ge(2)]
  note se = selects_entries [OF assms(1,2)]
  define P where "P = (\<lambda>k p. case map_option fst e of None \<Rightarrow> True | Some i \<Rightarrow>
    \<not> HasRelation (getAssociations ic1 (t_Level (tripleOf ic1 (k, p))) (t_Key (tripleOf ic1 (k, p)))) i)"
  have "sound ic1 (as_ForEach cur)" using se(3) sound_quiet [OF assms(1) ge(2)] by simp
  from missingLoop_spec [OF q(1) this, of "map_option fst e" newAssociationSet] obtain ic2 where
    ml: "missingLoop (map_option fst e) (as_ForEach cur) newAssociationSet ic1 =
      (fold (\<lambda>(k, p) s. if P k p then as_Put k p s else s) (as_ForEach cur) newAssociationSet, ic2)"
    "quiet ic1 ic2" unfolding P_def by blast
  have res: "(cur', ic') = (if r = '''' then (cur, ic)
      else (fold (\<lambda>(k, p) s. if P k p then as_Put k p s else s) (as_ForEach cur) newAssociationSet, ic2))"
    using assms(4) g ml(1) by (simp add: missingTerm_def filterMissingRelation_def split: if_splits)
  show "quiet ic ic'" using res quiet_trans [OF ge(2) ml(2)] quiet_refl [OF assms(1)] by (simp split: if_splits)
  show "selects ic cur' (\<lambda>st. Q st \<and> (r \<noteq> '''' \<longrightarrow> \<not> holdsRelation ic r st))"
  proof (cases "r = ''''")
    case True
    with res assms(2) show ?thesis by simp
  next
    case False
    note inv = selectsD(1) [OF assms(2)]
    have c': "as_inv cur'" "as_Get cur' k = (case as_Get cur k of Some v \<Rightarrow> if P k v then Some v else None | None \<Rightarrow> None)" for k
      using res False as.inv_put_selected [OF inv, of P] as.get_put_selected [OF inv, of P] by simp_all
    have P: "P (revKey t) p \<longleftrightarrow> \<not> holdsRelation ic r (makeStringTriple ic t)" if "record_at ic p = Some t" for p t
    proof (cases "lookupEntry ic r")
      case None
      with ge(1) tests_unknown(3) [OF assms(1) None] show ?thesis by (simp add: P_def)
    next
      case (Some x)
      obtain i l where x: "x = (i, l)" by force
      have "tripleOf ic1 (revKey t, p) = t" using that q(5) by (simp add: tripleOf_def)
      with ge(1) Some x q(6) HasRelation_string [OF assms(1,3) _ that, of i l] show ?thesis
        by (simp add: P_def)
    qed
    have "as_Get cur' ua = Some p \<longleftrightarrow> (\<exists>t. record_at ic p = Some t \<and> ua = revKey t \<and>
        Q (makeStringTriple ic t) \<and> \<not> holdsRelation ic r (makeStringTriple ic t))" for ua p
    proof -
      have "as_Get cur' ua = Some p \<longleftrightarrow> as_Get cur ua = Some p \<and> P ua p"
        by (auto simp: c'(2) split: option.splits)
      then show ?thesis unfolding selectsD(2) [OF assms(2)] using P by blast
    qed
    with c'(1) False show ?thesis by (simp add: selects_def)
  qed
qed

section \<open>The whole query\<close>

definition query_storable :: "TagQuery \<Rightarrow> bool" where
  "query_storable q \<longleftrightarrow>
     (\<forall>v \<in> set (Include q) \<union> set (Exclude q) \<union> {Scope q, HasRel q, MissingRelation q}. storable v)"

text \<open>What a reverse query over \<open>Include\<close> terms asks for.\<close>

definition query_matches :: "collection \<Rightarrow> TagQuery \<Rightarrow> StringTriple \<Rightarrow> bool" where
  "query_matches ic q st \<longleftrightarrow>
     Value2 st = hd (Include q) \<and> reverseIndexed ic (Value1 st) \<and>
     (\<forall>tag \<in> set (tl (Include q)). carries ic tag st) \<and>
     (\<forall>tag \<in> set (Exclude q). \<not> carries ic tag st) \<and>
     (Scope q \<noteq> '''' \<longrightarrow> inScope ic (Scope q) st) \<and>
     (HasRel q \<noteq> '''' \<longrightarrow> holdsRelation ic (HasRel q) st) \<and>
     (MissingRelation q \<noteq> '''' \<longrightarrow> \<not> holdsRelation ic (MissingRelation q) st)"

lemma resolveQuery_spec:
  assumes wf: "coll_wf ic" and q: "Reverse q" "Include q \<noteq> []" "query_storable q"
    and res: "resolveQuery q ic = (res, ic')"
  shows "quiet ic ic'" and "res \<noteq> Panics"
    and "\<And>cur. res = Matches cur \<Longrightarrow> selects ic cur (query_matches ic q)"
    and "res \<in> {NotFound, Empty} \<Longrightarrow> st \<in> triples ic \<Longrightarrow> \<not> query_matches ic q st"
    and "res = NotFound \<longleftrightarrow> lookupEntry ic (hd (Include q)) = None"
proof -
  obtain tag tags where inc: "Include q = tag # tags" using q(2) by (cases "Include q") auto
  have st: "storable tag" "\<forall>t \<in> set tags. storable t" "\<forall>t \<in> set (Exclude q). storable t"
    "storable (Scope q)" "storable (HasRel q)" "storable (MissingRelation q)"
    using q(3) by (auto simp: query_storable_def inc)
  have np: "\<not> resolveQuery_panics q ic" by (simp add: resolveQuery_panics_def inc)
  obtain seed found ic1 where g: "GetReverseAssociations tag ic = ((seed, found), ic1)"
    by (metis prod.collapse)
  note ga = GetReverseAssociations_quiet [OF wf g]
  have "quiet ic ic' \<and> res \<noteq> Panics \<and> (\<forall>cur. res = Matches cur \<longrightarrow> selects ic cur (query_matches ic q)) \<and>
    (res \<in> {NotFound, Empty} \<longrightarrow> (\<forall>st \<in> triples ic. \<not> query_matches ic q st)) \<and>
    (res = NotFound \<longleftrightarrow> lookupEntry ic tag = None)"
  proof (cases "lookupEntry ic tag")
    case None
    then have "res = NotFound" "ic' = ic1" using res q(1) inc np g ga(2) by (auto simp: resolveQuery_def)
    with ga(1) triples_Key(3) [OF wf None] None inc show ?thesis by (auto simp: query_matches_def)
  next
    case (Some x)
    obtain i l where x: "x = (i, l)" by force
    have seed: "selects ic seed (\<lambda>st. Value2 st = tag \<and> reverseIndexed ic (Value1 st))"
      using reverse_seed [OF wf st(1)] ga(3) Some x by simp
    note q1 = quietD [OF wf ga(1)] and eqs1 = selects_quiet [OF wf ga(1)] tests_quiet [OF wf ga(1)]
    obtain r2 ic2 where i2: "intersectTerms tags seed ic1 = (r2, ic2)" by force
    note s2 = intersectTerms_spec [OF q1(1) seed [folded eqs1(1)] st(2) i2, unfolded eqs1]
    note w2 = quiet_trans [OF ga(1) s2 [THEN conjunct1]]
    show ?thesis
    proof (cases r2)
      case None
      then have "res = Empty" "ic' = ic2"
        using res q(1) inc np g ga(2) Some i2 by (auto simp: resolveQuery_def)
      with w2 s2 None Some inc show ?thesis by (auto simp: query_matches_def)
    next
      case (Some c2)
      note eqs2 = selects_quiet [OF wf w2] tests_quiet [OF wf w2]
      have sel2: "selects ic c2 (\<lambda>st. (Value2 st = tag \<and> reverseIndexed ic (Value1 st)) \<and>
          (\<forall>tag \<in> set tags. carries ic tag st))" using s2 Some by simp
      obtain c3 ic3 where i3: "excludeTerms (Exclude q) c2 ic2 = (c3, ic3)" by force
      note s3 = excludeTerms_spec [OF quietD(1) [OF wf w2] sel2 [folded eqs2(1)] st(3) i3, unfolded eqs2]
      note w3 = quiet_trans [OF w2 s3 [THEN conjunct1]]
      note eqs3 = selects_quiet [OF wf w3] tests_quiet [OF wf w3]
      obtain r4 ic4 where i4: "scopeTerm (Scope q) c3 ic3 = (r4, ic4)" by force
      note s4 = scopeTerm_spec [OF quietD(1) [OF wf w3] s3 [THEN conjunct2, folded eqs3(1)] st(4) i4, unfolded eqs3]
      note w4 = quiet_trans [OF w3 s4(1)]
      show ?thesis
      proof (cases r4)
        case None
        then have "res = Empty" "ic' = ic4"
          using res q(1) inc np g ga(2) \<open>lookupEntry ic tag = Some x\<close> i2 Some i3 i4
          by (auto simp: resolveQuery_def)
        with w4 s4(2) None \<open>lookupEntry ic tag = Some x\<close> show ?thesis by (auto simp: query_matches_def)
      next
        case (Some c4)
        note eqs4 = selects_quiet [OF wf w4] tests_quiet [OF wf w4]
        have sel4: "selects ic4 c4 (\<lambda>st. (((Value2 st = tag \<and> reverseIndexed ic (Value1 st)) \<and>
            (\<forall>tag \<in> set tags. carries ic tag st)) \<and> (\<forall>tag \<in> set (Exclude q). \<not> carries ic tag st)) \<and>
            (Scope q \<noteq> '''' \<longrightarrow> inScope ic (Scope q) st))"
          using s4(2) Some eqs4(1) by simp
        obtain c5 ic5 where i5: "heldTerm (HasRel q) True c4 ic4 = (c5, ic5)" by force
        note s5 = heldTerm_spec [OF quietD(1) [OF wf w4] sel4 st(5) i5, unfolded eqs4]
        note w5 = quiet_trans [OF w4 s5(1)]
        note eqs5 = selects_quiet [OF wf w5] tests_quiet [OF wf w5]
        obtain c6 ic6 where i6: "missingTerm (MissingRelation q) c5 ic5 = (c6, ic6)" by force
        note s6 = missingTerm_spec [OF quietD(1) [OF wf w5] s5(2) [folded eqs5(1)] st(6) i6, unfolded eqs5]
        have "res = Matches c6" "ic' = ic6"
          using res q(1) inc np g ga(2) \<open>lookupEntry ic tag = Some x\<close> i2 \<open>r2 = Some c2\<close> i3 i4 Some i5 i6
          by (auto simp: resolveQuery_def)
        moreover have "selects ic c6 (query_matches ic q)"
          using s6(2) by (simp add: query_matches_def [abs_def] inc conj_assoc)
        ultimately show ?thesis using quiet_trans [OF w5 s6(1)] \<open>lookupEntry ic tag = Some x\<close> by simp
      qed
    qed
  qed
  then show "quiet ic ic'" and "res \<noteq> Panics"
    and "\<And>cur. res = Matches cur \<Longrightarrow> selects ic cur (query_matches ic q)"
    and "res \<in> {NotFound, Empty} \<Longrightarrow> st \<in> triples ic \<Longrightarrow> \<not> query_matches ic q st"
    and "res = NotFound \<longleftrightarrow> lookupEntry ic (hd (Include q)) = None" by (auto simp: inc)
qed


section \<open>The dump\<close>

lemma emitSets_spec:
  assumes "coll_wf ic" "\<forall>s \<in> set sets. sound ic (as_ForEach s)"
  shows "\<exists>ic'. emitSets sets ic =
    (concat (map (\<lambda>s. sort_by compareTriples (map (strOf ic) (as_ForEach s))) sets), ic') \<and> quiet ic ic'"
  using assms
proof (induction sets arbitrary: ic)
  case Nil
  then show ?case by (auto intro: quiet_refl)
next
  case (Cons s sets)
  from SortAll_spec [OF Cons.prems(1), of s "''''"] Cons.prems(2) obtain ic1 where
    s: "SortAll s '''' ic = ((sort_by compareTriples (map (strOf ic) (as_ForEach s)), length (as_ForEach s)), ic1)"
    "quiet ic ic1"
    by (auto simp: filterFor_def matching_def)
  note q = quietD [OF Cons.prems(1) s(2)]
  have "\<forall>s \<in> set sets. sound ic1 (as_ForEach s)"
    using Cons.prems(2) sound_quiet [OF Cons.prems(1) s(2)] by simp
  from Cons.IH [OF q(1) this] obtain ic2 where
    "emitSets sets ic1 = (concat (map (\<lambda>s. sort_by compareTriples (map (strOf ic1) (as_ForEach s))) sets), ic2)"
    "quiet ic1 ic2" by blast
  moreover have "strOf ic1 = strOf ic" by (simp add: fun_eq_iff strOf_def tripleOf_def q)
  ultimately show ?case using s quiet_trans [OF s(2)] by simp
qed

lemma distinct_concat_by:
  assumes "distinct is" "\<And>i. i \<in> set is \<Longrightarrow> distinct (f i)" "\<And>i x. i \<in> set is \<Longrightarrow> x \<in> set (f i) \<Longrightarrow> g x = i"
  shows "distinct (concat (map f is))"
  using assms
proof (induction "is")
  case Nil
  then show ?case by simp
next
  case (Cons i "is")
  have "distinct (concat (map f is))" using Cons by auto
  moreover have "x \<notin> set (concat (map f is))" if x: "x \<in> set (f i)" for x
  proof
    assume "x \<in> set (concat (map f is))"
    then obtain j where j: "j \<in> set is" "x \<in> set (f j)" by auto
    then have "g x = j" "g x = i" using Cons.prems(3) [of i x] Cons.prems(3) [of j x] x by auto
    with j(1) Cons.prems(1) show False by simp
  qed
  ultimately show ?case using Cons.prems(2) [of i] by auto
qed

lemma distinct_sort_by [simp]: "distinct (sort_by cmp xs) = distinct xs"
  by (rule mset_eq_imp_distinct_iff) simp

definition forestLevels :: "collection \<Rightarrow> int list" where
  "forestLevels ic =
     map int [0..<length (levels ic)] @ (case hashAssociations ic of None \<Rightarrow> [] | Some _ \<Rightarrow> [HASH_LEVEL])"

lemma forestLevels_spec:
  "distinct (forestLevels ic)" "l \<in> set (forestLevels ic) \<Longrightarrow> associationsTree ic l \<noteq> None"
  "forwardForest ic = map (\<lambda>l. the (associationsTree ic l)) (forestLevels ic)"
proof -
  show "distinct (forestLevels ic)"
    by (auto simp: forestLevels_def HASH_LEVEL_def distinct_map inj_on_def split: option.splits)
  show "l \<in> set (forestLevels ic) \<Longrightarrow> associationsTree ic l \<noteq> None"
    by (cases "hashAssociations ic")
      (auto simp: forestLevels_def associationsTree_def levelAt_def HASH_LEVEL_def)
  have "map associations (levels ic) = map (\<lambda>l. the (associationsTree ic l)) (map int [0..<length (levels ic)])"
    by (rule nth_equalityI) (simp_all add: associationsTree_def levelAt_def HASH_LEVEL_def)
  then show "forwardForest ic = map (\<lambda>l. the (associationsTree ic l)) (forestLevels ic)"
    by (simp add: forestLevels_def forwardForest_def associationsTree_def split: option.splits)
qed

text \<open>The dump lists every triple once.\<close>

lemma ForEachTriple_spec:
  assumes wf: "coll_wf ic" and "ForEachTriple ic = (sts, ic')"
  shows "quiet ic ic'" and "set sts = triples ic" and "distinct sts"
proof -
  define strs where "strs = (\<lambda>s. sort_by compareTriples (map (strOf ic) (as_ForEach s)))"
  define sets where "sets = concat (map (\<lambda>tree. map snd (lt_ForEach tree)) (forwardForest ic))"
  have inv: "lt_inv tree" if "associationsTree ic l = Some tree" for l tree
    using that idx_wfD(1) [OF wfD(3) [OF wf]] by (auto simp: sets_ok_def)
  have cur: "cur = getAssociations ic l k" if "associationsTree ic l = Some tree" "(k, cur) \<in> set (lt_ForEach tree)"
    for l tree k cur
    using that by (simp add: getAssociations_def lt.entries_iff [OF inv [OF that(1)]])
  have so: "\<forall>s \<in> set sets. sound ic (as_ForEach s)"
    using cur sound_forward [OF wf] by (fastforce simp: sets_def forest_iff)
  from emitSets_spec [OF wf so] assms(2) have sts: "sts = concat (map strs sets)" and "quiet ic ic'"
    by (auto simp: ForEachTriple_def sets_def strs_def)
  then show "quiet ic ic'" by simp
  have mem: "st \<in> set (strs cur) \<longleftrightarrow> (\<exists>ua p t. (ua, p) \<in> set (as_ForEach cur) \<and> record_at ic p = Some t \<and> st = makeStringTriple ic t)"
    if "sound ic (as_ForEach cur)" for st cur
  proof -
    have "st \<in> set (strs cur) \<longleftrightarrow> (\<exists>ua p. (ua, p) \<in> set (as_ForEach cur) \<and> st = strOf ic (ua, p))"
      by (auto simp: strs_def)
    moreover have "st = strOf ic (ua, p) \<longleftrightarrow> (\<exists>t. record_at ic p = Some t \<and> st = makeStringTriple ic t)"
      if "(ua, p) \<in> set (as_ForEach cur)" for ua p
      using that \<open>sound ic _\<close> by (auto simp: sound_def strOf_def tripleOf_def)
    ultimately show ?thesis by blast
  qed
  have "st \<in> set sts \<longleftrightarrow> (\<exists>k ua p t. (\<exists>tree \<in> set (forwardForest ic). \<exists>cur. (k, cur) \<in> set (lt_ForEach tree) \<and>
      (ua, p) \<in> set (as_ForEach cur)) \<and> record_at ic p = Some t \<and> st = makeStringTriple ic t)" for st
  proof -
    have "st \<in> set sts \<longleftrightarrow> (\<exists>cur \<in> set sets. st \<in> set (strs cur))" by (simp add: sts)
    also have "\<dots> \<longleftrightarrow> (\<exists>cur \<in> set sets. \<exists>ua p t. (ua, p) \<in> set (as_ForEach cur) \<and> record_at ic p = Some t \<and>
        st = makeStringTriple ic t)" using mem so by blast
    finally show ?thesis by (force simp: sets_def)
  qed
  then show "set sts = triples ic"
    unfolding forest_entries [OF wf] triples_def ran_def by blast
  let ?strs = "\<lambda>(k :: u64, cur). strs cur"
  define per where "per = (\<lambda>l. concat (map ?strs (lt_ForEach (the (associationsTree ic l)))))"
  have "sts = concat (map per (forestLevels ic))"
  proof -
    have "concat (map strs (concat (map (\<lambda>tree. map snd (lt_ForEach tree)) (map tr ls)))) =
        concat (map (\<lambda>l. concat (map ?strs (lt_ForEach (tr l)))) ls)" for ls :: "int list" and tr
      by (induction ls) (simp_all add: comp_def case_prod_unfold)
    then show ?thesis unfolding sts sets_def per_def forestLevels_spec(3) .
  qed
  moreover have "distinct (concat (map per (forestLevels ic)))"
  proof (rule distinct_concat_by [OF forestLevels_spec(1), where g = "\<lambda>st. snd (the (lookupEntry ic (Key st)))"])
    fix l
    assume "l \<in> set (forestLevels ic)"
    then obtain tree where tree: "associationsTree ic l = Some tree" using forestLevels_spec(2) by blast
    have key: "lookupEntry ic (Key st) = Some (k, l)" if kc: "(k, cur) \<in> set (lt_ForEach tree)" and m: "st \<in> set (strs cur)" for k cur st
    proof -
      have c: "cur = getAssociations ic l k" by (rule cur [OF tree kc])
      obtain ua p t where t: "(ua, p) \<in> set (as_ForEach cur)" "record_at ic p = Some t" "st = makeStringTriple ic t"
        using mem [OF sound_forward [OF wf], of st l k] m c by blast
      then have "t_Level t = l" "t_Key t = k" using forward_entries [OF wf, of ua p l k] c by auto
      moreover have "named ic (t_Level t) (t_Key t)"
        using idx_wfD(2) [OF wfD(3) [OF wf] t(2)] by (simp add: triple_named_def)
      ultimately show ?thesis
        using named_value(2) [OF wfD(1) [OF wf]] t(3) by (simp add: makeStringTriple_def)
    qed
    show "distinct (per l)"
      unfolding per_def tree option.sel
    proof (rule distinct_concat_by [where g = "\<lambda>st. (fst (the (lookupEntry ic (Key st))),
          getAssociations ic l (fst (the (lookupEntry ic (Key st)))))"])
      show "distinct (lt_ForEach tree)" using lt.distinct_entries [OF inv [OF tree]] by (simp add: distinct_map)
      fix e
      assume e: "e \<in> set (lt_ForEach tree)"
      then have "snd e = getAssociations ic l (fst e)" using cur [OF tree, of "fst e" "snd e"] by simp
      then show "distinct (?strs e)"
        using entries_strings(2) [OF wf distinct_ForEach(1) [OF wf], of l "fst e"
            "\<lambda>t. t_Level t = l \<and> t_Key t = fst e" fwdKey] forward_entries [OF wf]
        by (cases e) (auto simp: strs_def distinct_sort_by)
      fix st
      assume "st \<in> set (?strs e)"
      with e key [of "fst e" "snd e" st] \<open>snd e = _\<close> show "(fst (the (lookupEntry ic (Key st))),
          getAssociations ic l (fst (the (lookupEntry ic (Key st))))) = e"
        by (cases e) auto
    qed
    show "snd (the (lookupEntry ic (Key st))) = l" if "st \<in> set (per l)" for st
      using that key by (auto simp: per_def tree)
  qed
  ultimately show "distinct sts" by simp
qed

end
