(* ===== verification/Page_Correct.thy ===== *)
theory Page_Correct
  imports Query_Algebra
begin

text \<open>
  Paging of \<^verbatim>\<open>tiedb/sort.go\<close>: what a page holds, when asking for a page panics, and how the pages of
  one query fit together.
\<close>

section \<open>Machine integers\<close>

lemma int_add_mod: "int_add a b = (a + b + 2 ^ 63) mod 2 ^ 64 - 2 ^ 63"
  unfolding int_add_def
  by (simp add: signed_take_bit_eq_take_bit_shift take_bit_eq_mod sint_sbintrunc' del: of_int_add)

lemma int_add_exact: "0 \<le> a \<Longrightarrow> 0 \<le> b \<Longrightarrow> a + b < 2 ^ 63 \<Longrightarrow> int_add a b = a + b"
  by (simp add: int_add_mod)

lemma int_add_overflow:
  assumes "0 \<le> a" "a < 2 ^ 63" "0 \<le> b" "b < 2 ^ 63" "2 ^ 63 \<le> a + b"
  shows "int_add a b = a + b - 2 ^ 64"
proof -
  have "(a + b + 2 ^ 63) mod 2 ^ 64 = (a + b + 2 ^ 63 - 2 ^ 64) mod 2 ^ 64"
    by (rule minus_mod_self2 [symmetric])
  also have "\<dots> = a + b + 2 ^ 63 - 2 ^ 64" using assms by (intro mod_pos_pos_trivial) simp_all
  finally show ?thesis by (simp add: int_add_mod)
qed

section \<open>What a page holds\<close>

definition default_order :: "SortOptions \<Rightarrow> bool" where
  "default_order o' \<longleftrightarrow> SortBy o' = '''' \<and> SortByValue o' = '''' \<and> 0 < Limit o' \<and> 0 \<le> Offset o'"

text \<open>The entries in the order of their ids, and the strings in their own order.\<close>

definition byIds :: "SortOptions \<Rightarrow> assocEntries \<Rightarrow> assocEntries" where
  "byIds o' es = sort_by (\<lambda>a b. negated (Descending o') (compareEntries a b)) es"

definition byStrings :: "SortOptions \<Rightarrow> StringTriple list \<Rightarrow> StringTriple list" where
  "byStrings o' sts = sort_by (\<lambda>a b. negated (Descending o') (compareTriples a b)) sts"

definition page_of :: "SortOptions \<Rightarrow> collection \<Rightarrow> assocEntries \<Rightarrow> StringTriple list" where
  "page_of o' ic es =
     (if Offset o' + Limit o' < int (length es)
      then map (strOf ic) (take (nat (Limit o')) (drop (nat (Offset o')) (byIds o' es)))
      else drop (nat (Offset o')) (byStrings o' (map (strOf ic) es)))"

lemma strOf_quiet: "coll_wf ic \<Longrightarrow> quiet ic ic' \<Longrightarrow> strOf ic' = strOf ic"
  by (simp add: fun_eq_iff strOf_def tripleOf_def quietD)

lemma length_by [simp]: "length (byIds o' es) = length es" "length (byStrings o' sts) = length sts"
  by (simp_all add: byIds_def byStrings_def)

lemma sortPaged_spec:
  assumes wf: "coll_wf ic" and s: "sound ic (as_ForEach tree)" and o: "default_order o'"
    and small: "Offset o' + Limit o' < 2 ^ 63" and es: "es = matching flt (as_ForEach tree)"
  shows "\<exists>ic'. sortPaged tree flt o' ic = (Some (Some (page_of o' ic es, length es)), ic') \<and> quiet ic ic'"
proof -
  have snd: "sound ic es" unfolding es by (rule sound_subset [OF s set_matching])
  have lim: "0 < Limit o'" "0 \<le> Offset o'" "SortBy o' = ''''" "SortByValue o' = ''''"
    using o by (simp_all add: default_order_def)
  have add: "int_add (Offset o') (Limit o') = Offset o' + Limit o'"
    using lim small by (simp add: int_add_exact)
  have unf: "sortPaged tree flt o' ic =
      (if Offset o' + Limit o' < int (length es)
       then case goSlice (Offset o') (Offset o' + Limit o') (byIds o' es) of
              None \<Rightarrow> (Some None, ic)
            | Some page \<Rightarrow> (let (srt, ic) = resolveEntries page ic in (Some (Some (srt, length es)), ic))
       else let (srt, ic) = resolveEntries es ic; srt = byStrings o' srt
            in (Some (if int (length srt) < Offset o' then Some ([], length srt)
                      else Some (drop (nat (Offset o')) srt, length srt)), ic))"
    using lim unfolding sortPaged_def es [symmetric]
    by (simp add: add Let_def byIds_def byStrings_def split: option.splits prod.splits)
  show ?thesis
  proof (cases "Offset o' + Limit o' < int (length es)")
    case True
    let ?page = "take (nat (Limit o')) (drop (nat (Offset o')) (byIds o' es))"
    have "sound ic ?page"
      by (rule sound_subset [OF snd]) (auto simp: byIds_def dest!: in_set_takeD in_set_dropD)
    from resolveEntries_spec [OF wf this] obtain ic' where
      r: "resolveEntries ?page ic = (map (strOf ic) ?page, ic')" "quiet ic ic'" by blast
    have "goSlice (Offset o') (Offset o' + Limit o') (byIds o' es) = Some ?page"
      using lim True by (simp add: goSlice_def)
    with True r show ?thesis by (simp add: unf page_of_def)
  next
    case False
    from resolveEntries_spec [OF wf snd] obtain ic' where
      r: "resolveEntries es ic = (map (strOf ic) es, ic')" "quiet ic ic'" by blast
    from False r show ?thesis by (auto simp: unf page_of_def Let_def)
  qed
qed

text \<open>An offset inside the matches whose page end does not fit an \<open>int\<close> is a panic.\<close>

lemma sortPaged_overflow:
  assumes "default_order o'" "Offset o' < 2 ^ 63" "Limit o' < 2 ^ 63" "2 ^ 63 \<le> Offset o' + Limit o'"
    and "Offset o' \<le> int (length (matching flt (as_ForEach tree)))"
  shows "sortPaged tree flt o' ic = (Some None, ic)"
proof -
  let ?es = "matching flt (as_ForEach tree)"
  have o: "0 \<le> Offset o'" "0 < Limit o'" "SortBy o' = ''''" "SortByValue o' = ''''"
    using assms(1) by (simp_all add: default_order_def)
  then have add: "int_add (Offset o') (Limit o') = Offset o' + Limit o' - 2 ^ 64"
    using assms(2-4) by (simp add: int_add_overflow)
  then have neg: "int_add (Offset o') (Limit o') < 0" using assms(2,3) by simp
  then have "goSlice (Offset o') (int_add (Offset o') (Limit o')) xs = None" for xs :: assocEntries
    using o by (simp add: goSlice_def)
  with neg o assms(5) show ?thesis by (simp add: sortPaged_def Let_def)
qed

lemma Sort_paged:
  assumes "default_order o'" "filterFor ic f = Some flt" "coll_wf ic"
  shows "\<exists>ic1. quiet ic ic1 \<and> Sort pf tree f o' ic =
    (case sortPaged tree flt o' ic1 of (Some page, ic2) \<Rightarrow> (page, ic2) | (None, ic2) \<Rightarrow> (None, ic2))"
proof -
  have o: "0 < Limit o'" "0 \<le> Offset o'" "SortBy o' = ''''" "SortByValue o' = ''''"
    using assms(1) by (simp_all add: default_order_def)
  obtain e ic0 where e: "getEntryFromString f ic = (e, ic0)" by force
  note ge = getEntryFromString_quiet [OF assms(3) e]
  define ic1 where "ic1 = (if f = '''' then ic else ic0)"
  have q: "quiet ic ic1" using quiet_refl [OF assms(3)] ge(2) by (simp add: ic1_def)
  have "(if f = '''' then (Some None, ic)
      else case getEntryFromString f ic of (None, ic) \<Rightarrow> (None, ic)
           | (Some (i, _), ic) \<Rightarrow> (Some (Some i), ic)) = (filterFor ic f, ic1)"
    using e ge(1) by (auto simp: filterFor_def ic1_def split: option.splits)
  then have f: "(if f = '''' then (Some None, ic)
      else case getEntryFromString f ic of (None, ic) \<Rightarrow> (None, ic)
           | (Some (i, _), ic) \<Rightarrow> (Some (Some i), ic)) = (Some flt, ic1)" using assms(2) by simp
  obtain r ic2 where sp: "sortPaged tree flt o' ic1 = (r, ic2)" by force
  have "r \<noteq> None"
    using sp o by (auto simp: sortPaged_def Let_def split: if_splits option.splits prod.splits)
  then obtain page where "r = Some page" by blast
  with o f sp q show ?thesis
    by (intro exI [of _ ic1]) (simp add: Sort_def Let_def)
qed


section \<open>Ids in the order of insertion\<close>

text \<open>An id once handed out stays, and the subject of a new triple gets the id of its insertion.\<close>

lemma addLocked_lookup:
  assumes "writable ic" "storable3 s r v" "room (need3 s r v) ic" "addLocked s r v ic = (e, ic')"
    and i: "insertLocked s ic = (e1, ic1)" "insertLocked r ic1 = (e2, ic2)" "insertLocked v ic2 = (e3, ic3)"
  shows "same_trie ic3 ic'"
proof -
  obtain k l v1 l1 v2 l2 where e: "e1 = (k, l)" "e2 = (v1, l1)" "e3 = (v2, l2)" by (metis prod.collapse)
  have wf: "coll_wf ic" "\<not> readOnly ic" "ioErr ic = None" using assms(1) by (auto simp: writable_def)
  note ins = three_inserts [OF wf(1) assms(2,3) i]
  note g = wf_grows [OF wf(1) ins(1)]
  define t where "t = \<lparr>t_Level = l, t_Key = k, t_Value1Level = l1, t_Value1 = v1, t_Value2Level = l2, t_Value2 = v2\<rparr>"
  have n: "triple_named ic3 t"
    using ins(2-4) assms(2) by (auto simp: t_def triple_named_def named_def storable3_def e)
  note unf = addLocked_unfold [OF wf(2,3) i [unfolded e] wfD(2) [OF g(1)] t_def]
  show ?thesis
  proof (cases "fwd ic3 l k v1 v2 = None")
    case False
    with unf assms(4) show ?thesis by auto
  next
    case True
    obtain p ic4 where st: "storeTriple t ic3 = (p, ic4)" by force
    define ic5 where "ic5 = insertAssociation l t p ic4"
    have new: "fwd ic3 (t_Level t) (t_Key t) (t_Value1 t) (t_Value2 t) = None" using True by (simp add: t_def)
    have ins5: "insertAssociation (t_Level t) t p ic4 = ic5" by (simp add: ic5_def t_def)
    have "ic' = ic5\<lparr>searchGen := searchGen ic5 + 1\<rparr>"
      using unf assms(4) True st by (auto simp: ic5_def Let_def)
    with record_added(3) [OF g(1) n new st ins5] show ?thesis
      using same_trie_trans same_trie_upd(5) by blast
  qed
qed

text \<open>A value of one chunk, in memory and without a blob policy.\<close>

abbreviation chunkId :: "collection \<Rightarrow> byte list \<Rightarrow> u64 option" where
  "chunkId ic c \<equiv> uniqueValueId ic 0 \<lparr>ParentId = 0, Value = c\<rparr>"

lemma insertLocked_single:
  assumes "blobPolicy ic = None" "\<not> writeToDisk ic" "valueChunks v = [c]" "insertLocked v ic = (e, ic')"
  shows "chunkId ic' = (case chunkId ic c of Some _ \<Rightarrow> chunkId ic | None \<Rightarrow> (chunkId ic)(c \<mapsto> totalEntries ic + 1))"
    and "totalEntries ic' = totalEntries ic + (case chunkId ic c of Some _ \<Rightarrow> 0 | None \<Rightarrow> 1)"
    and "blobPolicy ic' = None" and "\<not> writeToDisk ic'"
proof -
  have b: "asBlob ic v = None" using assms(1) by (simp add: asBlob_def)
  have sl: "totalEntries (secureLevelInIndex 0 ic) = totalEntries ic"
    "writeToDisk (secureLevelInIndex 0 ic) = writeToDisk ic"
    "blobPolicy (secureLevelInIndex 0 ic) = blobPolicy ic"
    by (simp_all add: secureLevelInIndex_def)
  let ?ic = "(secureLevelInIndex 0 ic)\<lparr>totalEntries := totalEntries ic + 1\<rparr>"
  have *: "ic' = (case chunkId ic c of Some i \<Rightarrow> secureLevelInIndex 0 ic
      | None \<Rightarrow> insertEntry 0 (totalEntries ic + 1) \<lparr>ParentId = 0, Value = c\<rparr> ?ic)"
    using assms b
    by (auto simp: insertLocked_def valueExists_def insertValue_def nextID_def Let_def sl
        split: option.splits)
  show "chunkId ic' = (case chunkId ic c of Some _ \<Rightarrow> chunkId ic | None \<Rightarrow> (chunkId ic)(c \<mapsto> totalEntries ic + 1))"
    unfolding * using insertEntry_obs(2) [of 0 "totalEntries ic + 1" _ ?ic]
    by (auto simp: fun_eq_iff split: option.splits)
  show "totalEntries ic' = totalEntries ic + (case chunkId ic c of Some _ \<Rightarrow> 0 | None \<Rightarrow> 1)"
    unfolding * by (simp add: sl split: option.splits)
  show "blobPolicy ic' = None" "\<not> writeToDisk ic'"
    unfolding * using assms(1,2)
    by (simp_all add: sl index_step_obs(5,8) [OF index_step_insertEntry] split: option.splits)
qed


lemma addLocked_single:
  assumes "writable ic" "storable3 s r v" "room (need3 s r v) ic" "addLocked s r v ic = (e, ic')"
    and "blobPolicy ic = None" "\<not> writeToDisk ic"
    and "valueChunks s = [cs]" "valueChunks r = [cr]" "valueChunks v = [cv]"
    and step: "next = (\<lambda>c (m, n). case m c of Some (_ :: u64) \<Rightarrow> (m, n) | None \<Rightarrow> (m(c \<mapsto> n + 1), n + 1 :: u64))"
  shows "(chunkId ic', totalEntries ic') = next cv (next cr (next cs (chunkId ic, totalEntries ic)))"
    and "blobPolicy ic' = None" and "\<not> writeToDisk ic'"
proof -
  obtain e1 ic1 where i1: "insertLocked s ic = (e1, ic1)" by (metis surj_pair)
  obtain e2 ic2 where i2: "insertLocked r ic1 = (e2, ic2)" by (metis surj_pair)
  obtain e3 ic3 where i3: "insertLocked v ic2 = (e3, ic3)" by (metis surj_pair)
  have one: "(chunkId x', totalEntries x') = next c (chunkId x, totalEntries x)"
    if "blobPolicy x = None" "\<not> writeToDisk x" "valueChunks w = [c]" "insertLocked w x = (y, x')" for x w c y x'
    using insertLocked_single(1,2) [OF that] by (simp add: step split: option.splits)
  note s1 = insertLocked_single(3,4) [OF assms(5,6,7) i1]
  note s2 = insertLocked_single(3,4) [OF s1 assms(8) i2]
  have st: "same_trie ic3 ic'" by (rule addLocked_lookup [OF assms(1-4) i1 i2 i3])
  have "(chunkId ic', totalEntries ic') = (chunkId ic3, totalEntries ic3)"
    using st by (simp add: same_trie_def)
  also have "\<dots> = next cv (next cr (next cs (chunkId ic, totalEntries ic)))"
    using one [OF assms(5,6,7) i1] one [OF s1 assms(8) i2] one [OF s2 assms(9) i3] by simp
  finally show "(chunkId ic', totalEntries ic') = next cv (next cr (next cs (chunkId ic, totalEntries ic)))" .
  have "same_config ic ic'" using addLocked_spec(4) [OF assms(1-4)] .
  then show "blobPolicy ic' = None" "\<not> writeToDisk ic'" using assms(5,6) by (simp_all add: same_config_def)
qed

definition twoTagged :: collection where
  "twoTagged = snd (Add ''a'' ''tag'' ''x'' (snd (Add ''b'' ''tag'' ''x'' (newCollection False False None None 0))))"

lemma chunk_examples:
  "valueChunks ''a'' = [97 # replicate 23 0]" "valueChunks ''b'' = [98 # replicate 23 0]"
  "valueChunks ''x'' = [120 # replicate 23 0]" "valueChunks ''tag'' = [[116, 97, 103] @ replicate 21 0]"
  by code_simp+

lemma storable_examples:
  "storable3 ''a'' ''tag'' ''x''" "storable3 ''b'' ''tag'' ''x''" "storable ''x''" "storable ''tag''"
  "need3 ''a'' ''tag'' ''x'' = 3" "need3 ''b'' ''tag'' ''x'' = 3"
  by (simp_all add: storable3_def storable_def nul_free_end_def need3_def need_def)

lemma twoTagged_facts:
  "writable twoTagged"
  "triples twoTagged = {\<lparr>Key = ''b'', Value1 = ''tag'', Value2 = ''x''\<rparr>, \<lparr>Key = ''a'', Value1 = ''tag'', Value2 = ''x''\<rparr>}"
  "lookupEntry twoTagged ''b'' = Some (1, 0)" "lookupEntry twoTagged ''a'' = Some (4, 0)"
  "lookupEntry twoTagged ''x'' = Some (3, 0)" "lookupEntry twoTagged ''tag'' = Some (2, 0)"
  "reverseRelations twoTagged = None"
proof -
  let ?new = "newCollection False False None None 0"
  obtain e1 ic1 where a1: "addLocked ''b'' ''tag'' ''x'' ?new = (e1, ic1)" by force
  obtain e2 ic2 where a2: "addLocked ''a'' ''tag'' ''x'' ic1 = (e2, ic2)" by force
  have eq: "twoTagged = ic2" by (simp add: twoTagged_def Add_def a1 a2)
  have w0: "writable ?new" by (rule writable_newMemory)
  have r0: "room (need3 ''b'' ''tag'' ''x'') ?new" by (simp add: storable_examples room_newMemory)
  note s1 = addLocked_spec [OF w0 storable_examples(2) r0 a1]
  have w1: "writable ic1" using s1 w0 by (simp add: writable_def same_config_def)
  have r1: "room (need3 ''a'' ''tag'' ''x'') ic1" using s1(5) by (simp add: storable_examples room_def)
  note s2 = addLocked_spec [OF w1 storable_examples(1) r1 a2]
  note t1 = addLocked_single [OF w0 storable_examples(2) r0 a1 _ _ chunk_examples(2,4,3) refl]
  have p1: "blobPolicy ic1 = None" "\<not> writeToDisk ic1" using t1(2,3) by simp_all
  note t2 = addLocked_single [OF w1 storable_examples(1) r1 a2 p1 chunk_examples(1,4,3) refl]
  have c1: "chunkId ic1 = [98 # replicate 23 0 \<mapsto> 1, [116, 97, 103] @ replicate 21 0 \<mapsto> 2, 120 # replicate 23 0 \<mapsto> 3]"
    "totalEntries ic1 = 3"
    using t1(1) by (simp_all add: newCollection_obs)
  have c2: "chunkId ic2 = (chunkId ic1)(97 # replicate 23 0 \<mapsto> 4)"
    using t2(1) by (simp add: c1)
  have b: "asBlob ic2 v = None" for v using t2(2) by (simp add: asBlob_def)
  show "writable twoTagged" using s2 w1 by (simp add: eq writable_def same_config_def)
  show "triples twoTagged = {\<lparr>Key = ''b'', Value1 = ''tag'', Value2 = ''x''\<rparr>, \<lparr>Key = ''a'', Value1 = ''tag'', Value2 = ''x''\<rparr>}"
    using s1(3) s2(3) wf_newMemory(2) [of None False None 0] by (simp add: eq insert_commute)
  show "lookupEntry twoTagged ''b'' = Some (1, 0)" "lookupEntry twoTagged ''a'' = Some (4, 0)"
    "lookupEntry twoTagged ''x'' = Some (3, 0)" "lookupEntry twoTagged ''tag'' = Some (2, 0)"
    using fun_cong [OF c2] by (simp_all add: eq lookupEntry_def b chunk_examples c1)
  show "reverseRelations twoTagged = None"
    using s1(4) s2(4) by (simp add: eq same_config_def)
qed


abbreviation stA :: StringTriple where "stA \<equiv> \<lparr>Key = ''a'', Value1 = ''tag'', Value2 = ''x''\<rparr>"
abbreviation stB :: StringTriple where "stB \<equiv> \<lparr>Key = ''b'', Value1 = ''tag'', Value2 = ''x''\<rparr>"

lemma two_elements:
  assumes "distinct xs" "set xs = {a, b}" "a \<noteq> b"
  shows "xs = [a, b] \<or> xs = [b, a]"
proof -
  have "length xs = 2" using assms distinct_card [OF assms(1)] by simp
  then obtain x y where "xs = [x, y]" by (auto simp: length_Suc_conv numeral_2_eq_2)
  with assms show ?thesis by auto
qed

lemma entry_id:
  assumes "coll_wf ic" "record_at ic p = Some t" "lookupEntry ic (Key (makeStringTriple ic t)) = Some (k, l)"
  shows "AssociateTo (revKey t) = k"
proof -
  have "named ic (t_Level t) (t_Key t)"
    using idx_wfD(2) [OF wfD(3) [OF assms(1)] assms(2)] by (simp add: triple_named_def)
  from named_value(2) [OF wfD(1) [OF assms(1)] this] assms(3) show ?thesis
    by (simp add: makeStringTriple_def revKey_def)
qed

text \<open>The first page of one holds the first subject by id, the second page the last by name.\<close>

lemma twoTagged_pages:
  assumes cur: "selects twoTagged cur Q" and Q: "\<And>st. st \<in> triples twoTagged \<Longrightarrow> Q st"
    and o: "Limit o' = 1" "\<not> Descending o'"
  shows "length (as_ForEach cur) = 2"
    and "Offset o' = 0 \<Longrightarrow> page_of o' twoTagged (as_ForEach cur) = [stB]"
    and "Offset o' = 1 \<Longrightarrow> page_of o' twoTagged (as_ForEach cur) = [stB]"
proof -
  let ?es = "as_ForEach cur" and ?ic = twoTagged
  note tf = twoTagged_facts
  have wf: "coll_wf ?ic" using tf(1) by (simp add: writable_def)
  note se = selects_entries [OF wf cur]
  note str = entries_strings [OF wf se(1,2)]
  have all: "{t \<in> ran (record_at ?ic). Q (makeStringTriple ?ic t)} = ran (record_at ?ic)"
    using Q by (auto simp: triples_def)
  have "set (map (strOf ?ic) ?es) = triples ?ic" unfolding str(1) all triples_def ..
  then have two: "map (strOf ?ic) ?es = [stB, stA] \<or> map (strOf ?ic) ?es = [stA, stB]"
    by (intro two_elements [OF str(2)]) (simp_all add: tf(2))
  then show len: "length ?es = 2" by (metis length_map length_Cons list.size(3) numeral_2_eq_2)
  have ids: "AssociateTo (fst e) = k" if e: "e \<in> set ?es" and lk: "lookupEntry ?ic (Key (strOf ?ic e)) = Some (k, l)" for e k l
  proof -
    obtain t where t: "record_at ?ic (snd e) = Some t" "fst e = revKey t"
      using e se(2) [of "fst e" "snd e"] by auto
    have "strOf ?ic e = makeStringTriple ?ic t" using t(1) by (simp add: strOf_def tripleOf_def)
    with entry_id [OF wf t(1)] lk t(2) show ?thesis by simp
  qed
  obtain x y where xy: "?es = [x, y]" using len by (auto simp: length_Suc_conv numeral_2_eq_2)
  have "strOf ?ic x = stB \<and> strOf ?ic y = stA \<and> AssociateTo (fst x) = 1 \<and> AssociateTo (fst y) = 4 \<or>
      strOf ?ic x = stA \<and> strOf ?ic y = stB \<and> AssociateTo (fst x) = 4 \<and> AssociateTo (fst y) = 1"
    using two ids [of x] ids [of y] tf(3,4) by (auto simp: xy)
  moreover have c: "compareTriples stA stB = -1" "compareTriples stB stA = 1"
    "cmpCompare (1 :: u64) 4 = -1" "cmpCompare (4 :: u64) 1 = 1" by code_simp+
  have "byIds o' [x, y] = (if compareEntries x y \<le> 0 then [x, y] else [y, x])"
    "byStrings o' [u, v] = (if compareTriples u v \<le> 0 then [u, v] else [v, u])" for u v
    using o(2) by (simp_all add: byIds_def byStrings_def negated_def)
  ultimately have pages: "map (strOf ?ic) (byIds o' ?es) = [stB, stA] \<and> byStrings o' (map (strOf ?ic) ?es) = [stA, stB]"
    using c unfolding xy compareEntries_def by (elim disjE) (simp_all only: list.map if_True if_False c, simp_all)
  show "Offset o' = 0 \<Longrightarrow> page_of o' ?ic ?es = [stB]"
    using o pages by (simp add: page_of_def len take_map [symmetric])
  show "Offset o' = 1 \<Longrightarrow> page_of o' ?ic ?es = [stB]"
    using o pages by (simp add: page_of_def len)
qed


lemma twoTagged_room: "n < 2 ^ 63 \<Longrightarrow> room n twoTagged"
proof -
  let ?new = "newCollection False False None None 0"
  obtain e1 ic1 where a1: "addLocked ''b'' ''tag'' ''x'' ?new = (e1, ic1)" by (metis surj_pair)
  obtain e2 ic2 where a2: "addLocked ''a'' ''tag'' ''x'' ic1 = (e2, ic2)" by (metis surj_pair)
  have w0: "writable ?new" by (rule writable_newMemory)
  have r0: "room (need3 ''b'' ''tag'' ''x'') ?new" by (simp add: storable_examples room_newMemory)
  note s1 = addLocked_spec [OF w0 storable_examples(2) r0 a1]
  have w1: "writable ic1" using s1 w0 by (simp add: writable_def same_config_def)
  have r1: "room (need3 ''a'' ''tag'' ''x'') ic1" using s1(5) by (simp add: storable_examples room_def)
  note s2 = addLocked_spec [OF w1 storable_examples(1) r1 a2]
  have "unat (totalEntries twoTagged) \<le> 6"
    using s1(5) s2(5) by (simp add: twoTagged_def Add_def a1 a2 storable_examples)
  then show "n < 2 ^ 63 \<Longrightarrow> room n twoTagged" by (simp add: room_def)
qed

lemma storable_short: "v \<noteq> [] \<Longrightarrow> last v \<noteq> CHR 0x00 \<Longrightarrow> length v < 100 \<Longrightarrow> storable v"
  by (simp add: storable_def nul_free_end_def)


lemma SortAll_any:
  assumes "coll_wf ic" "sound ic (as_ForEach s)"
  shows "\<exists>ic'. Sort pf s '''' unlimited ic =
      (Some (sort_by compareTriples (map (strOf ic) (as_ForEach s)), length (as_ForEach s)), ic')"
proof -
  from resolveEntries_spec [OF assms] obtain ic' where
    "resolveEntries (as_ForEach s) ic = (map (strOf ic) (as_ForEach s), ic')" by blast
  then show ?thesis
    by (simp add: Sort_def unlimited_def matching_def orderTriples_def negated_def paginate_all Let_def)
qed

definition queryFor :: "string \<Rightarrow> SortOptions \<Rightarrow> TagQuery" where
  "queryFor tag o' = \<lparr>Include = [tag], Exclude = [], Scope = '''', MissingRelation = '''', HasRel = '''',
     Reverse = True, Filter = '''', SortOpts = o'\<rparr>"

lemma queryFor_simps [simp]:
  "Include (queryFor tag o') = [tag]" "Reverse (queryFor tag o')" "Filter (queryFor tag o') = ''''"
  "SortOpts (queryFor tag o') = o'" "query_storable (queryFor tag o') \<longleftrightarrow> storable '''' \<and> storable tag"
  by (simp_all add: queryFor_def query_storable_def)

lemma query_matches_queryFor [simp]:
  "query_matches ic (queryFor tag o') st \<longleftrightarrow> Value2 st = tag \<and> reverseIndexed ic (Value1 st)"
  by (simp add: query_matches_def queryFor_def)

section \<open>Pages of a query\<close>

lemma mset_by [simp]: "mset (byIds o' es) = mset es" "mset (byStrings o' sts) = mset sts"
  by (simp_all add: byIds_def byStrings_def)

lemma page_of_spec:
  assumes "default_order o'" "distinct (map (strOf ic) es)"
  shows "distinct (page_of o' ic es)" and "set (page_of o' ic es) \<subseteq> set (map (strOf ic) es)"
    and "length (page_of o' ic es) = min (nat (Limit o')) (length es - nat (Offset o'))"
proof -
  have o: "0 < Limit o'" "0 \<le> Offset o'" using assms(1) by (simp_all add: default_order_def)
  let ?ids = "map (strOf ic) (byIds o' es)" and ?strs = "byStrings o' (map (strOf ic) es)"
  have "mset ?ids = mset (map (strOf ic) es)" "mset ?strs = mset (map (strOf ic) es)"
    by simp_all
  then have d: "distinct ?ids" "distinct ?strs" "set ?ids = set (map (strOf ic) es)" "set ?strs = set (map (strOf ic) es)"
    using assms(2) by (metis mset_eq_imp_distinct_iff, metis mset_eq_imp_distinct_iff, metis mset_eq_setD, metis mset_eq_setD)
  have p: "page_of o' ic es = (if Offset o' + Limit o' < int (length es)
      then take (nat (Limit o')) (drop (nat (Offset o')) ?ids) else drop (nat (Offset o')) ?strs)"
    by (simp add: page_of_def take_map drop_map)
  show "distinct (page_of o' ic es)" using d(1,2) unfolding p by simp
  show "set (page_of o' ic es) \<subseteq> set (map (strOf ic) es)"
    using d(3,4) unfolding p by (auto dest!: in_set_takeD in_set_dropD simp del: set_map)
  show "length (page_of o' ic es) = min (nat (Limit o')) (length es - nat (Offset o'))"
    using o unfolding p by (auto simp: min_def)
qed

text \<open>A query of \<open>Include\<close> terms answers with one page of its matches.\<close>

lemma QueryTags_paged:
  assumes wf: "coll_wf ic" and q: "Reverse q" "Include q \<noteq> []" "query_storable q" "Filter q = ''''"
    and o: "default_order (SortOpts q)" "Offset (SortOpts q) + Limit (SortOpts q) < 2 ^ 63"
    and found: "st0 \<in> triples ic" "query_matches ic q st0" and res: "QueryTags pf q ic = (res, ic')"
  obtains cur where "selects ic cur (query_matches ic q)"
    "res = Some (page_of (SortOpts q) ic (as_ForEach cur), length (as_ForEach cur), True)"
proof -
  obtain r ic1 where rq: "resolveQuery q ic = (r, ic1)" by (metis surj_pair)
  note rs = resolveQuery_spec [OF wf q(1-3) rq]
  have "r \<notin> {NotFound, Empty}" using rs(4) [OF _ found(1)] found(2) by blast
  with rs(2) obtain cur where r: "r = Matches cur" by (cases r) auto
  note sel = rs(3) [OF r]
  note q1 = quietD [OF wf rs(1)]
  have fl: "filterFor ic1 '''' = Some None" by (simp add: filterFor_def)
  from Sort_paged [OF o(1) fl q1(1), of pf cur] obtain ic2 where
    s: "quiet ic1 ic2" "Sort pf cur '''' (SortOpts q) ic1 =
      (case sortPaged cur None (SortOpts q) ic2 of (Some page, ic) \<Rightarrow> (page, ic) | (None, ic) \<Rightarrow> (None, ic))" by blast
  have q2: "quiet ic ic2" by (rule quiet_trans [OF rs(1) s(1)])
  have so: "sound ic2 (as_ForEach cur)"
    using selects_entries(3) [OF wf sel] sound_quiet [OF wf q2] by simp
  have m: "as_ForEach cur = matching None (as_ForEach cur)" by (simp add: matching_def)
  from sortPaged_spec [OF quietD(1) [OF wf q2] so o m] obtain ic3 where
    "sortPaged cur None (SortOpts q) ic2 =
      (Some (Some (page_of (SortOpts q) ic2 (as_ForEach cur), length (as_ForEach cur))), ic3)" by blast
  moreover have "page_of (SortOpts q) ic2 = page_of (SortOpts q) ic"
    by (simp add: fun_eq_iff page_of_def strOf_quiet [OF wf q2])
  ultimately have "res = Some (page_of (SortOpts q) ic (as_ForEach cur), length (as_ForEach cur), True)"
    using res rq r s(2) q(4) by (simp add: QueryTags_def GetPage_def)
  with sel show ?thesis by (rule that)
qed

end
