(* ===== verification/Load_Correct.thy ===== *)
theory Load_Correct
  imports Load_DB
begin

text \<open>
  Loading the record file of a collection gives back its values and its triples, in whatever order
  the workers take the records, and also when the file ends in a partial record.
\<close>

section \<open>Frames of the file\<close>

lemma length_cutFrames [simp]: "length (cutFrames entry bs) = length bs div ENTRY_SIZE"
  by (simp add: cutFrames_def)

lemma cutFrames_nth:
  "i < length bs div ENTRY_SIZE \<Longrightarrow> cutFrames entry bs ! i =
     \<lparr>Position = int ((entry + i) * ENTRY_SIZE),
      Data = slice (i * ENTRY_SIZE) (i * ENTRY_SIZE + ENTRY_SIZE) bs\<rparr>"
  by (simp add: cutFrames_def)

lemma cutFrames_append:
  assumes "length xs mod ENTRY_SIZE = 0"
  shows "cutFrames entry (xs @ ys) = cutFrames entry xs @ cutFrames (entry + length xs div ENTRY_SIZE) ys"
proof (rule nth_equalityI)
  let ?n = "length xs div ENTRY_SIZE"
  have len: "length xs = ?n * ENTRY_SIZE" using assms by (simp add: ENTRY_SIZE_50) presburger
  then have total: "length (xs @ ys) div ENTRY_SIZE = ?n + length ys div ENTRY_SIZE"
    by (simp add: ENTRY_SIZE_50)
  then show "length (cutFrames entry (xs @ ys)) = length (cutFrames entry xs @ cutFrames (entry + ?n) ys)"
    by simp
  fix i
  assume "i < length (cutFrames entry (xs @ ys))"
  then have i: "i < ?n + length ys div ENTRY_SIZE" using total by simp
  show "cutFrames entry (xs @ ys) ! i = (cutFrames entry xs @ cutFrames (entry + ?n) ys) ! i"
  proof (cases "i < ?n")
    case True
    then have "i * ENTRY_SIZE + ENTRY_SIZE \<le> length xs" using len by (simp add: ENTRY_SIZE_50)
    with True i total show ?thesis by (simp add: nth_append cutFrames_nth slice_append1)
  next
    case False
    then obtain j where j: "i = ?n + j" by (metis le_add_diff_inverse not_less)
    have "i * ENTRY_SIZE = length xs + j * ENTRY_SIZE" "i * ENTRY_SIZE + ENTRY_SIZE = length xs + (j * ENTRY_SIZE + ENTRY_SIZE)"
      using len j by (simp_all add: algebra_simps)
    with j i total show ?thesis
      by (simp add: nth_append cutFrames_nth slice_append2 add.assoc)
  qed
qed

lemma cutFrames_short: "length ys < ENTRY_SIZE \<Longrightarrow> cutFrames entry ys = []"
  by (simp add: cutFrames_def)

text \<open>The buffered loop cuts the file into its whole frames.\<close>

lemma loadPass_cutFrames:
  assumes "0 < n" "n mod ENTRY_SIZE = 0"
  shows "loadPass n entry bs = cutFrames entry bs"
  using assms
proof (induction n entry bs rule: loadPass.induct)
  case (1 n entry bs)
  let ?v = "take n bs"
  show ?case
  proof (cases "bs = []")
    case True
    then show ?thesis by (subst loadPass.simps) (simp add: cutFrames_def)
  next
    case False
    then have ne: "?v \<noteq> []" using "1.prems"(1) by simp
    show ?thesis
    proof (cases "length ?v mod ENTRY_SIZE = 0")
      case True
      then have whole: "length ?v div ENTRY_SIZE * ENTRY_SIZE = length ?v"
        by (simp only: dvd_div_mult_self mod_0_imp_dvd)
      have "loadPass n entry bs = cutFrames entry ?v @ cutFrames (entry + length ?v div ENTRY_SIZE) (drop n bs)"
        using "1.IH" [OF refl refl ne] whole ne "1.prems"
        by (simp add: loadPass.simps [of n entry bs] Let_def del: length_take)
      also have "\<dots> = cutFrames entry (?v @ drop n bs)" by (rule cutFrames_append [OF True, symmetric])
      finally show ?thesis by simp
    next
      case False
      then have "length bs \<le> n \<and> length bs \<noteq> n"
        using "1.prems"(2) by (cases "length bs \<le> n") (auto simp: min_def)
      then have "length bs < n" by simp
      moreover have "length ?v div ENTRY_SIZE * ENTRY_SIZE \<noteq> length ?v"
        using False by (metis mod_mult_self2_is_0)
      ultimately show ?thesis using ne by (simp add: loadPass.simps [of n entry bs] Let_def)
    qed
  qed
qed

lemma cutFrames_frame: "e \<in> set (cutFrames 0 bs) \<longleftrightarrow> frame (Position e) bs = Some (Data e)"
proof
  assume "e \<in> set (cutFrames 0 bs)"
  then obtain i where i: "i < length bs div ENTRY_SIZE" "e = cutFrames 0 bs ! i"
    by (metis in_set_conv_nth length_cutFrames)
  then have "i * 50 + 50 \<le> length bs" by (simp add: ENTRY_SIZE_50)
  with i show "frame (Position e) bs = Some (Data e)"
    by (simp add: cutFrames_nth frame_def ENTRY_SIZE_50 nat_mult_distrib)
next
  assume f: "frame (Position e) bs = Some (Data e)"
  then have p: "0 \<le> Position e" "Position e mod 50 = 0" "nat (Position e) + 50 \<le> length bs"
    "Data e = slice (nat (Position e)) (nat (Position e) + 50) bs"
    by (auto simp: frame_def ENTRY_SIZE_50 split: if_splits)
  define i where "i = nat (Position e) div 50"
  have pos: "nat (Position e) = i * 50"
    using nat_aligned [OF p(2,1)] by (simp add: i_def mod_0_imp_dvd)
  then have "i < length bs div ENTRY_SIZE" using p(3) by (simp add: ENTRY_SIZE_50)
  moreover have "Position e = int (i * 50)" using pos p(1) by (metis nat_0_le)
  ultimately have "cutFrames 0 bs ! i = e" using p(4) pos by (simp add: cutFrames_nth ENTRY_SIZE_50)
  with \<open>i < _\<close> show "e \<in> set (cutFrames 0 bs)" by (metis length_cutFrames nth_mem)
qed

lemma distinct_positions: "distinct (map Position (cutFrames entry bs))"
  by (auto simp: cutFrames_def distinct_map inj_on_def comp_def ENTRY_SIZE_50)

lemma aligned_tail: "(a :: nat) mod 50 = 0 \<Longrightarrow> b < 50 \<Longrightarrow> (a + b) mod 50 = b"
  by (metis add_0 mod_add_left_eq mod_less)

text \<open>What any order of a load reads.\<close>

lemma load_order_set:
  assumes "load_order ic (bs @ tail) es" "length bs mod ENTRY_SIZE = 0" "length tail < ENTRY_SIZE"
  shows "e \<in> set es \<longleftrightarrow> frame (Position e) bs = Some (Data e)" and "distinct (map Position es)"
proof -
  have "bufferSize mod ENTRY_SIZE = 0" "0 < bufferSize" by (simp_all add: bufferSize_def ENTRY_SIZE_50)
  then have "mset es = mset (cutFrames 0 (loadLimit ic (bs @ tail)))"
    using assms(1) by (simp add: load_order_def loadPass_cutFrames)
  moreover have "length (bs @ tail) - length (bs @ tail) mod ENTRY_SIZE = length bs"
    using aligned_tail [of "length bs" "length tail"] assms(2,3) by (simp add: ENTRY_SIZE_50)
  then have "cutFrames 0 (loadLimit ic (bs @ tail)) = cutFrames 0 bs"
    using cutFrames_append [OF assms(2), of 0 tail] assms(3) by (simp add: loadLimit_def cutFrames_short)
  ultimately have m: "mset es = mset (cutFrames 0 bs)" by simp
  then show "e \<in> set es \<longleftrightarrow> frame (Position e) bs = Some (Data e)"
    using cutFrames_frame by (metis set_mset_mset)
  have "mset (map Position es) = mset (map Position (cutFrames 0 bs))" using m by (simp add: mset_map)
  then show "distinct (map Position es)" using distinct_positions mset_eq_imp_distinct_iff by blast
qed

section \<open>The first pass: values and free slots\<close>

definition records :: "RawDataEntry list \<Rightarrow> FileRecord set" where
  "records es = {r. \<exists>e \<in> set es. decodeRecord (Data e) = Some r}"

lemma records_Cons:
  "records (e # es) = (case decodeRecord (Data e) of None \<Rightarrow> {} | Some r \<Rightarrow> {r}) \<union> records es"
  by (auto simp: records_def split: option.splits)

text \<open>Records of one trie: an id names one chunk, a chunk has one id, hashes likewise.\<close>

definition consistent :: "FileRecord set \<Rightarrow> bool" where
  "consistent R \<longleftrightarrow>
     (\<forall>l i uv uv'. EntryRecord l i uv \<in> R \<longrightarrow> EntryRecord l i uv' \<in> R \<longrightarrow> uv = uv') \<and>
     (\<forall>l i i' uv. EntryRecord l i uv \<in> R \<longrightarrow> EntryRecord l i' uv \<in> R \<longrightarrow> i = i') \<and>
     (\<forall>l i uv. EntryRecord l i uv \<in> R \<longrightarrow> 0 \<le> l) \<and>
     (\<forall>i raw raw'. HashRecord i raw \<in> R \<longrightarrow> HashRecord i raw' \<in> R \<longrightarrow> raw = raw') \<and>
     (\<forall>i i' raw. HashRecord i raw \<in> R \<longrightarrow> HashRecord i' raw \<in> R \<longrightarrow> i = i')"

lemma consistentD:
  assumes "consistent R"
  shows "EntryRecord l i uv \<in> R \<Longrightarrow> EntryRecord l i uv' \<in> R \<Longrightarrow> uv = uv'"
    and "EntryRecord l i uv \<in> R \<Longrightarrow> EntryRecord l i' uv \<in> R \<Longrightarrow> i = i'"
    and "EntryRecord l i uv \<in> R \<Longrightarrow> 0 \<le> l"
    and "HashRecord i raw \<in> R \<Longrightarrow> HashRecord i raw' \<in> R \<Longrightarrow> raw = raw'"
    and "HashRecord i raw \<in> R \<Longrightarrow> HashRecord i' raw \<in> R \<Longrightarrow> i = i'"
  using assms unfolding consistent_def by blast+

lemma consistent_mono: "consistent R \<Longrightarrow> S \<subseteq> R \<Longrightarrow> consistent S"
  unfolding consistent_def [of S]
  by (intro conjI allI impI) (meson consistentD subsetD)+

definition trie_loaded :: "FileRecord set \<Rightarrow> collection \<Rightarrow> bool" where
  "trie_loaded R ic \<longleftrightarrow>
     (\<forall>l i uv. getUniqueValue ic l i = Some uv \<longleftrightarrow> EntryRecord l i uv \<in> R) \<and>
     (\<forall>l i uv. uniqueValueId ic l uv = Some i \<longleftrightarrow> EntryRecord l i uv \<in> R) \<and>
     (\<forall>i raw. hashEntry ic i = Some raw \<longleftrightarrow> HashRecord i raw \<in> R) \<and>
     (\<forall>i raw. hashId ic raw = Some i \<longleftrightarrow> HashRecord i raw \<in> R) \<and>
     (\<forall>l i uv. EntryRecord l i uv \<in> R \<longrightarrow> i \<le> totalEntries ic) \<and>
     (\<forall>i raw. HashRecord i raw \<in> R \<longrightarrow> i \<le> totalEntries ic)"

definition slots_loaded :: "RawDataEntry list \<Rightarrow> collection \<Rightarrow> bool" where
  "slots_loaded es ic \<longleftrightarrow>
     distinct (freespace ic) \<and>
     set (freespace ic) = {Position e | e. e \<in> set es \<and> recordType (Data e) = TYPE_DELETE}"

text \<open>What the first pass leaves alone.\<close>

definition load_step :: "collection \<Rightarrow> collection \<Rightarrow> bool" where
  "load_step ic ic' \<longleftrightarrow>
     index_norm (ic'\<lparr>freespace := []\<rparr>) = index_norm (ic\<lparr>freespace := []\<rparr>) \<and> trees_ext ic ic' \<and>
     (hashEntries ic' = None \<longleftrightarrow> hashEntries ic = None) \<and> (hashValues ic' = None \<longleftrightarrow> hashValues ic = None)"

lemma load_step_refl [simp]: "load_step ic ic"
  by (simp add: load_step_def)

lemma load_step_trans [trans]: "load_step a b \<Longrightarrow> load_step b c \<Longrightarrow> load_step a c"
  unfolding load_step_def by (auto intro: trees_ext_trans)

lemma bump_obs [simp]:
  "getUniqueValue (bumpTotalEntries i ic) = getUniqueValue ic"
  "uniqueValueId (bumpTotalEntries i ic) = uniqueValueId ic"
  "hashEntry (bumpTotalEntries i ic) = hashEntry ic" "hashId (bumpTotalEntries i ic) = hashId ic"
  "hashEntries (bumpTotalEntries i ic) = hashEntries ic"
  "hashValues (bumpTotalEntries i ic) = hashValues ic" "freespace (bumpTotalEntries i ic) = freespace ic"
  "totalEntries (bumpTotalEntries i ic) = max i (totalEntries ic)"
  by (auto simp: bumpTotalEntries_def max_def)

lemma freeSlot_obs [simp]:
  "getUniqueValue (freeSlot p ic) = getUniqueValue ic" "uniqueValueId (freeSlot p ic) = uniqueValueId ic"
  "hashEntry (freeSlot p ic) = hashEntry ic" "hashId (freeSlot p ic) = hashId ic"
  "totalEntries (freeSlot p ic) = totalEntries ic"
  by (simp_all add: freeSlot_def)

lemma freespace_insertEntry [simp]: "freespace (insertEntry l i uv ic) = freespace ic"
  "freespace (putHash i raw ic) = freespace ic"
  by (simp_all add: insertEntry_def putHash_def secureLevelInIndex_def updLevel_def split: option.splits)

lemma load_step_index:
  assumes "index_step ic ic'" "freespace ic' = freespace ic" "trees_ext ic ic'"
    "hashEntries ic' = None \<longleftrightarrow> hashEntries ic = None" "hashValues ic' = None \<longleftrightarrow> hashValues ic = None"
  shows "load_step ic ic'"
proof -
  have n: "index_norm (x\<lparr>freespace := []\<rparr>) = (index_norm x)\<lparr>freespace := []\<rparr>" for x
    by (simp add: index_norm_def)
  show ?thesis using assms by (simp add: load_step_def index_step_def n)
qed

lemma load_steps [simp]:
  "load_step ic (bumpTotalEntries i ic)" "0 \<le> l \<Longrightarrow> load_step ic (insertEntry l i uv ic)"
  "load_step ic (putHash i raw ic)" "load_step ic (freeSlot p ic)"
proof -
  show "load_step ic (bumpTotalEntries i ic)"
    by (rule load_step_index) (auto simp: bumpTotalEntries_def intro: trees_ext_eq)
  show "0 \<le> l \<Longrightarrow> load_step ic (insertEntry l i uv ic)"
    by (rule load_step_index) (simp_all add: insertEntry_obs(5))
  show "load_step ic (putHash i raw ic)"
    by (rule load_step_index) (simp_all, simp_all add: putHash_def)
  show "load_step ic (freeSlot p ic)"
    by (auto simp: load_step_def freeSlot_def index_norm_def intro: trees_ext_eq)
qed

text \<open>One record of the first pass.\<close>

lemma trie_loaded_entry:
  assumes t: "trie_loaded R ic" and c: "consistent (insert (EntryRecord l i uv) R)"
  shows "trie_loaded (insert (EntryRecord l i uv) R) (insertEntry l i uv (bumpTotalEntries i ic))"
proof -
  have l: "0 \<le> l" using consistentD(3) [OF c] by blast
  note obs = insertEntry_obs(1-4) [OF l]
  have cu: "uv' = uv" if "EntryRecord l i uv' \<in> R" for uv' using consistentD(1) [OF c] that by blast
  have ci: "i' = i" if "EntryRecord l i' uv \<in> R" for i' using consistentD(2) [OF c] that by blast
  show ?thesis
    using t cu ci unfolding trie_loaded_def obs insertEntry_same bump_obs
    by (auto simp: le_max_iff_disj)
qed

lemma trie_loaded_hash:
  assumes t: "trie_loaded R ic" and c: "consistent (insert (HashRecord i raw) R)"
    and h: "hashEntries ic \<noteq> None" "hashValues ic \<noteq> None"
  shows "trie_loaded (insert (HashRecord i raw) R) (loadHash i raw ic)"
proof -
  have h': "hashEntries (bumpTotalEntries i ic) \<noteq> None" "hashValues (bumpTotalEntries i ic) \<noteq> None"
    using h by simp_all
  note obs = putHash_obs [OF h', of i raw]
  have te: "totalEntries (putHash i raw (bumpTotalEntries i ic)) = max i (totalEntries ic)"
    by (simp add: putHash_def)
  have cr: "raw' = raw" if "HashRecord i raw' \<in> R" for raw' using consistentD(4) [OF c] that by blast
  have ci: "i' = i" if "HashRecord i' raw \<in> R" for i' using consistentD(5) [OF c] that by blast
  show ?thesis
    using t cr ci unfolding trie_loaded_def loadHash_def obs bump_obs te
    by (auto simp: le_max_iff_disj)
qed

lemma slots_loaded_same:
  "slots_loaded es ic \<Longrightarrow> recordType (Data e) \<noteq> TYPE_DELETE \<Longrightarrow> freespace ic' = freespace ic \<Longrightarrow>
   slots_loaded (e # es) ic'"
  unfolding slots_loaded_def by auto

lemma slots_loaded_free:
  assumes "slots_loaded es ic" "recordType (Data e) = TYPE_DELETE" "0 \<le> Position e"
    "Position e \<notin> Position ` set es"
  shows "slots_loaded (e # es) (freeSlot (Position e) ic)"
  using assms unfolding slots_loaded_def by (auto simp: freeSlot_def)

lemma loadEntry_step:
  assumes t: "trie_loaded R ic" and s: "slots_loaded es ic"
    and c: "consistent ((case decodeRecord (Data e) of None \<Rightarrow> {} | Some r \<Rightarrow> {r}) \<union> R)"
    and pos: "0 \<le> Position e" "Position e \<notin> Position ` set es"
    and hash: "\<And>i raw. decodeRecord (Data e) = Some (HashRecord i raw) \<Longrightarrow>
      hashEntries ic \<noteq> None \<and> hashValues ic \<noteq> None"
  obtains ic' where "loadEntry e ic = Some ic'"
    "trie_loaded ((case decodeRecord (Data e) of None \<Rightarrow> {} | Some r \<Rightarrow> {r}) \<union> R) ic'"
    "slots_loaded (e # es) ic'" "load_step ic ic'"
proof -
  consider "recordType (Data e) = TYPE_ENTRY" | "recordType (Data e) = TYPE_HASH"
    | "recordType (Data e) = TYPE_DELETE"
    | "recordType (Data e) \<notin> {TYPE_ENTRY, TYPE_HASH, TYPE_DELETE}" by blast
  then show thesis
  proof cases
    case 1
    obtain l i uv where b: "bufToEntry (Data e) = (l, i, uv)" by (metis prod_cases3)
    have d: "decodeRecord (Data e) = Some (EntryRecord l i uv)" using 1 b by (simp add: decodeRecord_def)
    have c': "consistent (insert (EntryRecord l i uv) R)" using c d by simp
    have l: "0 \<le> l" using consistentD(3) [OF c'] by blast
    show thesis
    proof (rule that)
      show "loadEntry e ic = Some (insertEntry l i uv (bumpTotalEntries i ic))"
        using 1 b l by (simp add: loadEntry_def)
      show "load_step ic (insertEntry l i uv (bumpTotalEntries i ic))"
        by (rule load_step_trans [OF load_steps(1) load_steps(2) [OF l]])
    qed (use 1 d trie_loaded_entry [OF t c'] slots_loaded_same [OF s] in auto)
  next
    case 2
    obtain i raw where b: "bufToHash (Data e) = (i, raw)" by force
    have d: "decodeRecord (Data e) = Some (HashRecord i raw)" using 2 b by (simp add: decodeRecord_def)
    have c': "consistent (insert (HashRecord i raw) R)" using c d by simp
    note h = hash [OF d]
    show thesis
    proof (rule that)
      show "loadEntry e ic = Some (loadHash i raw ic)" using 2 b h by (simp add: loadEntry_def)
      show "load_step ic (loadHash i raw ic)"
        unfolding loadHash_def by (rule load_step_trans [OF load_steps(1) load_steps(3)])
    qed (use 2 d trie_loaded_hash [OF t c'] h slots_loaded_same [OF s] in \<open>auto simp: loadHash_def\<close>)
  next
    case 3
    then have d: "decodeRecord (Data e) = None" by (simp add: decodeRecord_def bufToAssociation_def)
    show thesis
    proof (rule that)
      show "loadEntry e ic = Some (freeSlot (Position e) ic)" using 3 by (simp add: loadEntry_def)
    qed (use 3 d t slots_loaded_free [OF s 3 pos] in \<open>auto simp: trie_loaded_def\<close>)
  next
    case 4
    have d: "EntryRecord l i uv \<notin> (case decodeRecord (Data e) of None \<Rightarrow> {} | Some r \<Rightarrow> {r})"
      "HashRecord i raw \<notin> (case decodeRecord (Data e) of None \<Rightarrow> {} | Some r \<Rightarrow> {r})" for l i uv raw
      using 4 by (auto simp: decodeRecord_def split: option.splits)
    show thesis
    proof (rule that)
      show "loadEntry e ic = Some ic" using 4 by (simp add: loadEntry_def)
    qed (use 4 d t slots_loaded_same [OF s] in \<open>auto simp: trie_loaded_def\<close>)
  qed
qed

lemma loadEntries_spec:
  assumes "trie_loaded (records done) ic" "slots_loaded done ic" "consistent (records (es @ done))"
    and "\<forall>e \<in> set es. 0 \<le> Position e" "distinct (map Position (es @ done))"
    and "\<And>i raw. HashRecord i raw \<in> records es \<Longrightarrow> hashEntries ic \<noteq> None \<and> hashValues ic \<noteq> None"
  shows "\<exists>ic'. loadEntries es ic = Some ic' \<and> trie_loaded (records (es @ done)) ic' \<and>
    slots_loaded (es @ done) ic' \<and> load_step ic ic'"
  using assms
proof (induction es arbitrary: ic "done")
  case Nil
  then show ?case by (simp add: loadEntries_def)
next
  case (Cons e es)
  have r: "records (es @ e # done) = records ((e # es) @ done)" "slots_loaded (es @ e # done) = slots_loaded ((e # es) @ done)"
    by (auto simp: records_def slots_loaded_def fun_eq_iff)
  have "consistent (records (e # done))"
    by (rule consistent_mono [OF Cons.prems(3)]) (auto simp: records_def)
  then have c: "consistent ((case decodeRecord (Data e) of None \<Rightarrow> {} | Some r \<Rightarrow> {r}) \<union> records done)"
    by (simp add: records_Cons)
  have "hashEntries ic \<noteq> None \<and> hashValues ic \<noteq> None" if "decodeRecord (Data e) = Some (HashRecord i raw)" for i raw
    using Cons.prems(6) [of i raw] that by (auto simp: records_def)
  then obtain ic1 where ic1: "loadEntry e ic = Some ic1" "trie_loaded (records (e # done)) ic1"
    "slots_loaded (e # done) ic1" "load_step ic ic1"
    using loadEntry_step [OF Cons.prems(1,2) c] Cons.prems(4,5) unfolding records_Cons by auto
  have "\<exists>ic'. loadEntries es ic1 = Some ic' \<and> trie_loaded (records (es @ e # done)) ic' \<and>
      slots_loaded (es @ e # done) ic' \<and> load_step ic1 ic'"
  proof (rule Cons.IH [OF ic1(2,3)])
    show "consistent (records (es @ e # done))" using Cons.prems(3) r by simp
    show "hashEntries ic1 \<noteq> None \<and> hashValues ic1 \<noteq> None" if "HashRecord i raw \<in> records es" for i raw
      using Cons.prems(6) [of i raw] that ic1(4) by (auto simp: records_def load_step_def)
  qed (use Cons.prems(4,5) in auto)
  then show ?case
    using ic1(1,4) r by (auto simp: loadEntries_def intro: load_step_trans)
qed

section \<open>The second pass: associations\<close>

definition holds :: "RawDataEntry list \<Rightarrow> int \<Rightarrow> Triple \<Rightarrow> bool" where
  "holds es p t \<longleftrightarrow> (\<exists>e \<in> set es. Position e = p \<and> bufToAssociation (Data e) = Some t)"

definition assoc_loaded :: "RawDataEntry list \<Rightarrow> collection \<Rightarrow> bool" where
  "assoc_loaded es ic \<longleftrightarrow>
     sets_ok ic \<and>
     (\<forall>l k v1 v2 p. fwd ic l k v1 v2 = Some p \<longleftrightarrow>
        (\<exists>t. holds es p t \<and> t_Level t = l \<and> t_Key t = k \<and> t_Value1 t = v1 \<and> t_Value2 t = v2)) \<and>
     (\<forall>l v2 v1 k p. bwd ic l v2 v1 k = Some p \<longleftrightarrow>
        (\<exists>t. holds es p t \<and> t_Value2Level t = l \<and> t_Value2 t = v2 \<and> t_Value1 t = v1 \<and>
             t_Key t = k \<and> shouldBuildReverse t ic))"

text \<open>No two records of the file hold triples with the same three ids.\<close>

definition no_duplicates :: "RawDataEntry list \<Rightarrow> bool" where
  "no_duplicates es \<longleftrightarrow>
     (\<forall>p q t u. holds es p t \<longrightarrow> holds es q u \<longrightarrow>
        t_Key t = t_Key u \<longrightarrow> t_Value1 t = t_Value1 u \<longrightarrow> t_Value2 t = t_Value2 u \<longrightarrow> p = q)"

lemma holds_Cons:
  "holds (e # es) p t \<longleftrightarrow> Position e = p \<and> bufToAssociation (Data e) = Some t \<or> holds es p t"
  by (auto simp: holds_def)

lemma tree_ready_no_panic:
  assumes "tree_ready ic (t_Level a)" "tree_ready ic (t_Value2Level a)"
  shows "\<not> insertAssociation_panics (t_Level a) a ic"
proof -
  let ?ic1 = "secureEntryLevel (t_Level a) ic"
  have "tree_ready ?ic1 (t_Value2Level a)" using assms(2) by (simp add: tree_ready_def split: if_splits)
  from tree_ready_secure(2) [OF this]
    tree_kept(1) [OF secureEntryLevel_obs(3) tree_ready_secure(1) [OF assms(1)], of "t_Value2Level a"]
  show ?thesis by (simp add: insertAssociation_panics_def Let_def)
qed

lemma tree_ready_trees_ext:
  assumes "trees_ext ic ic'" "tree_ready ic l"
  shows "tree_ready ic' l"
  using assms(2) tree_kept [OF assms(1), of HASH_LEVEL]
  by (auto simp: tree_ready_def associationsTree_def reverseAssociationsTree_def split: if_splits)

lemma loadAssociation_step:
  assumes l: "assoc_loaded es ic" and d: "no_duplicates (e # es)"
    and pos: "Position e \<notin> Position ` set es"
    and ready: "\<And>t. bufToAssociation (Data e) = Some t \<Longrightarrow>
      tree_ready ic (t_Level t) \<and> tree_ready ic (t_Value2Level t)"
  obtains ic' where "loadAssociation e ic = Some ic'" "assoc_loaded (e # es) ic'"
    "same_trie ic ic'" "index_step ic ic'"
proof (cases "bufToAssociation (Data e)")
  case None
  then have "holds (e # es) = holds es" by (simp add: fun_eq_iff holds_Cons)
  with None l show thesis by (intro that [of ic]) (simp_all add: loadAssociation_def assoc_loaded_def)
next
  case (Some t)
  define ic' where "ic' = insertAssociation (t_Level t) t (Position e) ic"
  have r: "tree_ready ic (t_Level t)" "tree_ready ic (t_Value2Level t)" using ready [OF Some] by simp_all
  have "sets_ok ic" using l by (simp add: assoc_loaded_def)
  note obs = insertAssociation_obs [OF this r ic'_def [symmetric]]
  note sb = same_trie_lookup(5) [OF obs(4)]
  have here: "holds (e # es) (Position e) t" using Some by (simp add: holds_Cons)
  have gone: "\<not> holds es p u" if "t_Key u = t_Key t" "t_Value1 u = t_Value1 t" "t_Value2 u = t_Value2 t" for p u
  proof
    assume h: "holds es p u"
    then have "holds (e # es) p u" by (simp add: holds_Cons)
    then have "p = Position e" using d here that unfolding no_duplicates_def by metis
    with h pos show False unfolding holds_def by (metis rev_image_eqI)
  qed
  have f: "fwd ic l k v1 v2 = Some p \<longleftrightarrow>
      (\<exists>t. holds es p t \<and> t_Level t = l \<and> t_Key t = k \<and> t_Value1 t = v1 \<and> t_Value2 t = v2)" for l k v1 v2 p
    using l unfolding assoc_loaded_def by blast
  have b: "bwd ic l v2 v1 k = Some p \<longleftrightarrow>
      (\<exists>t. holds es p t \<and> t_Value2Level t = l \<and> t_Value2 t = v2 \<and> t_Value1 t = v1 \<and>
           t_Key t = k \<and> shouldBuildReverse t ic)" for l v2 v1 k p
    using l unfolding assoc_loaded_def by blast
  have "assoc_loaded (e # es) ic'"
    unfolding assoc_loaded_def
  proof (intro conjI allI)
    show "sets_ok ic'" by (rule obs(3))
    show "fwd ic' l k v1 v2 = Some p \<longleftrightarrow> (\<exists>t. holds (e # es) p t \<and> t_Level t = l \<and> t_Key t = k \<and>
        t_Value1 t = v1 \<and> t_Value2 t = v2)" for l k v1 v2 p
      using gone Some unfolding obs(1) holds_Cons by (auto simp: f)
    show "bwd ic' l v2 v1 k = Some p \<longleftrightarrow> (\<exists>t. holds (e # es) p t \<and> t_Value2Level t = l \<and> t_Value2 t = v2 \<and>
        t_Value1 t = v1 \<and> t_Key t = k \<and> shouldBuildReverse t ic')" for l v2 v1 k p
      using gone Some unfolding obs(2) holds_Cons sb by (auto simp: b)
  qed
  moreover have "loadAssociation e ic = Some ic'"
    using Some tree_ready_no_panic [OF r] by (simp add: loadAssociation_def ic'_def)
  ultimately show thesis using obs(4,5) by (intro that)
qed

lemma insertAssociation_tree_ready:
  assumes "sets_ok ic" "tree_ready ic (t_Level a)" "tree_ready ic (t_Value2Level a)" "tree_ready ic l"
  shows "tree_ready (insertAssociation (t_Level a) a p ic) l"
proof -
  let ?ic' = "insertAssociation (t_Level a) a p ic"
  have h: "hashAssociations (updAssociationsTree l f ic) \<noteq> None \<longleftrightarrow> hashAssociations ic \<noteq> None"
    "hashAssociations (updReverseAssociationsTree l f ic) = hashAssociations ic"
    "hashReverseAssociations (updAssociationsTree l f ic) = hashReverseAssociations ic"
    "hashReverseAssociations (updReverseAssociationsTree l f ic) \<noteq> None \<longleftrightarrow> hashReverseAssociations ic \<noteq> None"
    for l f ic
    by (simp_all add: updAssociationsTree_def updReverseAssociationsTree_def updLevel_def
        split: option.splits)
  have "hashAssociations ic \<noteq> None \<Longrightarrow> hashAssociations ?ic' \<noteq> None"
    "hashReverseAssociations ic \<noteq> None \<Longrightarrow> hashReverseAssociations ?ic' \<noteq> None"
    by (simp_all add: insertAssociation_def Let_def h del: not_None_eq)
  then show ?thesis
    using assms(4) by (simp add: tree_ready_def split: if_splits del: not_None_eq)
qed

lemma loadAssociations_spec:
  assumes "assoc_loaded done ic" "no_duplicates (es @ done)" "distinct (map Position (es @ done))"
    and "\<And>p t. holds es p t \<Longrightarrow> tree_ready ic (t_Level t) \<and> tree_ready ic (t_Value2Level t)"
  shows "\<exists>ic'. loadAssociations es ic = Some ic' \<and> assoc_loaded (es @ done) ic' \<and>
    same_trie ic ic' \<and> index_step ic ic'"
  using assms
proof (induction es arbitrary: ic "done")
  case Nil
  then show ?case by (simp add: loadAssociations_def)
next
  case (Cons e es)
  have h: "holds (es @ e # done) = holds ((e # es) @ done)" by (auto simp: fun_eq_iff holds_def)
  have eq: "no_duplicates (es @ e # done) = no_duplicates ((e # es) @ done)"
    "assoc_loaded (es @ e # done) = assoc_loaded ((e # es) @ done)"
    by (simp_all add: no_duplicates_def assoc_loaded_def fun_eq_iff h)
  have "holds ((e # es) @ done) p t" if "holds (e # done) p t" for p t
    using that by (auto simp: holds_def)
  then have nd: "no_duplicates (e # done)"
    using Cons.prems(2) unfolding no_duplicates_def by blast
  have ready: "tree_ready ic (t_Level t) \<and> tree_ready ic (t_Value2Level t)"
    if "bufToAssociation (Data e) = Some t" for t
    using Cons.prems(4) [of "Position e" t] that by (simp add: holds_Cons)
  have "Position e \<notin> Position ` set done" using Cons.prems(3) by auto
  from loadAssociation_step [OF Cons.prems(1) nd this ready] obtain ic1 where
    ic1: "loadAssociation e ic = Some ic1" "assoc_loaded (e # done) ic1" "same_trie ic ic1" "index_step ic ic1"
    by blast
  have keep: "tree_ready ic1 l" if "tree_ready ic l" for l
  proof (cases "bufToAssociation (Data e)")
    case None
    with ic1(1) that show ?thesis by (simp add: loadAssociation_def)
  next
    case (Some t)
    then have "ic1 = insertAssociation (t_Level t) t (Position e) ic"
      using ic1(1) by (simp add: loadAssociation_def split: if_splits)
    then show ?thesis
      using insertAssociation_tree_ready [OF _ _ _ that, of t "Position e"] ready [OF Some] Cons.prems(1)
      by (simp add: assoc_loaded_def)
  qed
  have "\<exists>ic'. loadAssociations es ic1 = Some ic' \<and> assoc_loaded (es @ e # done) ic' \<and>
      same_trie ic1 ic' \<and> index_step ic1 ic'"
  proof (rule Cons.IH [OF ic1(2)])
    show "no_duplicates (es @ e # done)" using Cons.prems(2) eq by simp
    show "tree_ready ic1 (t_Level t) \<and> tree_ready ic1 (t_Value2Level t)" if "holds es p t" for p t
      using Cons.prems(4) [of p t] that keep by (simp add: holds_Cons)
  qed (use Cons.prems(3) in auto)
  then show ?case
    using ic1 eq by (auto simp: loadAssociations_def intro: same_trie_trans index_step_trans)
qed


section \<open>A collection read back from its file\<close>

text \<open>The records a load sees are those the collection keeps.\<close>

lemma records_file:
  assumes "\<And>e. e \<in> set es \<longleftrightarrow> frame (Position e) (diskBytes ic) = Some (Data e)"
  shows "r \<in> records es \<longleftrightarrow> (\<exists>p. file_rec ic p = Some r)"
    and "holds es p t \<longleftrightarrow> disk_rec ic p = Some t"
proof -
  have "r \<in> records es \<longleftrightarrow>
      (\<exists>e :: RawDataEntry. frame (Position e) (diskBytes ic) = Some (Data e) \<and>
         decodeRecord (Data e) = Some r)"
    unfolding records_def mem_Collect_eq Bex_def assms by (rule refl)
  also have "\<dots> \<longleftrightarrow> (\<exists>p b. frame p (diskBytes ic) = Some b \<and> decodeRecord b = Some r)"
    by (metis RawDataEntry.select_convs)
  finally show "r \<in> records es \<longleftrightarrow> (\<exists>p. file_rec ic p = Some r)"
    by (auto simp: file_rec_def bind_eq_Some_conv)
  have "holds es p t \<longleftrightarrow> (\<exists>e :: RawDataEntry. frame (Position e) (diskBytes ic) = Some (Data e) \<and> Position e = p \<and>
      bufToAssociation (Data e) = Some t)"
    unfolding holds_def Bex_def assms by (rule refl)
  also have "\<dots> \<longleftrightarrow> (\<exists>b. frame p (diskBytes ic) = Some b \<and> bufToAssociation b = Some t)"
    by (metis RawDataEntry.select_convs)
  finally show "holds es p t \<longleftrightarrow> disk_rec ic p = Some t"
    by (auto simp: disk_rec_def bind_eq_Some_conv)
qed

lemma persistedD:
  assumes "persisted ic" "writeToDisk ic"
  shows "(\<exists>p. file_rec ic p = Some (EntryRecord l i uv)) \<longleftrightarrow> getUniqueValue ic l i = Some uv"
    and "(\<exists>p. file_rec ic p = Some (HashRecord i raw)) \<longleftrightarrow> hashEntry ic i = Some raw"
  using assms by (auto simp: persisted_def)

lemma records_trie:
  assumes "coll_wf ic" "writeToDisk ic"
    and "\<And>e. e \<in> set es \<longleftrightarrow> frame (Position e) (diskBytes ic) = Some (Data e)"
  shows "EntryRecord l i uv \<in> records es \<longleftrightarrow> getUniqueValue ic l i = Some uv"
    and "HashRecord i raw \<in> records es \<longleftrightarrow> hashEntry ic i = Some raw"
    and "consistent (records es)"
proof -
  note w = wfD [OF assms(1)]
  show e: "EntryRecord l i uv \<in> records es \<longleftrightarrow> getUniqueValue ic l i = Some uv" for l i uv
    using records_file(1) [OF assms(3)] persistedD(1) [OF w(4) assms(2)] by simp
  show h: "HashRecord i raw \<in> records es \<longleftrightarrow> hashEntry ic i = Some raw" for i raw
    using records_file(1) [OF assms(3)] persistedD(2) [OF w(4) assms(2)] by simp
  have "0 \<le> l" if "getUniqueValue ic l i = Some uv" for l i uv
    using trie_wfD(2) [OF w(1) that] by (simp add: entry_ok_def)
  moreover have "i = i'" if "getUniqueValue ic l i = Some uv" "getUniqueValue ic l i' = Some uv" for l i i' uv
    using that trie_wfD(1) [OF w(1)] by (metis option.inject)
  moreover have "i = i'" if "hashEntry ic i = Some raw" "hashEntry ic i' = Some raw" for i i' raw
    using that trie_wfD(4) [OF w(1)] by (metis option.inject)
  ultimately show "consistent (records es)"
    unfolding consistent_def e h by (intro conjI allI impI) (blast | simp)+
qed


lemma index_norm_fields:
  "writerGone (index_norm ic) = writerGone ic" "closed (index_norm ic) = closed ic"
  "cache (index_norm ic) = cache ic" "freespace (index_norm ic) = freespace ic"
  by (simp_all add: index_norm_def)

lemma load_step_obs:
  assumes "load_step ic ic'"
  shows "readOnly ic' = readOnly ic" "writerGone ic' = writerGone ic" "closed ic' = closed ic"
    "cache ic' = cache ic" "writeToDisk ic' = writeToDisk ic" "blobPolicy ic' = blobPolicy ic"
    "reverseRelations ic' = reverseRelations ic" "ioErr ic' = ioErr ic"
proof -
  have n: "index_norm (ic'\<lparr>freespace := []\<rparr>) = index_norm (ic\<lparr>freespace := []\<rparr>)"
    using assms by (simp add: load_step_def)
  show "readOnly ic' = readOnly ic" "writerGone ic' = writerGone ic" "closed ic' = closed ic"
    "cache ic' = cache ic" "writeToDisk ic' = writeToDisk ic" "blobPolicy ic' = blobPolicy ic"
    "reverseRelations ic' = reverseRelations ic" "ioErr ic' = ioErr ic"
    using arg_cong [OF n, of readOnly] arg_cong [OF n, of writerGone] arg_cong [OF n, of closed]
      arg_cong [OF n, of cache] arg_cong [OF n, of writeToDisk] arg_cong [OF n, of blobPolicy]
      arg_cong [OF n, of reverseRelations] arg_cong [OF n, of ioErr]
    by (simp_all add: index_norm_fields storage_obs_norm)
qed

lemma index_step_fields:
  assumes "index_step ic ic'"
  shows "writerGone ic' = writerGone ic" "closed ic' = closed ic" "cache ic' = cache ic"
    "freespace ic' = freespace ic"
  using assms unfolding index_step_def by (metis index_norm_fields)+

text \<open>The values of a collection with the same entries, hashes and policy.\<close>

definition trie_eq :: "collection \<Rightarrow> collection \<Rightarrow> bool" where
  "trie_eq ic ic' \<longleftrightarrow>
     getUniqueValue ic' = getUniqueValue ic \<and> uniqueValueId ic' = uniqueValueId ic \<and>
     hashEntry ic' = hashEntry ic \<and> hashId ic' = hashId ic \<and> blobPolicy ic' = blobPolicy ic"

lemma trie_eq_lookup:
  assumes "trie_eq ic ic'"
  shows "lookupEntry ic' = lookupEntry ic" and "getValueString ic' = getValueString ic"
    and "makeStringTriple ic' = makeStringTriple ic" and "triple_named ic' = triple_named ic"
proof -
  note eqs = assms [unfolded trie_eq_def]
  have "pathId ic' l p vs = pathId ic l p vs" for l p vs
    using eqs by (induction vs arbitrary: l p) (auto split: option.splits)
  moreover have "asBlob ic' v = asBlob ic v" for v using eqs by (simp add: asBlob_def)
  ultimately show l: "lookupEntry ic' = lookupEntry ic"
    using eqs by (simp add: fun_eq_iff lookupEntry_def split: option.splits)
  have "getChain ic' n i = getChain ic n i" for n i using eqs by (blast intro: getChain_cong)
  then have "getValue ic' = getValue ic" by (simp add: fun_eq_iff getValue_def del: getChain.simps)
  then show gvs: "getValueString ic' = getValueString ic"
    using eqs by (simp add: fun_eq_iff getValueString_def)
  then show "makeStringTriple ic' = makeStringTriple ic"
    by (simp add: fun_eq_iff makeStringTriple_def)
  show "triple_named ic' = triple_named ic" by (simp add: fun_eq_iff triple_named_def named_def l)
qed

lemma trie_loaded_eq:
  assumes "coll_wf ic" "writeToDisk ic" "blobPolicy ic' = blobPolicy ic"
    and es: "\<And>e. e \<in> set es \<longleftrightarrow> frame (Position e) (diskBytes ic) = Some (Data e)"
    and "trie_loaded (records es) ic'"
    and "blobPolicy ic \<noteq> None \<Longrightarrow> hashEntries ic' \<noteq> None \<and> hashValues ic' \<noteq> None"
  shows "trie_eq ic ic'" and "trie_wf ic'"
proof -
  note w = wfD [OF assms(1)] and tw = trie_wfD [OF wfD(1) [OF assms(1)]]
  note r = records_trie(1,2) [OF assms(1,2) es]
  note t = assms(5) [unfolded trie_loaded_def r]
  have "getUniqueValue ic' l i = getUniqueValue ic l i" "uniqueValueId ic' l uv = uniqueValueId ic l uv"
    "hashEntry ic' i = hashEntry ic i" "hashId ic' raw = hashId ic raw" for l i uv raw
    using t tw(1,4) by (auto intro: option_eqI)
  then show eq: "trie_eq ic ic'" using assms(3) by (simp add: trie_eq_def fun_eq_iff)
  have "entry_ok ic' l i uv" if "getUniqueValue ic l i = Some uv" for l i uv
    using tw(2) [OF that] t [THEN conjunct2, THEN conjunct2, THEN conjunct2, THEN conjunct2, THEN conjunct1] eq that
    unfolding entry_ok_def trie_eq_def by metis
  moreover have "hash_ok ic' i raw" if "hashEntry ic i = Some raw" for i raw
    using tw(5) [OF that] t [THEN conjunct2, THEN conjunct2, THEN conjunct2, THEN conjunct2, THEN conjunct2] eq that
    unfolding hash_ok_def trie_eq_def by metis
  ultimately show "trie_wf ic'"
    using eq tw assms(6) unfolding trie_wf_def trie_eq_def by auto
qed


text \<open>Starting the writer on a file with a partial last record.\<close>

lemma dBWriter_ok:
  assumes "length bs mod ENTRY_SIZE = 0" "length tail < ENTRY_SIZE"
  shows "dBWriter (bs @ tail) None None ic =
    ic\<lparr>dBWriteQueue := [], db_size := int (length bs), db_file := Some (openFile bs)\<rparr>"
proof -
  have "(length bs + length tail) mod ENTRY_SIZE = length tail"
    using aligned_tail [of "length bs" "length tail"] assms by (simp add: ENTRY_SIZE_50)
  then show ?thesis by (simp add: dBWriter_def initDBSize_def Let_def)
qed

lemma core_dBWriter_ok:
  "core (ic\<lparr>dBWriteQueue := q, db_size := n, db_file := f\<rparr>) = core ic"
  by (simp add: core_def)

lemma disk_inv_loaded:
  assumes ic': "ic' = ic\<lparr>dBWriteQueue := [], db_size := int (length bs), db_file := Some (openFile bs)\<rparr>"
    and al: "length bs mod ENTRY_SIZE = 0"
    and "\<not> readOnly ic" "\<not> writerGone ic" "\<not> closed ic" "cache ic = Some (newTripleCache n)"
    and es: "\<And>e. e \<in> set es \<longleftrightarrow> frame (Position e) bs = Some (Data e)"
    and sl: "slots_loaded es ic"
  shows "disk_inv ic'" and "diskBytes ic' = bs"
proof -
  show b: "diskBytes ic' = bs" by (simp add: ic' diskBytes_def openFile_def)
  have f: "slot_ok (int (length bs)) p \<and> dead bs p" if p: "p \<in> set (freespace ic)" for p
  proof -
    obtain e where e: "e \<in> set es" "Position e = p" "recordType (Data e) = TYPE_DELETE"
      using p sl unfolding slots_loaded_def by auto
    then have fr: "frame p bs = Some (Data e)" using es by blast
    then have "slot_ok (int (length bs)) p"
      by (auto simp: frame_def slot_ok_def ENTRY_SIZE_50 split: if_splits)
    with fr e(3) show ?thesis by (simp add: dead_def)
  qed
  have m: "int (length bs) mod int ENTRY_SIZE = 0"
    unfolding of_nat_mod [symmetric] al by simp
  have fields: "db_file ic' = Some (openFile bs)" "readOnly ic' = readOnly ic" "writerGone ic' = writerGone ic"
    "closed ic' = closed ic" "db_size ic' = int (length bs)" "dBWriteQueue ic' = []"
    "freespace ic' = freespace ic" "cache ic' = cache ic" "pendingDeletes ic' = []"
    by (simp_all add: ic' pendingDeletes_def)
  have "\<exists>f. db_file ic' = Some f \<and> db_faults f = [] \<and> length (db_bytes f) mod ENTRY_SIZE = 0 \<and>
      int (length (db_bytes f)) \<le> db_size ic'"
    using al by (simp add: fields openFile_def)
  moreover have "tc_inv c \<and> (\<forall>p t. tc_lookup c p = Some t \<longrightarrow> disk_rec ic' p = Some t)"
    if "cache ic = Some c" for c
    using that assms(6) by auto
  moreover have "distinct (freespace ic)" using sl by (simp add: slots_loaded_def)
  ultimately show "disk_inv ic'"
    unfolding disk_inv_def b using f m assms(3-5) by (simp add: fields)
qed

text \<open>The two passes over the file of \<open>ic\<close>, into the fresh collection \<open>ic0\<close>.\<close>

lemma newCollection_storage:
  "freespace (newCollection True r rs pol mb) = []" "\<not> writerGone (newCollection True r rs pol mb)"
  "\<not> closed (newCollection True r rs pol mb)"
  "cache (newCollection True r rs pol mb) = Some (newTripleCache (int defaultTripleCacheSize))"
  by (simp_all add: newCollection_def SetReverseRelations_def SetBlobPolicy_def Let_def
      split: option.splits)

lemma first_pass:
  assumes wf: "coll_wf ic" "writeToDisk ic"
    and ic0: "ic0 = newCollection True ro rs (blobPolicy ic) mb"
    and es: "\<And>e. e \<in> set es \<longleftrightarrow> frame (Position e) (diskBytes ic) = Some (Data e)"
      "distinct (map Position es)"
  obtains ic1 where "loadEntries es ic0 = Some ic1" "slots_loaded es ic1" "load_step ic0 ic1"
    "trie_eq ic ic1" "trie_wf ic1" "sets_ok ic1"
proof -
  note rec = records_trie [OF wf es(1)]
  have pos: "\<forall>e \<in> set es. 0 \<le> Position e" by (auto simp: es(1) frame_def split: if_splits)
  have hash: "hashEntries ic0 \<noteq> None \<and> hashValues ic0 \<noteq> None" if "blobPolicy ic \<noteq> None"
    using newCollection_hash(1,2) [OF that] by (simp add: ic0)
  have "trie_loaded (records []) ic0" "slots_loaded [] ic0"
    by (simp_all add: ic0 trie_loaded_def records_def newCollection_obs slots_loaded_def
        newCollection_storage)
  then have "\<exists>ic'. loadEntries es ic0 = Some ic' \<and> trie_loaded (records (es @ [])) ic' \<and>
      slots_loaded (es @ []) ic' \<and> load_step ic0 ic'"
    using rec(2,3) es(2) pos hash trie_wfD(7) [OF wfD(1) [OF wf(1)]]
    by (intro loadEntries_spec) auto
  then obtain ic1 where ic1: "loadEntries es ic0 = Some ic1" "trie_loaded (records es) ic1"
    "slots_loaded es ic1" "load_step ic0 ic1" by auto
  note f1 = load_step_obs [OF ic1(4)]
  have hash1: "hashEntries ic1 \<noteq> None \<and> hashValues ic1 \<noteq> None" if "blobPolicy ic \<noteq> None"
    using hash [OF that] ic1(4) by (auto simp: load_step_def)
  have p1: "blobPolicy ic1 = blobPolicy ic" using f1(6) by (simp add: ic0)
  have "sets_ok ic1"
    by (rule sets_ok_ext [of ic0]) (use ic1(4) f1 in \<open>simp_all add: ic0 sets_ok_new load_step_def\<close>)
  with ic1 trie_loaded_eq [OF wf p1 es(1) ic1(2) hash1] show thesis by (intro that)
qed

lemma second_pass:
  assumes wf: "coll_wf ic" "writeToDisk ic"
    and ic1: "trie_eq ic ic1" "trie_wf ic1" "sets_ok ic1"
      "getAssociations ic1 = (\<lambda>_ _. newAssociationSet)" "getReverseAssociations ic1 = (\<lambda>_ _. newAssociationSet)"
    and as: "\<And>e. e \<in> set as \<longleftrightarrow> frame (Position e) (diskBytes ic) = Some (Data e)"
      "distinct (map Position as)"
  obtains ic2 where "loadAssociations as ic1 = Some ic2" "same_trie ic1 ic2" "index_step ic1 ic2"
    "sets_ok ic2"
    "\<And>l k v1 v2 p. fwd ic2 l k v1 v2 = Some p \<longleftrightarrow>
        (\<exists>t. record_at ic p = Some t \<and> t_Level t = l \<and> t_Key t = k \<and> t_Value1 t = v1 \<and> t_Value2 t = v2)"
    "\<And>l v2 v1 k p. bwd ic2 l v2 v1 k = Some p \<longleftrightarrow>
        (\<exists>t. record_at ic p = Some t \<and> t_Value2Level t = l \<and> t_Value2 t = v2 \<and> t_Value1 t = v1 \<and>
             t_Key t = k \<and> shouldBuildReverse t ic2)"
proof -
  note w = wfD [OF wf(1)]
  have h: "holds as p t \<longleftrightarrow> record_at ic p = Some t" for p t
    using records_file(2) [OF as(1)] wf(2) by (simp add: record_at_def)
  have n: "triple_named ic1 t" if "holds as p t" for p t
    using that idx_wfD(2) [OF w(3)] trie_eq_lookup(4) [OF ic1(1)] by (simp add: h)
  have "p = q" if a: "record_at ic p = Some t" "record_at ic q = Some u" "t_Key t = t_Key u"
      "t_Value1 t = t_Value1 u" "t_Value2 t = t_Value2 u" for p q t u
  proof -
    have "t = u" using a idx_wfD(2) [OF w(3)] triple_named_eqI [OF w(1)] by blast
    then show ?thesis using a(1,2) idx_wfD(3) [OF w(3)] by (metis option.inject)
  qed
  then have "no_duplicates as" unfolding no_duplicates_def h by blast
  moreover have "assoc_loaded [] ic1"
    using ic1(3-5) by (simp add: assoc_loaded_def holds_def fwd_def bwd_def)
  ultimately have "\<exists>ic'. loadAssociations as ic1 = Some ic' \<and> assoc_loaded (as @ []) ic' \<and>
      same_trie ic1 ic' \<and> index_step ic1 ic'"
    using as(2) n named_tree_ready [OF ic1(2,3)]
    by (intro loadAssociations_spec) (auto simp: triple_named_def)
  then obtain ic2 where ic2: "loadAssociations as ic1 = Some ic2" "assoc_loaded as ic2"
    "same_trie ic1 ic2" "index_step ic1 ic2" by auto
  show thesis
    by (rule that [OF ic2(1,3,4)]) (use ic2(2) in \<open>simp_all only: assoc_loaded_def h\<close>)
qed

text \<open>Opening the file again gives a collection with the same triples.\<close>

lemma loadDB_restores:
  assumes wf: "coll_wf ic" "writeToDisk ic" and bs: "diskBytes ic = bs"
    and tail: "length tail < ENTRY_SIZE"
    and ic0: "ic0 = newCollection True False rs (blobPolicy ic) mb"
    and order: "load_order ic0 (bs @ tail) es" "load_order ic0 (bs @ tail) as"
  obtains ic2 ic' where "loadDB es as ic0 = Some ic2" "ic' = dBWriter (bs @ tail) None None ic2"
    "coll_wf ic'" "triples ic' = triples ic" "writeToDisk ic'" "\<not> readOnly ic'" "ioErr ic' = None"
    "reverseRelations ic' = map_option remdups rs" "db_bytes (the (db_file ic')) = bs"
proof -
  note w = wfD [OF wf(1)]
  have al: "length bs mod ENTRY_SIZE = 0"
    using disk_inv_bytes(1) w(2) wf(2) bs by (auto simp: store_inv_def)
  note es = load_order_set [OF order(1) al tail] and as = load_order_set [OF order(2) al tail]
  obtain ic1 where ic1: "loadEntries es ic0 = Some ic1" "slots_loaded es ic1" "load_step ic0 ic1"
    "trie_eq ic ic1" "trie_wf ic1" "sets_ok ic1"
    by (rule first_pass [OF wf ic0 es(1) [folded bs] es(2)])
  have empty: "getAssociations ic1 = (\<lambda>_ _. newAssociationSet)"
    "getReverseAssociations ic1 = (\<lambda>_ _. newAssociationSet)"
    using getAssociations_trees_ext [of ic0 ic1] ic1(3) newCollection_obs
    by (simp_all add: load_step_def ic0)
  obtain ic2 where ic2: "loadAssociations as ic1 = Some ic2" "same_trie ic1 ic2" "index_step ic1 ic2"
    "sets_ok ic2" and
    f: "\<And>l k v1 v2 p. fwd ic2 l k v1 v2 = Some p \<longleftrightarrow>
        (\<exists>t. record_at ic p = Some t \<and> t_Level t = l \<and> t_Key t = k \<and> t_Value1 t = v1 \<and> t_Value2 t = v2)" and
    b: "\<And>l v2 v1 k p. bwd ic2 l v2 v1 k = Some p \<longleftrightarrow>
        (\<exists>t. record_at ic p = Some t \<and> t_Value2Level t = l \<and> t_Value2 t = v2 \<and> t_Value1 t = v1 \<and>
             t_Key t = k \<and> shouldBuildReverse t ic2)"
    by (rule second_pass [OF wf ic1(4-6) empty as(1) [folded bs] as(2)]) (rule that)
  note fields = load_step_obs [OF ic1(3)] index_step_obs [OF ic2(3)] index_step_fields [OF ic2(3)]
  define ic' where "ic' = dBWriter (bs @ tail) None None ic2"
  have ic'u: "ic' = ic2\<lparr>dBWriteQueue := [], db_size := int (length bs), db_file := Some (openFile bs)\<rparr>"
    unfolding ic'_def by (rule dBWriter_ok [OF al tail])
  have c: "core ic' = core ic2" unfolding ic'u by (rule core_dBWriter_ok)
  note st = same_trie_trans [OF ic2(2) same_trie_core [OF c]]
  have "slots_loaded es ic2" using ic1(2) fields by (simp add: slots_loaded_def)
  from disk_inv_loaded [OF ic'u al _ _ _ _ es(1) this] have disk: "disk_inv ic'" "diskBytes ic' = bs"
    using fields by (simp_all add: ic0 newCollection_storage)
  have wd: "writeToDisk ic'" "\<not> readOnly ic'" "ioErr ic' = None"
    "reverseRelations ic' = map_option remdups rs" "db_bytes (the (db_file ic')) = bs"
    using fields by (simp_all add: ic'u ic0 openFile_def)
  have same: "record_at ic' = record_at ic" "file_rec ic' = file_rec ic"
    using disk(2) bs wd wf(2) by (simp_all add: fun_eq_iff record_at_def disk_rec_def file_rec_def)
  have eq': "trie_eq ic ic'" using ic1(4) st by (simp add: trie_eq_def same_trie_def)
  note te' = trie_eq_lookup [OF eq']
  have sb: "shouldBuildReverse t ic' = shouldBuildReverse t ic2" for t
    by (rule same_trie_lookup(5) [OF same_trie_core [OF c]])
  have so: "sets_ok ic'" using ic2(4) unfolding sets_ok_def core_cong [OF c] .
  have fb: "fwd ic' = fwd ic2" "bwd ic' = bwd ic2"
    by (simp_all add: fun_eq_iff fwd_def bwd_def core_cong [OF c])
  have "idx_wf ic'"
    unfolding idx_wf_def same te'(4) sb fb f b using so idx_wfD(2) [OF w(3)] by simp
  moreover have "trie_wf ic'" using ic1(5) same_trie_lookup(4) [OF st] by simp
  moreover have "persisted ic'"
    using w(4) wf(2) wd same(2) eq' by (simp add: persisted_def trie_eq_def)
  ultimately have "coll_wf ic'" using disk(1) wd by (simp add: coll_wf_def store_inv_def)
  moreover have "triples ic' = triples ic" by (simp add: triples_def same(1) te'(3))
  moreover have "loadDB es as ic0 = Some ic2" using ic1(1) ic2(1) by (simp add: loadDB_def)
  ultimately show thesis using wd ic'_def by (intro that)
qed


text \<open>A collection opened on an empty file.\<close>

lemma frame_Nil [simp]: "frame p [] = None"
  by (simp add: frame_def ENTRY_SIZE_50)

definition newDisk :: "string list option \<Rightarrow> BlobPolicy option \<Rightarrow> int \<Rightarrow> collection" where
  "newDisk rs pol mb = dBWriter [] None None (newCollection True False rs pol mb)"

lemma newDisk_unfold:
  "newDisk rs pol mb = (newCollection True False rs pol mb)
     \<lparr>dBWriteQueue := [], db_size := 0, db_file := Some (openFile [])\<rparr>"
  by (simp add: newDisk_def dBWriter_def initDBSize_def Let_def)

lemma wf_newDisk:
  assumes "\<And>p. pol = Some p \<Longrightarrow> policy_ok p"
  shows "writable (newDisk rs pol mb)" and "triples (newDisk rs pol mb) = {}"
    and "writeToDisk (newDisk rs pol mb)" and "diskBytes (newDisk rs pol mb) = []"
    and "n < 2 ^ 64 \<Longrightarrow> room n (newDisk rs pol mb)"
proof -
  let ?new = "newCollection True False rs pol mb" and ?ic = "newDisk rs pol mb"
  have disk: "disk_inv ?ic" and b: "diskBytes ?ic = []"
    by (rule disk_inv_loaded [where bs = "[]" and es = "[]" and ic = ?new];
        simp add: newDisk_unfold newCollection_storage slots_loaded_def)+
  have w: "writeToDisk ?ic" by (simp add: newDisk_unfold)
  have rec: "record_at ?ic = Map.empty" "file_rec ?ic = Map.empty"
    by (simp_all add: fun_eq_iff record_at_def w disk_rec_def file_rec_def b)
  have c: "core ?ic = core ?new" by (simp add: newDisk_unfold core_dBWriter_ok)
  have "idx_wf ?ic"
    using sets_ok_new [of True False rs pol mb]
    by (simp add: idx_wf_def sets_ok_def rec fwd_def bwd_def core_cong [OF c] newCollection_obs)
  moreover have "trie_wf ?ic"
    unfolding trie_wf_core [OF c] by (rule trie_wf_new) (rule assms)
  moreover have "persisted ?ic"
    by (simp add: persisted_def rec core_cong(1,3) [OF c] newCollection_obs)
  ultimately show "writable ?ic"
    using disk w by (simp add: writable_def coll_wf_def store_inv_def newDisk_unfold)
  show "triples ?ic = {}" by (simp add: triples_def rec)
  show "writeToDisk ?ic" "diskBytes ?ic = []" by (rule w, rule b)
  show "n < 2 ^ 64 \<Longrightarrow> room n ?ic" by (simp add: room_def newDisk_unfold)
qed

end
