(* ===== verification/Batch.thy ===== *)
theory Batch
  imports Query_Correct
begin

text \<open>
  The composite writes: \<open>SimpleUpdate\<close> and \<open>SetValues\<close> of \<^verbatim>\<open>tiedb/assoc.go\<close>, the batch \<open>Apply\<close> of
  \<^verbatim>\<open>tiedb/apply.go\<close> and \<open>MkDir\<close> of \<^verbatim>\<open>tiedb/mkdir.go\<close>. Each runs under one hold of \<open>changeMutex\<close>.
\<close>

section \<open>Operations\<close>

definition deleteEach :: "string \<Rightarrow> string \<Rightarrow> string list \<Rightarrow> collection \<Rightarrow> collection" where
  "deleteEach key value1 values ic = fold (\<lambda>v ic. snd (deleteLocked key value1 v ic)) values ic"

definition addEach :: "string \<Rightarrow> string \<Rightarrow> string list \<Rightarrow> collection \<Rightarrow> collection" where
  "addEach key value1 values ic = fold (\<lambda>v ic. snd (addLocked key value1 v ic)) values ic"

definition SimpleUpdate ::
    "string \<Rightarrow> string \<Rightarrow> string \<Rightarrow> bool \<Rightarrow> collection \<Rightarrow> (message \<times> bool) \<times> collection" where
  "SimpleUpdate key value1 newValue2 addOnFail ic =
     (if readOnly ic then ((ErrorText ErrReadOnly '''', False), ic)
      else
        case Get key value1 ic of
          (None, ic) \<Rightarrow>
            if addOnFail then
              (case addLocked key value1 newValue2 ic of
                 (Some err, ic) \<Rightarrow> ((ErrorText err '''', False), ic)
               | (None, ic) \<Rightarrow> ((Text '''', True), ic))
            else ((Text (quoted key @ '' with value1: '' @ quoted value1 @ '' does not exist.''), False), ic)
        | (Some existing, ic) \<Rightarrow>
            (case addLocked key value1 newValue2 (deleteEach key value1 existing ic) of
               (Some err, ic) \<Rightarrow> ((ErrorText err '''', False), ic)
             | (None, ic) \<Rightarrow> ((Text '''', True), ic)))"

definition setValuesLocked :: "string \<Rightarrow> string \<Rightarrow> string list \<Rightarrow> collection \<Rightarrow> collection" where
  "setValuesLocked key value1 values ic =
     (if readOnly ic then ic
      else
        let ic = (case Get key value1 ic of
                    (Some existing, ic) \<Rightarrow> deleteEach key value1 existing ic
                  | (None, ic) \<Rightarrow> ic)
        in addEach key value1 values ic)"

definition SetValues :: "string \<Rightarrow> string \<Rightarrow> string list \<Rightarrow> collection \<Rightarrow> collection" where
  "SetValues key value1 values ic = setValuesLocked key value1 values ic"

subsection \<open>Batches\<close>

record Op =
  Kind :: string
  op_Key :: string
  op_Relation :: string
  Values :: "string list"
  NewValue :: string

definition OpAdd :: string where "OpAdd = ''add''"
definition OpDelete :: string where "OpDelete = ''delete''"
definition OpSet :: string where "OpSet = ''set''"
definition OpUpdate :: string where "OpUpdate = ''update''"
definition OpUpdateAdd :: string where "OpUpdateAdd = ''update-add''"
definition OpAddIfAbsent :: string where "OpAddIfAbsent = ''add-if-absent''"

lemmas op_kinds = OpAdd_def OpDelete_def OpSet_def OpUpdate_def OpUpdateAdd_def OpAddIfAbsent_def

definition first :: "Op \<Rightarrow> string" where
  "first op = (case Values op of [] \<Rightarrow> '''' | v # _ \<Rightarrow> v)"

definition tripleExistsLocked :: "string \<Rightarrow> string \<Rightarrow> string \<Rightarrow> collection \<Rightarrow> bool \<times> collection" where
  "tripleExistsLocked key relation v ic =
     (case getEntryFromString key ic of
        (None, ic) \<Rightarrow> (False, ic)
      | (Some (k, kLevel), ic) \<Rightarrow>
     (case getEntryFromString relation ic of
        (None, ic) \<Rightarrow> (False, ic)
      | (Some (v1, _), ic) \<Rightarrow>
     (case getEntryFromString v ic of
        (None, ic) \<Rightarrow> (False, ic)
      | (Some (v2, _), ic) \<Rightarrow> (uniqueAssociationExists ic kLevel k v1 v2, ic))))"

definition relationHasValuesLocked :: "string \<Rightarrow> string \<Rightarrow> collection \<Rightarrow> bool \<times> collection" where
  "relationHasValuesLocked key relation ic =
     (case getEntryFromString relation ic of
        (None, ic) \<Rightarrow> (False, ic)
      | (Some (v1, _), ic) \<Rightarrow>
          (case GetAssociations key ic of
             ((_, False), ic) \<Rightarrow> (False, ic)
           | ((s, True), ic) \<Rightarrow> (HasRelation s v1, ic)))"

text \<open>The validation pass; \<open>i\<close> is the index of the first op of the list.\<close>

fun validateOps :: "nat \<Rightarrow> Op list \<Rightarrow> collection \<Rightarrow> tie_error option \<times> collection" where
  "validateOps i [] ic = (None, ic)"
| "validateOps i (op # ops) ic =
     (if Kind op \<in> {OpAdd, OpDelete, OpSet, OpAddIfAbsent, OpUpdateAdd} then validateOps (i + 1) ops ic
      else if Kind op = OpUpdate then
        (case tripleExistsLocked (op_Key op) (op_Relation op) (first op) ic of
           (True, ic) \<Rightarrow> validateOps (i + 1) ops ic
         | (False, ic) \<Rightarrow>
             (Some (ErrBatchNotFound i (Kind op) (op_Key op) (op_Relation op) (first op)), ic))
      else (Some (ErrBatchUnknown i (Kind op)), ic))"

fun addUntilError ::
    "string \<Rightarrow> string \<Rightarrow> string list \<Rightarrow> collection \<Rightarrow> tie_error option \<times> collection" where
  "addUntilError key relation [] ic = (None, ic)"
| "addUntilError key relation (v # vs) ic =
     (case addLocked key relation v ic of
        (Some err, ic) \<Rightarrow> (Some err, ic)
      | (None, ic) \<Rightarrow> addUntilError key relation vs ic)"

definition applyOp :: "nat \<Rightarrow> Op \<Rightarrow> collection \<Rightarrow> tie_error option \<times> collection" where
  "applyOp i op ic =
     (if Kind op = OpAdd then addLocked (op_Key op) (op_Relation op) (first op) ic
      else if Kind op = OpDelete then (None, snd (deleteLocked (op_Key op) (op_Relation op) (first op) ic))
      else if Kind op = OpSet then (None, setValuesLocked (op_Key op) (op_Relation op) (Values op) ic)
      else if Kind op \<in> {OpUpdate, OpUpdateAdd} then
        addLocked (op_Key op) (op_Relation op) (NewValue op)
          (snd (deleteLocked (op_Key op) (op_Relation op) (first op) ic))
      else if Kind op = OpAddIfAbsent then
        (case relationHasValuesLocked (op_Key op) (op_Relation op) ic of
           (True, ic) \<Rightarrow> (None, ic)
         | (False, ic) \<Rightarrow> addUntilError (op_Key op) (op_Relation op) (Values op) ic)
      else (Some (ErrBatchUnknown i (Kind op)), ic))"

fun applyOps :: "nat \<Rightarrow> Op list \<Rightarrow> collection \<Rightarrow> (nat \<times> tie_error option) \<times> collection" where
  "applyOps i [] ic = ((i, None), ic)"
| "applyOps i (op # ops) ic =
     (case applyOp i op ic of
        (Some err, ic) \<Rightarrow> ((i, Some err), ic)
      | (None, ic) \<Rightarrow> applyOps (i + 1) ops ic)"

definition Apply :: "Op list \<Rightarrow> collection \<Rightarrow> (nat \<times> tie_error option) \<times> collection" where
  "Apply ops ic =
     (if readOnly ic then ((0, Some ErrReadOnly), ic)
      else case ioErr ic of
        Some err \<Rightarrow> ((0, Some err), ic)
      | None \<Rightarrow>
          (case validateOps 0 ops ic of
             (Some err, ic) \<Rightarrow> ((0, Some err), ic)
           | (None, ic) \<Rightarrow> applyOps 0 ops ic))"

subsection \<open>Directories\<close>

record DirSpec =
  Path :: string
  NewUID :: string
  ParentUID :: string
  PathRelation :: string
  ParentRelation :: string
  TypeRelation :: string
  TypeValue :: string

definition uidForValueLocked :: "string \<Rightarrow> string \<Rightarrow> collection \<Rightarrow> string option \<times> collection" where
  "uidForValueLocked v relation ic =
     (case GetReverse v relation ic of
        (None, ic) \<Rightarrow> (None, ic)
      | (Some keys, ic) \<Rightarrow>
          (case keys of
             [] \<Rightarrow> (None, ic)
           | [k] \<Rightarrow> (Some k, ic)
           | _ \<Rightarrow> (Some (hd (sort keys)), ic)))"

text \<open>A conditional add of \<open>MkDir\<close>: skipped when a part is empty.\<close>

definition addUnlessEmpty ::
    "string \<Rightarrow> string \<Rightarrow> string \<Rightarrow> collection \<Rightarrow> tie_error option \<times> collection" where
  "addUnlessEmpty key relation v ic =
     (if relation \<noteq> '''' \<and> v \<noteq> '''' then addLocked key relation v ic else (None, ic))"

definition MkDir :: "DirSpec \<Rightarrow> collection \<Rightarrow> (string \<times> bool \<times> tie_error option) \<times> collection" where
  "MkDir spec ic =
     (if Path spec = '''' \<or> NewUID spec = '''' \<or> PathRelation spec = ''''
      then (('''', False, Some ErrMkDirArgs), ic)
      else case ioErr ic of
        Some err \<Rightarrow> (('''', False, Some err), ic)
      | None \<Rightarrow>
     (if readOnly ic then (('''', False, Some ErrReadOnly), ic)
      else case uidForValueLocked (Path spec) (PathRelation spec) ic of
        (Some owner, ic) \<Rightarrow> ((owner, True, None), ic)
      | (None, ic) \<Rightarrow>
     (case addUnlessEmpty (NewUID spec) (ParentRelation spec) (ParentUID spec) ic of
        (Some err, ic) \<Rightarrow> (('''', False, Some err), ic)
      | (None, ic) \<Rightarrow>
     (case addLocked (NewUID spec) (PathRelation spec) (Path spec) ic of
        (Some err, ic) \<Rightarrow> (('''', False, Some err), ic)
      | (None, ic) \<Rightarrow>
     (case addUnlessEmpty (NewUID spec) (TypeRelation spec) (TypeValue spec) ic of
        (Some err, ic) \<Rightarrow> (('''', False, Some err), ic)
      | (None, ic) \<Rightarrow> ((NewUID spec, False, None), ic))))))"

end
