(* ===== verification/Batch_Correct.thy ===== *)
theory Batch_Correct
  imports Batch
begin

text \<open>
  The composite writes act on the set of triples as their abstract counterparts do, and a batch is
  applied whole or not at all.
\<close>

section \<open>Several deletes, several adds\<close>

definition trip :: "string \<Rightarrow> string \<Rightarrow> string \<Rightarrow> StringTriple" where
  "trip s r v = \<lparr>Key = s, Value1 = r, Value2 = v\<rparr>"

lemma trip_simps [simp]:
  "Key (trip s r v) = s" "Value1 (trip s r v) = r" "Value2 (trip s r v) = v"
  "trip s r v = trip s' r' v' \<longleftrightarrow> s = s' \<and> r = r' \<and> v = v'"
  by (simp_all add: trip_def)

lemma trip_eta: "Key st = s \<Longrightarrow> Value1 st = r \<Longrightarrow> trip s r (Value2 st) = st"
  unfolding trip_def by (intro StringTriple.equality) simp_all

lemmas addLocked_trip = addLocked_spec [folded trip_def]
lemmas deleteLocked_trip = deleteLocked_spec [folded trip_def]

lemma deleteEach_spec:
  assumes "coll_wf ic" "\<not> readOnly ic" "storable s" "storable r" "\<forall>v \<in> set vs. storable v"
  shows "coll_wf (deleteEach s r vs ic) \<and> same_config ic (deleteEach s r vs ic) \<and>
    totalEntries (deleteEach s r vs ic) = totalEntries ic \<and>
    triples (deleteEach s r vs ic) = triples ic - trip s r ` set vs"
  using assms
proof (induction vs arbitrary: ic)
  case Nil
  then show ?case by (simp add: deleteEach_def)
next
  case (Cons v vs)
  obtain m ok ic1 where d: "deleteLocked s r v ic = ((m, ok), ic1)" by (metis prod.collapse)
  have "storable3 s r v" using Cons.prems by (simp add: storable3_def)
  note ds = deleteLocked_trip [OF Cons.prems(1,2) this d]
  have ro: "\<not> readOnly ic1" using ds(5) Cons.prems(2) by (simp add: same_config_def)
  have "\<forall>v \<in> set vs. storable v" using Cons.prems(5) by simp
  note ih = Cons.IH [OF ds(1) ro Cons.prems(3,4) this]
  have eq: "deleteEach s r (v # vs) ic = deleteEach s r vs ic1" by (simp add: deleteEach_def d)
  show ?case unfolding eq using ih ds same_config_trans [OF ds(5)] by auto
qed

definition needEach :: "string \<Rightarrow> string \<Rightarrow> string list \<Rightarrow> nat" where
  "needEach s r vs = sum_list (map (need3 s r) vs)"

lemma needEach_simps [simp]:
  "needEach s r [] = 0" "needEach s r (v # vs) = need3 s r v + needEach s r vs"
  by (simp_all add: needEach_def)

definition added :: "string \<Rightarrow> string \<Rightarrow> string list \<Rightarrow> collection \<Rightarrow> collection \<Rightarrow> bool" where
  "added s r vs ic ic' \<longleftrightarrow>
     writable ic' \<and> same_config ic ic' \<and> triples ic' = triples ic \<union> trip s r ` set vs \<and>
     unat (totalEntries ic') \<le> unat (totalEntries ic) + needEach s r vs"

lemma addUntilError_spec:
  assumes "writable ic" "storable s" "storable r" "\<forall>v \<in> set vs. storable v" "room (needEach s r vs) ic"
  shows "\<exists>ic'. addUntilError s r vs ic = (None, ic') \<and> addEach s r vs ic = ic' \<and> added s r vs ic ic'"
  using assms
proof (induction vs arbitrary: ic)
  case Nil
  then show ?case by (simp add: addEach_def added_def)
next
  case (Cons v vs)
  obtain e ic1 where a: "addLocked s r v ic = (e, ic1)" by force
  have st: "storable3 s r v" "room (need3 s r v) ic" using Cons.prems by (auto simp: storable3_def room_def)
  note as = addLocked_trip [OF Cons.prems(1) st a]
  have w1: "writable ic1" using as Cons.prems(1) by (auto simp: writable_def same_config_def)
  have st': "\<forall>v \<in> set vs. storable v" "room (needEach s r vs) ic1"
    using Cons.prems(4,5) as(5) by (auto simp: room_def)
  from Cons.IH [OF w1 Cons.prems(2,3) st'] obtain ic2 where ic2: "addUntilError s r vs ic1 = (None, ic2)"
    "addEach s r vs ic1 = ic2" "added s r vs ic1 ic2" by blast
  have "added s r (v # vs) ic ic2"
    using ic2(3) as same_config_trans [OF as(4)] by (auto simp: added_def)
  with ic2 a as(1) show ?case by (simp add: addEach_def)
qed

section \<open>Replacing the values of a relation\<close>

definition otherThan :: "string \<Rightarrow> string \<Rightarrow> StringTriple set \<Rightarrow> StringTriple set" where
  "otherThan s r T = {st \<in> T. \<not> (Key st = s \<and> Value1 st = r)}"

lemma triples_storable:
  assumes "coll_wf ic" "st \<in> triples ic"
  shows "storable (Key st)" "storable (Value1 st)" "storable (Value2 st)"
  using assms(2) by (auto simp: mem_triples [OF assms(1)])

lemma clear_spec:
  assumes "writable ic" "storable s" "storable r" "Get s r ic = (res, ic1)"
    and ic2: "ic2 = (case res of Some vs \<Rightarrow> deleteEach s r vs ic1 | None \<Rightarrow> ic1)"
  shows "writable ic2" and "same_config ic ic2" and "totalEntries ic2 = totalEntries ic"
    and "triples ic2 = otherThan s r (triples ic)"
    and "res = None \<Longrightarrow> triples ic2 = triples ic"
proof -
  have w: "coll_wf ic" "\<not> readOnly ic" using assms(1) by (simp_all add: writable_def)
  note g = Get_triples [OF w(1) assms(2-4)]
  note q = quietD [OF w(1) g(1)]
  obtain trs where t: "res = (if trs = [] then None else Some (map Value2 trs))"
    "set trs = {st \<in> triples ic. Key st = s \<and> relation_ok r st}" using g(2) by blast
  have ro: "\<not> readOnly ic1" using q(11) w(2) by (simp add: same_config_def)
  have vs: "\<forall>v \<in> set (map Value2 trs). storable v"
    using t(2) triples_storable(3) [OF w(1)] by auto
  note d = deleteEach_spec [OF q(1) ro assms(2,3) vs]
  have eq: "ic2 = deleteEach s r (map Value2 trs) ic1" using ic2 t(1) by (simp add: deleteEach_def)
  have "triples ic - trip s r ` set (map Value2 trs) = otherThan s r (triples ic)"
  proof (intro set_eqI iffI)
    fix st
    assume a: "st \<in> triples ic - trip s r ` set (map Value2 trs)"
    then have "\<not> (Key st = s \<and> Value1 st = r)"
      using trip_eta [of st s r] t(2) by (force simp: relation_ok_def image_iff)
    with a show "st \<in> otherThan s r (triples ic)" by (simp add: otherThan_def)
  qed (auto simp: otherThan_def)
  then show "triples ic2 = otherThan s r (triples ic)" using d q(2) by (simp add: eq)
  show "res = None \<Longrightarrow> triples ic2 = triples ic" using ic2 q(2) by simp
  show "same_config ic ic2" using same_config_trans [OF q(11)] d by (simp add: eq)
  then show "writable ic2" using assms(1) d by (simp add: writable_def same_config_def eq)
  show "totalEntries ic2 = totalEntries ic" using d q(12) by (simp add: eq)
qed

lemma setValuesLocked_spec:
  assumes "writable ic" "storable s" "storable r" "\<forall>v \<in> set vs. storable v" "room (needEach s r vs) ic"
  shows "writable (setValuesLocked s r vs ic)" and "same_config ic (setValuesLocked s r vs ic)"
    and "triples (setValuesLocked s r vs ic) = otherThan s r (triples ic) \<union> trip s r ` set vs"
    and "unat (totalEntries (setValuesLocked s r vs ic)) \<le> unat (totalEntries ic) + needEach s r vs"
proof -
  obtain res ic1 where g: "Get s r ic = (res, ic1)" by force
  define ic2 where "ic2 = (case res of Some vs \<Rightarrow> deleteEach s r vs ic1 | None \<Rightarrow> ic1)"
  note c = clear_spec [OF assms(1-3) g ic2_def]
  have eq: "setValuesLocked s r vs ic = addEach s r vs ic2"
    using assms(1) g by (simp add: setValuesLocked_def ic2_def writable_def split: option.splits)
  have "room (needEach s r vs) ic2" using assms(5) c(3) by (simp add: room_def)
  from addUntilError_spec [OF c(1) assms(2-4) this] have "added s r vs ic2 (addEach s r vs ic2)" by auto
  then show "writable (setValuesLocked s r vs ic)" "same_config ic (setValuesLocked s r vs ic)"
    "triples (setValuesLocked s r vs ic) = otherThan s r (triples ic) \<union> trip s r ` set vs"
    "unat (totalEntries (setValuesLocked s r vs ic)) \<le> unat (totalEntries ic) + needEach s r vs"
    using c same_config_trans [OF c(2)] by (auto simp: eq added_def)
qed

section \<open>Existence tests\<close>

lemma tripleExistsLocked_spec:
  assumes "coll_wf ic" "storable s" "storable r" "storable v" "tripleExistsLocked s r v ic = (b, ic')"
  shows "quiet ic ic'" and "b \<longleftrightarrow> trip s r v \<in> triples ic"
proof -
  obtain e0 ic0 where a: "getEntryFromString s ic = (e0, ic0)" by force
  obtain e1 ic1 where b: "getEntryFromString r ic0 = (e1, ic1)" by force
  obtain e2 ic2 where c: "getEntryFromString v ic1 = (e2, ic2)" by force
  note qa = getEntryFromString_quiet [OF assms(1) a]
  note qb = getEntryFromString_quiet [OF quietD(1) [OF assms(1) qa(2)] b]
  have q1: "quiet ic ic1" by (rule quiet_trans [OF qa(2) qb(2)])
  note qc = getEntryFromString_quiet [OF quietD(1) [OF assms(1) q1] c]
  have q2: "quiet ic ic2" by (rule quiet_trans [OF q1 qc(2)])
  have e: "e0 = lookupEntry ic s" "e1 = lookupEntry ic r" "e2 = lookupEntry ic v"
    using qa(1) qb(1) qc(1) quietD(8) [OF assms(1)] qa(2) q1 by simp_all
  have m: "trip s r v \<in> triples ic \<longleftrightarrow> (\<exists>k l v1 l1 v2 l2. lookupEntry ic s = Some (k, l) \<and>
      lookupEntry ic r = Some (v1, l1) \<and> lookupEntry ic v = Some (v2, l2) \<and> fwd ic l k v1 v2 \<noteq> None)"
    using assms(2-4) by (simp add: mem_triples [OF assms(1)])
  have f: "uniqueAssociationExists ic2 l k v1 v2 \<longleftrightarrow> fwd ic l k v1 v2 \<noteq> None" for l k v1 v2
    using quietD(3) [OF assms(1) q2] by (simp add: uniqueAssociationExists_def fwd_def fun_eq_iff)
  have "quiet ic ic' \<and> (b \<longleftrightarrow> trip s r v \<in> triples ic)"
  proof (cases "e0 = None \<or> e1 = None \<or> e2 = None")
    case True
    with assms(5) a b c qa(2) q1 q2 m e show ?thesis
      by (auto simp: tripleExistsLocked_def split: option.splits prod.splits)
  next
    case False
    then obtain k l v1 l1 v2 l2 where l: "lookupEntry ic s = Some (k, l)"
      "lookupEntry ic r = Some (v1, l1)" "lookupEntry ic v = Some (v2, l2)"
      unfolding e by (metis option.exhaust surj_pair)
    then have "(uniqueAssociationExists ic2 l k v1 v2, ic2) = (b, ic')"
      using assms(5) a b c unfolding e by (auto simp: tripleExistsLocked_def)
    moreover have "trip s r v \<in> triples ic \<longleftrightarrow> fwd ic l k v1 v2 \<noteq> None" unfolding m using l by auto
    ultimately show ?thesis using q2 f by simp
  qed
  then show "quiet ic ic'" and "b \<longleftrightarrow> trip s r v \<in> triples ic" by blast+
qed

lemma HasRelation_values:
  assumes wf: "coll_wf ic" and s: "storable s" "lookupEntry ic s = Some (k, l)"
    and r: "storable r" "lookupEntry ic r = Some (v1, l1)"
  shows "HasRelation (getAssociations ic l k) v1 \<longleftrightarrow> (\<exists>v. trip s r v \<in> triples ic)"
proof
  assume "HasRelation (getAssociations ic l k) v1"
  then obtain ua p where "(ua, p) \<in> set (as_ForEach (getAssociations ic l k))" "Relation ua = v1"
    unfolding HasRelation_ForEach by force
  then obtain t where t: "record_at ic p = Some t" "t_Level t = l" "t_Key t = k" "t_Value1 t = v1"
    unfolding forward_entries [OF wf] fwdKey_def by auto
  note n = idx_wfD(2) [OF wfD(3) [OF wf] t(1), unfolded triple_named_def]
  have "t_Value1Level t = l1" using named_level [OF wfD(1) [OF wf]] n t(4) r by (auto simp: named_def)
  then have "Key (makeStringTriple ic t) = s" "Value1 (makeStringTriple ic t) = r"
    using t s r lookupEntry_value [OF wfD(1) [OF wf]] by (simp_all add: makeStringTriple_def)
  then have "trip s r (Value2 (makeStringTriple ic t)) = makeStringTriple ic t" by (rule trip_eta)
  then have "trip s r (Value2 (makeStringTriple ic t)) \<in> triples ic"
    using t(1) by (auto simp: triples_def ran_def)
  then show "\<exists>v. trip s r v \<in> triples ic" by blast
next
  assume "\<exists>v. trip s r v \<in> triples ic"
  then obtain v2 p where "fwd ic l k v1 v2 = Some p" using s r by (auto simp: mem_triples [OF wf])
  then have "(\<lparr>AssociateTo = v2, Relation = v1\<rparr>, p) \<in> set (as_ForEach (getAssociations ic l k))"
    by (simp add: as.entries_iff [OF assoc_inv(1) [OF wf]] fwd_def)
  then show "HasRelation (getAssociations ic l k) v1" unfolding HasRelation_ForEach by force
qed

lemma relationHasValuesLocked_spec:
  assumes "coll_wf ic" "storable s" "storable r" "relationHasValuesLocked s r ic = (b, ic')"
  shows "quiet ic ic'" and "b \<longleftrightarrow> (\<exists>v. trip s r v \<in> triples ic)"
proof -
  obtain e1 ic1 where a: "getEntryFromString r ic = (e1, ic1)" by force
  note qa = getEntryFromString_quiet [OF assms(1) a]
  note q1 = quietD [OF assms(1) qa(2)]
  obtain t found ic2 where g: "GetAssociations s ic1 = ((t, found), ic2)" by (metis prod.collapse)
  note ga = GetAssociations_quiet [OF q1(1) g, unfolded q1(8)]
  have "quiet ic ic' \<and> (b \<longleftrightarrow> (\<exists>v. trip s r v \<in> triples ic))"
  proof (cases "lookupEntry ic r = None \<or> lookupEntry ic s = None")
    case True
    then have "\<not> (\<exists>v. trip s r v \<in> triples ic)" by (auto simp: mem_triples [OF assms(1)])
    with True assms(4) a qa g ga(2) quiet_trans [OF qa(2) ga(1)] show ?thesis
      by (auto simp: relationHasValuesLocked_def split: option.splits bool.splits)
  next
    case False
    then obtain v1 l1 k l where e: "lookupEntry ic r = Some (v1, l1)" "lookupEntry ic s = Some (k, l)"
      by (metis option.exhaust surj_pair)
    have "t = getAssociations ic l k" using ga(3) [OF e(2)] q1(6) by simp
    with e assms(4) a qa g ga(2) quiet_trans [OF qa(2) ga(1)] HasRelation_values [OF assms(1,2) e(2) assms(3) e(1)]
    show ?thesis by (auto simp: relationHasValuesLocked_def)
  qed
  then show "quiet ic ic'" and "b \<longleftrightarrow> (\<exists>v. trip s r v \<in> triples ic)" by blast+
qed

section \<open>Batches\<close>

definition op_ok :: "Op \<Rightarrow> bool" where
  "op_ok op \<longleftrightarrow> storable (op_Key op) \<and> storable (op_Relation op) \<and> storable (NewValue op) \<and>
     (\<forall>v \<in> set (Values op). storable v)"

text \<open>What validation asks of an op, in a collection with the triples \<open>T\<close>.\<close>

definition op_valid :: "StringTriple set \<Rightarrow> Op \<Rightarrow> bool" where
  "op_valid T op \<longleftrightarrow>
     Kind op \<in> {OpAdd, OpDelete, OpSet, OpAddIfAbsent, OpUpdateAdd} \<or>
     Kind op = OpUpdate \<and> trip (op_Key op) (op_Relation op) (first op) \<in> T"

text \<open>The effect of an op on the set of triples.\<close>

definition op_effect :: "Op \<Rightarrow> StringTriple set \<Rightarrow> StringTriple set" where
  "op_effect op T =
     (let s = op_Key op; r = op_Relation op
      in if Kind op = OpAdd then insert (trip s r (first op)) T
         else if Kind op = OpDelete then T - {trip s r (first op)}
         else if Kind op = OpSet then otherThan s r T \<union> trip s r ` set (Values op)
         else if Kind op \<in> {OpUpdate, OpUpdateAdd} then
           insert (trip s r (NewValue op)) (T - {trip s r (first op)})
         else if \<exists>v. trip s r v \<in> T then T
         else T \<union> trip s r ` set (Values op))"

definition op_need :: "Op \<Rightarrow> nat" where
  "op_need op = needEach (op_Key op) (op_Relation op) (first op # NewValue op # Values op)"

lemma storable_first: "op_ok op \<Longrightarrow> storable (first op)"
  by (auto simp: op_ok_def first_def storable_def nul_free_end_def split: list.splits)

lemma validateOps_spec:
  assumes "coll_wf ic" "\<forall>op \<in> set ops. op_ok op" "validateOps i ops ic = (e, ic')"
  shows "quiet ic ic' \<and> (e = None \<longleftrightarrow> (\<forall>op \<in> set ops. op_valid (triples ic) op))"
  using assms
proof (induction ops arbitrary: i ic)
  case Nil
  then show ?case by (auto intro: quiet_refl)
next
  case (Cons op ops)
  have ok: "op_ok op" "\<forall>op \<in> set ops. op_ok op" using Cons.prems(2) by simp_all
  have st: "storable (op_Key op)" "storable (op_Relation op)" using ok(1) by (simp_all add: op_ok_def)
  show ?case
  proof (cases "Kind op \<in> {OpAdd, OpDelete, OpSet, OpAddIfAbsent, OpUpdateAdd}")
    case True
    then have "validateOps (i + 1) ops ic = (e, ic')" using Cons.prems(3) by simp
    from Cons.IH [OF Cons.prems(1) ok(2) this] True show ?thesis by (auto simp: op_valid_def)
  next
    case other: False
    show ?thesis
    proof (cases "Kind op = OpUpdate")
      case False
      with other Cons.prems(1,3) show ?thesis by (auto simp: op_valid_def intro: quiet_refl)
    next
      case upd: True
      obtain b ic1 where t: "tripleExistsLocked (op_Key op) (op_Relation op) (first op) ic = (b, ic1)" by force
      note ts = tripleExistsLocked_spec [OF Cons.prems(1) st storable_first [OF ok(1)] t]
      note q = quietD [OF Cons.prems(1) ts(1)]
      show ?thesis
      proof (cases b)
        case True
        then have "validateOps (i + 1) ops ic1 = (e, ic')" using Cons.prems(3) other upd t by auto
        from Cons.IH [OF q(1) ok(2) this] True ts upd q(2) quiet_trans [OF ts(1)] show ?thesis
          by (auto simp: op_valid_def)
      next
        case b: False
        then have "e \<noteq> None" "ic' = ic1" using Cons.prems(3) other upd t by auto
        with b other ts upd show ?thesis by (auto simp: op_valid_def)
      qed
    qed
  qed
qed

lemma writable_config: "writable ic \<Longrightarrow> coll_wf ic' \<Longrightarrow> same_config ic ic' \<Longrightarrow> writable ic'"
  by (auto simp: writable_def same_config_def)

text \<open>An update: the old triple goes, the new one comes.\<close>

lemma replace_spec:
  assumes "writable ic" "storable s" "storable r" "storable v" "storable v'" "room (need3 s r v') ic"
    and "deleteLocked s r v ic = (res, ic1)" and "addLocked s r v' ic1 = (e, ic2)"
  shows "e = None" and "writable ic2" and "same_config ic ic2"
    and "triples ic2 = insert (trip s r v') (triples ic - {trip s r v})"
    and "unat (totalEntries ic2) \<le> unat (totalEntries ic) + need3 s r v'"
    and "snd res \<longleftrightarrow> trip s r v \<in> triples ic"
    and "fst res = (if snd res then Text '''' else
      if lookupEntry ic s = None then didNotFindKey s else didNotFindValue r v)"
proof -
  obtain m ok where res: "res = (m, ok)" by force
  have w: "coll_wf ic" "\<not> readOnly ic" using assms(1) by (simp_all add: writable_def)
  have st: "storable3 s r v" "storable3 s r v'" using assms(2-5) by (simp_all add: storable3_def)
  note d = deleteLocked_trip [OF w st(1) assms(7) [unfolded res]]
  have w1: "writable ic1" by (rule writable_config [OF assms(1) d(1,5)])
  have "room (need3 s r v') ic1" using assms(6) d(6) by (simp add: room_def)
  note a = addLocked_trip [OF w1 st(2) this assms(8)]
  show "e = None" by (rule a(1))
  show "writable ic2" by (rule writable_config [OF w1 a(2,4)])
  show "same_config ic ic2" by (rule same_config_trans [OF d(5) a(4)])
  show "triples ic2 = insert (trip s r v') (triples ic - {trip s r v})" using a(3) d(2) by simp
  show "unat (totalEntries ic2) \<le> unat (totalEntries ic) + need3 s r v'" using a(5) d(6) by simp
  show "snd res \<longleftrightarrow> trip s r v \<in> triples ic" using d(3) by (simp add: res)
  show "fst res = (if snd res then Text '''' else
      if lookupEntry ic s = None then didNotFindKey s else didNotFindValue r v)"
    using d(4,7) by (simp add: res)
qed

lemmas op_effect_unfold = op_effect_def [unfolded Let_def]

definition op_known :: "Op \<Rightarrow> bool" where
  "op_known op \<longleftrightarrow> Kind op \<in> {OpAdd, OpDelete, OpSet, OpAddIfAbsent, OpUpdateAdd, OpUpdate}"

definition op_applied :: "Op \<Rightarrow> collection \<Rightarrow> collection \<Rightarrow> bool" where
  "op_applied op ic ic' \<longleftrightarrow>
     writable ic' \<and> same_config ic ic' \<and> triples ic' = op_effect op (triples ic) \<and>
     unat (totalEntries ic') \<le> unat (totalEntries ic) + op_need op"

lemma applyOp_spec:
  assumes w: "writable ic" and ok: "op_ok op" and known: "op_known op" and room: "room (op_need op) ic"
    and app: "applyOp i op ic = (e, ic')"
  shows "e = None \<and> op_applied op ic ic'"
proof -
  let ?s = "op_Key op" and ?r = "op_Relation op" and ?v = "first op" and ?n = "NewValue op"
  have st: "storable ?s" "storable ?r" "storable ?v" "storable ?n" "\<forall>v \<in> set (Values op). storable v"
    using ok storable_first [OF ok] by (simp_all add: op_ok_def)
  have cw: "coll_wf ic" "\<not> readOnly ic" using w by (simp_all add: writable_def)
  have rooms: "room (need3 ?s ?r ?v) ic" "room (need3 ?s ?r ?n) ic" "room (needEach ?s ?r (Values op)) ic"
    using room by (auto simp: room_def op_need_def)
  have st3: "storable3 ?s ?r ?v" using st by (simp add: storable3_def)
  from known consider "Kind op = OpAdd" | "Kind op = OpDelete" | "Kind op = OpSet"
    | "Kind op \<in> {OpUpdate, OpUpdateAdd}" | "Kind op = OpAddIfAbsent" by (auto simp: op_known_def)
  then show ?thesis
  proof cases
    case 1
    then have "addLocked ?s ?r ?v ic = (e, ic')" using app by (simp add: applyOp_def)
    note a = addLocked_trip [OF w st3 rooms(1) this]
    with 1 writable_config [OF w a(2,4)] show ?thesis
      by (auto simp: op_applied_def op_effect_unfold op_need_def)
  next
    case 2
    obtain m b where d: "deleteLocked ?s ?r ?v ic = ((m, b), ic')"
      using 2 app by (auto simp: applyOp_def op_kinds) (metis prod.collapse)
    note ds = deleteLocked_trip [OF cw st3 d]
    from 2 app ds writable_config [OF w ds(1,5)] show ?thesis
      by (auto simp: op_applied_def op_effect_unfold applyOp_def op_kinds)
  next
    case 3
    with app setValuesLocked_spec [OF w st(1,2,5) rooms(3)] show ?thesis
      by (auto simp: op_applied_def op_effect_unfold applyOp_def op_need_def op_kinds)
  next
    case 4
    obtain res ic1 where d: "deleteLocked ?s ?r ?v ic = (res, ic1)" by (metis surj_pair)
    have a: "addLocked ?s ?r ?n ic1 = (e, ic')" using 4 app d by (auto simp: applyOp_def op_kinds)
    have "op_effect op (triples ic) = insert (trip ?s ?r ?n) (triples ic - {trip ?s ?r ?v})"
      using 4 by (auto simp: op_effect_unfold op_kinds)
    then show ?thesis
      using replace_spec(1-5) [OF w st(1-4) rooms(2) d a] by (simp add: op_applied_def op_need_def)
  next
    case 5
    obtain b ic1 where rh: "relationHasValuesLocked ?s ?r ic = (b, ic1)" by force
    note rs = relationHasValuesLocked_spec [OF cw(1) st(1,2) rh]
    note q = quietD [OF cw(1) rs(1)] and w1 = writable_quiet [OF w rs(1)]
    show ?thesis
    proof (cases b)
      case True
      with 5 app rh have "e = None" "ic' = ic1" by (auto simp: applyOp_def op_kinds)
      with 5 True rs(2) w1 q(2,11,12) show ?thesis by (auto simp: op_applied_def op_effect_unfold op_kinds)
    next
      case False
      have "room (needEach ?s ?r (Values op)) ic1" using rooms(3) q(12) by (simp add: room_def)
      from addUntilError_spec [OF w1 st(1,2,5) this] obtain ic2 where
        a: "addUntilError ?s ?r (Values op) ic1 = (None, ic2)" "added ?s ?r (Values op) ic1 ic2" by blast
      with 5 app rh False have "e = None" "ic' = ic2" by (auto simp: applyOp_def op_kinds)
      with 5 False rs(2) a(2) q(2,11,12) same_config_trans [OF q(11)] show ?thesis
        by (auto simp: op_applied_def op_effect_unfold op_need_def added_def op_kinds)
    qed
  qed
qed

lemma applyOps_spec:
  assumes "writable ic" "\<forall>op \<in> set ops. op_ok op \<and> op_known op" "room (sum_list (map op_need ops)) ic"
    and "applyOps i ops ic = ((n, e), ic')"
  shows "e = None \<and> n = i + length ops \<and> writable ic' \<and> same_config ic ic' \<and>
    triples ic' = fold op_effect ops (triples ic)"
  using assms
proof (induction ops arbitrary: i ic)
  case Nil
  then show ?case by simp
next
  case (Cons op ops)
  obtain e1 ic1 where a: "applyOp i op ic = (e1, ic1)" by force
  have ok: "op_ok op" "op_known op" "\<forall>op \<in> set ops. op_ok op \<and> op_known op" using Cons.prems(2) by simp_all
  have "room (op_need op) ic" using Cons.prems(3) by (simp add: room_def)
  from applyOp_spec [OF Cons.prems(1) ok(1,2) this a] have as: "e1 = None" "op_applied op ic ic1" by simp_all
  then have w1: "writable ic1" and "room (sum_list (map op_need ops)) ic1"
    using Cons.prems(3) by (auto simp: op_applied_def room_def)
  moreover have "applyOps (i + 1) ops ic1 = ((n, e), ic')" using Cons.prems(4) a as(1) by simp
  ultimately have "e = None \<and> n = i + 1 + length ops \<and> writable ic' \<and> same_config ic1 ic' \<and>
      triples ic' = fold op_effect ops (triples ic1)" using Cons.IH [OF w1 ok(3)] by blast
  then show ?case using as(2) same_config_trans [of ic ic1 ic'] by (simp add: op_applied_def)
qed

lemma op_valid_known: "op_valid T op \<Longrightarrow> op_known op"
  by (auto simp: op_valid_def op_known_def)

text \<open>The whole batch.\<close>

lemma Apply_spec:
  assumes w: "writable ic" and ok: "\<forall>op \<in> set ops. op_ok op" and room: "room (sum_list (map op_need ops)) ic"
    and app: "Apply ops ic = ((n, e), ic')"
  shows "writable ic'"
    and "(\<forall>op \<in> set ops. op_valid (triples ic) op) \<Longrightarrow>
      n = length ops \<and> e = None \<and> triples ic' = fold op_effect ops (triples ic)"
    and "\<not> (\<forall>op \<in> set ops. op_valid (triples ic) op) \<Longrightarrow>
      n = 0 \<and> e \<noteq> None \<and> triples ic' = triples ic"
proof -
  have cw: "coll_wf ic" "\<not> readOnly ic" "ioErr ic = None" using w by (simp_all add: writable_def)
  obtain e1 ic1 where v: "validateOps 0 ops ic = (e1, ic1)" by force
  have vs: "quiet ic ic1" "e1 = None \<longleftrightarrow> (\<forall>op \<in> set ops. op_valid (triples ic) op)"
    using validateOps_spec [OF cw(1) ok v] by simp_all
  note q = quietD [OF cw(1) vs(1)] and w1 = writable_quiet [OF w vs(1)]
  have "writable ic' \<and> (if \<forall>op \<in> set ops. op_valid (triples ic) op
      then n = length ops \<and> e = None \<and> triples ic' = fold op_effect ops (triples ic)
      else n = 0 \<and> e \<noteq> None \<and> triples ic' = triples ic)"
  proof (cases e1)
    case None
    then have valid: "\<forall>op \<in> set ops. op_valid (triples ic) op" using vs(2) by simp
    then have "\<forall>op \<in> set ops. op_ok op \<and> op_known op" using ok op_valid_known by blast
    moreover have "room (sum_list (map op_need ops)) ic1" using room q(12) by (simp add: room_def)
    moreover have "applyOps 0 ops ic1 = ((n, e), ic')" using app cw v None by (simp add: Apply_def)
    ultimately show ?thesis using applyOps_spec [OF w1, of ops 0 n e ic'] valid q(2) by simp
  next
    case (Some err)
    then have "\<not> (\<forall>op \<in> set ops. op_valid (triples ic) op)" using vs(2) by simp
    with Some app cw v w1 q(2) show ?thesis by (auto simp: Apply_def)
  qed
  then show "writable ic'"
    and "(\<forall>op \<in> set ops. op_valid (triples ic) op) \<Longrightarrow>
      n = length ops \<and> e = None \<and> triples ic' = fold op_effect ops (triples ic)"
    and "\<not> (\<forall>op \<in> set ops. op_valid (triples ic) op) \<Longrightarrow>
      n = 0 \<and> e \<noteq> None \<and> triples ic' = triples ic"
    by (auto split: if_splits)
qed

end
