(* ===== verification/Write_Correct.thy ===== *)
theory Write_Correct
  imports Batch_Correct
begin

text \<open>
  What the composite writes do to the set of triples: \<open>SimpleUpdate\<close> replaces the values of a
  relation, \<open>MkDir\<close> gives a path one owner. And what no write does: change a read-only collection.
\<close>

section \<open>Replacing all values of a relation\<close>

lemma SimpleUpdate_spec:
  assumes "writable ic" "storable s" "storable r" "storable v" "room (need3 s r v) ic"
    and "SimpleUpdate s r v addOnFail ic = ((m, ok), ic')"
  shows "writable ic'"
    and "triples ic' = (if ok then insert (trip s r v) (otherThan s r (triples ic)) else triples ic)"
    and "ok \<longleftrightarrow> addOnFail \<or> otherThan s r (triples ic) \<noteq> triples ic \<or> (r = '''' \<and> (\<exists>st \<in> triples ic. Key st = s))"
proof -
  obtain res ic1 where g: "Get s r ic = (res, ic1)" by force
  define ic2 where "ic2 = (case res of Some vs \<Rightarrow> deleteEach s r vs ic1 | None \<Rightarrow> ic1)"
  note c = clear_spec [OF assms(1-3) g ic2_def]
  have wf: "coll_wf ic" "\<not> readOnly ic" using assms(1) by (simp_all add: writable_def)
  obtain trs where t: "res = (if trs = [] then None else Some (map Value2 trs))"
    "set trs = {st \<in> triples ic. Key st = s \<and> relation_ok r st}"
    using Get_triples(2) [OF wf(1) assms(2,3) g] by blast
  have none: "res = None \<longleftrightarrow> otherThan s r (triples ic) = triples ic \<and> \<not> (r = '''' \<and> (\<exists>st \<in> triples ic. Key st = s))"
  proof -
    have "res = None \<longleftrightarrow> set trs = {}" using t(1) by simp
    also have "\<dots> \<longleftrightarrow> \<not> (\<exists>st \<in> triples ic. Key st = s \<and> Value1 st = r) \<and> \<not> (r = '''' \<and> (\<exists>st \<in> triples ic. Key st = s))"
      unfolding t(2) relation_ok_def by blast
    also have "\<not> (\<exists>st \<in> triples ic. Key st = s \<and> Value1 st = r) \<longleftrightarrow> otherThan s r (triples ic) = triples ic"
      unfolding otherThan_def by blast
    finally show ?thesis .
  qed
  obtain e ic3 where a: "addLocked s r v ic2 = (e, ic3)" by force
  have "storable3 s r v" "room (need3 s r v) ic2" using assms c(3) by (simp_all add: storable3_def room_def)
  note ad = addLocked_trip [OF c(1) this a]
  have w3: "writable ic3" by (rule writable_config [OF c(1) ad(2,4)])
  have "writable ic' \<and>
    triples ic' = (if ok then insert (trip s r v) (otherThan s r (triples ic)) else triples ic) \<and>
    (ok \<longleftrightarrow> addOnFail \<or> res \<noteq> None)"
  proof (cases res)
    case None
    then have i2: "ic2 = ic1" by (simp add: ic2_def)
    have "addLocked s r v ic1 = (e, ic3)" using a i2 by simp
    then show ?thesis
      using assms(6) None g wf(2) c(1,5) [unfolded i2] c(4) ad(1,3) w3
      by (cases addOnFail) (auto simp: SimpleUpdate_def i2)
  next
    case (Some vs)
    then have "ic2 = deleteEach s r vs ic1" by (simp add: ic2_def)
    then have "ok" "ic' = ic3" using assms(6) Some g wf(2) a ad(1) by (auto simp: SimpleUpdate_def)
    with Some w3 ad(3) c(4) show ?thesis by simp
  qed
  then show "writable ic'"
    and "triples ic' = (if ok then insert (trip s r v) (otherThan s r (triples ic)) else triples ic)"
    and "ok \<longleftrightarrow> addOnFail \<or> otherThan s r (triples ic) \<noteq> triples ic \<or> (r = '''' \<and> (\<exists>st \<in> triples ic. Key st = s))"
    using none by blast+
qed

section \<open>Directories\<close>

lemma uidForValueLocked_spec:
  assumes "coll_wf ic" "storable v" "storable r" "r \<noteq> ''''" "uidForValueLocked v r ic = (res, ic')"
  shows "quiet ic ic'"
    and "subjectsOf ic v r = {} \<Longrightarrow> res = None"
    and "subjectsOf ic v r \<noteq> {} \<Longrightarrow> finite (subjectsOf ic v r) \<and> res = Some (Min (subjectsOf ic v r))"
proof -
  obtain r0 ic0 where g: "GetReverse v r ic = (r0, ic0)" by force
  note gs = GetReverse_spec [OF assms(1-4) g]
  have ic': "ic' = ic0" using assms(5) g
    by (auto simp: uidForValueLocked_def split: option.splits list.splits)
  with gs(1) show "quiet ic ic'" by simp
  show "subjectsOf ic v r = {} \<Longrightarrow> res = None"
    using gs(2) assms(5) g by (auto simp: uidForValueLocked_def)
  assume ne: "subjectsOf ic v r \<noteq> {}"
  then obtain ks where ks: "r0 = Some ks" using gs(2) by blast
  note k = gs(3) [OF ks]
  then obtain a as where as: "ks = a # as" using ne by (cases ks) auto
  have "sort ks = ks" using k by (simp add: sorted_sort_id)
  then have "res = Some a"
    using assms(5) g ks as by (cases as) (auto simp: uidForValueLocked_def)
  moreover have fin: "finite (subjectsOf ic v r)" using k by (metis List.finite_set)
  moreover have "Min (subjectsOf ic v r) = a"
    by (rule Min_eqI [OF fin]) (use k as in auto)
  ultimately show "finite (subjectsOf ic v r) \<and> res = Some (Min (subjectsOf ic v r))" by simp
qed

definition optTriple :: "string \<Rightarrow> string \<Rightarrow> string \<Rightarrow> StringTriple set" where
  "optTriple s r v = (if r \<noteq> '''' \<and> v \<noteq> '''' then {trip s r v} else {})"

lemma addUnlessEmpty_spec:
  assumes "writable ic" "storable s" "storable r" "storable v" "room (need3 s r v + n) ic"
    "addUnlessEmpty s r v ic = (e, ic')"
  shows "e = None" and "writable ic'" and "triples ic' = triples ic \<union> optTriple s r v" and "room n ic'"
    and "same_config ic ic'"
proof -
  have "storable3 s r v" "room (need3 s r v) ic" using assms by (simp_all add: storable3_def room_def)
  note ad = addLocked_trip [OF assms(1) this]
  show "e = None" "writable ic'" "triples ic' = triples ic \<union> optTriple s r v" "room n ic'" "same_config ic ic'"
    using assms(1,5,6) ad writable_config [OF assms(1)]
    by (fastforce simp: addUnlessEmpty_def optTriple_def room_def split: if_splits)+
qed

definition dir_ok :: "DirSpec \<Rightarrow> bool" where
  "dir_ok spec \<longleftrightarrow>
     Path spec \<noteq> '''' \<and> NewUID spec \<noteq> '''' \<and> PathRelation spec \<noteq> '''' \<and>
     (\<forall>v \<in> {Path spec, NewUID spec, ParentUID spec, PathRelation spec, ParentRelation spec,
            TypeRelation spec, TypeValue spec}. storable v)"

definition dir_need :: "DirSpec \<Rightarrow> nat" where
  "dir_need spec =
     need3 (NewUID spec) (ParentRelation spec) (ParentUID spec) +
     (need3 (NewUID spec) (PathRelation spec) (Path spec) +
      need3 (NewUID spec) (TypeRelation spec) (TypeValue spec))"

definition dirTriples :: "DirSpec \<Rightarrow> StringTriple set" where
  "dirTriples spec =
     insert (trip (NewUID spec) (PathRelation spec) (Path spec))
       (optTriple (NewUID spec) (ParentRelation spec) (ParentUID spec) \<union>
        optTriple (NewUID spec) (TypeRelation spec) (TypeValue spec))"

lemma MkDir_spec:
  assumes w: "writable ic" and ok: "dir_ok spec" and room: "room (dir_need spec) ic"
    and mk: "MkDir spec ic = ((uid, existed, err), ic')"
    and own: "own = subjectsOf ic (Path spec) (PathRelation spec)"
  shows "writable ic'" and "same_config ic ic'" and "err = None" and "existed \<longleftrightarrow> own \<noteq> {}"
    and "uid = (if own = {} then NewUID spec else Min own)"
    and "triples ic' = triples ic \<union> (if own = {} then dirTriples spec else {})"
proof -
  have wf: "coll_wf ic" "\<not> readOnly ic" "ioErr ic = None" using w by (simp_all add: writable_def)
  have st: "storable (Path spec)" "storable (NewUID spec)" "storable (ParentUID spec)"
    "storable (PathRelation spec)" "storable (ParentRelation spec)" "storable (TypeRelation spec)"
    "storable (TypeValue spec)" using ok by (simp_all add: dir_ok_def)
  have ne: "Path spec \<noteq> ''''" "NewUID spec \<noteq> ''''" "PathRelation spec \<noteq> ''''"
    using ok by (simp_all add: dir_ok_def)
  obtain res ic1 where u: "uidForValueLocked (Path spec) (PathRelation spec) ic = (res, ic1)" by force
  note us = uidForValueLocked_spec [OF wf(1) st(1,4) ne(3) u]
  note q = quietD [OF wf(1) us(1)]
  have w1: "writable ic1" by (rule writable_quiet [OF w us(1)])
  have "writable ic' \<and> same_config ic ic' \<and> err = None \<and> (existed \<longleftrightarrow> own \<noteq> {}) \<and>
    uid = (if own = {} then NewUID spec else Min own) \<and>
    triples ic' = triples ic \<union> (if own = {} then dirTriples spec else {})"
  proof (cases "own = {}")
    case False
    with us(3) own have "res = Some (Min own)" by simp
    with mk u wf ne have "((uid, existed, err), ic') = ((Min own, True, None), ic1)"
      by (simp add: MkDir_def)
    with False w1 q(2,11) show ?thesis by simp
  next
    case True
    with us(2) own have res: "res = None" by simp
    have "room (dir_need spec) ic1" using room q(12) by (simp add: room_def)
    note room1 = this [unfolded dir_need_def]
    obtain e2 ic2 where a2: "addUnlessEmpty (NewUID spec) (ParentRelation spec) (ParentUID spec) ic1 = (e2, ic2)" by force
    note s2 = addUnlessEmpty_spec [OF w1 st(2,5,3) room1 a2]
    obtain e3 ic3 where a3: "addLocked (NewUID spec) (PathRelation spec) (Path spec) ic2 = (e3, ic3)" by force
    have p: "addUnlessEmpty (NewUID spec) (PathRelation spec) (Path spec) ic2 = (e3, ic3)"
      using a3 ne by (simp add: addUnlessEmpty_def)
    note s3 = addUnlessEmpty_spec [OF s2(2) st(2,4,1) s2(4) p]
    obtain e4 ic4 where a4: "addUnlessEmpty (NewUID spec) (TypeRelation spec) (TypeValue spec) ic3 = (e4, ic4)" by force
    have "room (need3 (NewUID spec) (TypeRelation spec) (TypeValue spec) + 0) ic3" using s3(4) by simp
    note s4 = addUnlessEmpty_spec [OF s3(2) st(2,6,7) this a4]
    have "((uid, existed, err), ic') = ((NewUID spec, False, None), ic4)"
      using mk u res wf ne a2 s2(1) a3 s3(1) a4 s4(1) by (simp add: MkDir_def)
    moreover have "same_config ic ic4"
      by (rule same_config_trans [OF q(11) same_config_trans [OF s2(5) same_config_trans [OF s3(5) s4(5)]]])
    moreover have "triples ic4 = triples ic \<union> dirTriples spec"
      using s2(3) s3(3) s4(3) q(2) ne by (auto simp: dirTriples_def optTriple_def)
    ultimately show ?thesis using True s4(2) by simp
  qed
  then show "writable ic'" and "same_config ic ic'" and "err = None" and "existed \<longleftrightarrow> own \<noteq> {}"
    and "uid = (if own = {} then NewUID spec else Min own)"
    and "triples ic' = triples ic \<union> (if own = {} then dirTriples spec else {})" by blast+
qed

section \<open>Read-only collections\<close>

lemma readOnly_refuses:
  assumes "readOnly ic"
  shows "addLocked s r v ic = (Some ErrReadOnly, ic)"
    and "deleteLocked s r v ic = ((ErrorText ErrReadOnly '''', False), ic)"
    and "Update s r v v' ic = ((ErrorText ErrReadOnly '''', False), ic)"
    and "UpdateAdd s r v v' ic = ((ErrorText ErrReadOnly '''', False), ic)"
    and "SimpleUpdate s r v' addOnFail ic = ((ErrorText ErrReadOnly '''', False), ic)"
    and "SetValues s r vs ic = ic"
    and "Apply ops ic = ((0, Some ErrReadOnly), ic)"
    and "snd (MkDir spec ic) = ic" and "snd (snd (fst (MkDir spec ic))) \<noteq> None"
  using assms
  by (simp_all add: addLocked_def deleteLocked_def Update_def UpdateAdd_def SimpleUpdate_def
      SetValues_def setValuesLocked_def Apply_def MkDir_def split: option.splits)

end
