(* ===== verification/Tie_Tree.thy ===== *)
theory Tie_Tree
  imports Load_Correct Write_Correct
begin

text \<open>
  \<^verbatim>\<open>tiedb/tietree.go\<close> and the life cycle of a collection in \<^verbatim>\<open>tiedb/collection.go\<close> (\<open>Sync\<close>,
  \<open>closeDB\<close>, \<open>releaseLock\<close>) and \<^verbatim>\<open>tiedb/lock_unix.go\<close>: the handle that maps a key to its collection,
  loads it on first use, closes and drops it. The files and the advisory locks are an explicit
  \<open>world\<close>; what the operating system answers beyond them (failures) is a parameter of it.
\<close>

section \<open>Data\<close>

record CollectionKey =
  Database :: string
  Collection :: string

definition collectionKeyHash :: "CollectionKey \<Rightarrow> u64" where
  "collectionKeyHash k = fnv1a (fnv1a fnvOffset (string_bytes (Collection k))) (string_bytes (Database k))"

record TieTree =
  collections :: "(CollectionKey, collection) lockedTree"
  db_writeToDisk :: bool
  defaultReverseRelations :: "string list option"
  reverseOverrides :: "(CollectionKey \<times> string list option) list"
  db_blobPolicy :: "BlobPolicy option"
  loadMemoryLimit :: int
  locking :: bool
  db_readOnly :: bool
  db_searchMaxBytes :: int

text \<open>How \<^verbatim>\<open>flock\<close> answers when no one holds the lock.\<close>

datatype flock = Granted | Unsupported | LockFails string

text \<open>The failures of the calls on one path; \<open>None\<close>: the call works.\<close>

record osFaults =
  mkdirErr :: "string option"
  removeErr :: "string option"
  statErr :: "string option"
  lockOpenErr :: "string option"
  flockAnswer :: flock
  loadErr :: "string option"
  sizeErr :: "string option"
  openErr :: "string option"

text \<open>
  \<open>files\<close> holds the bytes of each file; those of a file that a running writer has open are in its
  collection until \<open>closeDB\<close> hands them back. \<open>locks\<close> lists the paths locked by any process.
\<close>

record world =
  files :: "(string \<times> byte list) list"
  locks :: "string list"
  faults :: "string \<Rightarrow> osFaults"

text \<open>The orders in which the workers of the two load passes take the records of a file.\<close>

type_synonym schedule = "collection \<Rightarrow> byte list \<Rightarrow> RawDataEntry list \<times> RawDataEntry list"

definition defaultSearchCacheBytes :: int where
  "defaultSearchCacheBytes = 64 * 2 ^ 20"

section \<open>Configuration\<close>

definition NewDB :: "bool \<Rightarrow> TieTree" where
  "NewDB toDisk =
     \<lparr>collections = newLockedTree collectionKeyHash, db_writeToDisk = toDisk,
      defaultReverseRelations = None, reverseOverrides = [], db_blobPolicy = None,
      loadMemoryLimit = 0, locking = False, db_readOnly = False,
      db_searchMaxBytes = defaultSearchCacheBytes\<rparr>"

definition db_SetBlobPolicy :: "BlobPolicy option \<Rightarrow> TieTree \<Rightarrow> TieTree" where
  "db_SetBlobPolicy p db = db\<lparr>db_blobPolicy := p\<rparr>"

definition SetDefaultReverseRelations :: "string list option \<Rightarrow> TieTree \<Rightarrow> TieTree" where
  "SetDefaultReverseRelations rs db = db\<lparr>defaultReverseRelations := rs\<rparr>"

definition SetReverseRelationsOverrides ::
    "(CollectionKey \<times> string list option) list \<Rightarrow> TieTree \<Rightarrow> TieTree" where
  "SetReverseRelationsOverrides os db = db\<lparr>reverseOverrides := os\<rparr>"

definition SetSearchCacheBytes :: "int \<Rightarrow> TieTree \<Rightarrow> TieTree" where
  "SetSearchCacheBytes n db = db\<lparr>db_searchMaxBytes := n\<rparr>"

definition SetLoadMemoryLimit :: "int \<Rightarrow> TieTree \<Rightarrow> TieTree" where
  "SetLoadMemoryLimit n db = db\<lparr>loadMemoryLimit := n\<rparr>"

definition SetLocking :: "bool \<Rightarrow> TieTree \<Rightarrow> TieTree" where
  "SetLocking on db = db\<lparr>locking := on\<rparr>"

definition SetReadOnly :: "bool \<Rightarrow> TieTree \<Rightarrow> TieTree" where
  "SetReadOnly on db = db\<lparr>db_readOnly := on\<rparr>"

section \<open>Files and locks\<close>

definition pathOf :: "CollectionKey \<Rightarrow> string" where
  "pathOf key = Database key @ ''/'' @ Collection key @ ''.tie''"

definition fileAt :: "world \<Rightarrow> string \<Rightarrow> byte list option" where
  "fileAt w path = map_of (files w) path"

definition createFile :: "string \<Rightarrow> world \<Rightarrow> world" where
  "createFile path w = (if fileAt w path = None then w\<lparr>files := (path, []) # files w\<rparr> else w)"

definition putFile :: "string \<Rightarrow> byte list \<Rightarrow> world \<Rightarrow> world" where
  "putFile path bs w = w\<lparr>files := AList.update path bs (files w)\<rparr>"

text \<open>\<open>Inr True\<close>: locked; \<open>Inr False\<close>: the file system has no locks and the caller goes on without.\<close>

definition lockCollectionFile :: "string \<Rightarrow> world \<Rightarrow> (tie_error + bool) \<times> world" where
  "lockCollectionFile path w =
     (case lockOpenErr (faults w path) of
        Some e \<Rightarrow> (Inl (ErrIO e), w)
      | None \<Rightarrow>
          (let w = createFile path w
           in case flockAnswer (faults w path) of
                Unsupported \<Rightarrow> (Inr False, w)
              | LockFails e \<Rightarrow> (Inl (ErrIO e), w)
              | Granted \<Rightarrow>
                  if path \<in> set (locks w) then (Inl (ErrLocked path), w)
                  else (Inr True, w\<lparr>locks := path # locks w\<rparr>)))"

definition unlock :: "string \<Rightarrow> world \<Rightarrow> world" where
  "unlock path w = w\<lparr>locks := filter (\<lambda>p. p \<noteq> path) (locks w)\<rparr>"

definition releaseLock :: "string \<Rightarrow> collection \<times> world \<Rightarrow> collection \<times> world" where
  "releaseLock path s =
     (case s of (ic, w) \<Rightarrow> if lockHeld ic then (ic\<lparr>lockHeld := False\<rparr>, unlock path w) else (ic, w))"

section \<open>The life of a collection\<close>

definition reverseFor :: "CollectionKey \<Rightarrow> TieTree \<Rightarrow> string list option" where
  "reverseFor key db =
     (case map_of (reverseOverrides db) key of Some r \<Rightarrow> r | None \<Rightarrow> defaultReverseRelations db)"

text \<open>\<open>loadDB\<close> on a path: a missing file loads nothing; the outer \<open>None\<close> is a panic of a worker.\<close>

definition loadFile ::
    "schedule \<Rightarrow> string \<Rightarrow> world \<Rightarrow> collection \<Rightarrow> (tie_error + collection) option" where
  "loadFile sched path w ic =
     (case loadErr (faults w path) of
        Some e \<Rightarrow> Some (Inl (ErrIO e))
      | None \<Rightarrow>
          (case fileAt w path of
             None \<Rightarrow> Some (Inr ic)
           | Some bs \<Rightarrow> (let (es, as) = sched ic bs in map_option Inr (loadDB es as ic))))"

definition failed :: "tie_error \<Rightarrow> collection \<Rightarrow> collection \<times> tie_error option" where
  "failed e ic = (setIOErr e ic, Some e)"

definition initializeReadOnly ::
    "schedule \<Rightarrow> string \<Rightarrow> collection \<Rightarrow> world \<Rightarrow> (collection \<times> tie_error option) option" where
  "initializeReadOnly sched path ic w =
     (case loadFile sched path w ic of
        None \<Rightarrow> None
      | Some (Inl e) \<Rightarrow> Some (failed e ic)
      | Some (Inr ic) \<Rightarrow>
          (case sizeErr (faults w path) of
             Some e \<Rightarrow> Some (failed (ErrIO e) ic)
           | None \<Rightarrow>
               (let bs = (case fileAt w path of None \<Rightarrow> [] | Some bs \<Rightarrow> bs); ic = initReadSize bs ic
                in case openErr (faults w path) of
                     Some e \<Rightarrow> Some (failed (ErrIO e) ic)
                   | None \<Rightarrow> Some (ic\<lparr>db_file := map_option openFile (fileAt w path)\<rparr>, None))))"

text \<open>The writing branch of \<open>initialize\<close> from the load on; it releases the lock when the load fails.\<close>

definition loadAndStart ::
    "schedule \<Rightarrow> string \<Rightarrow> collection \<times> world \<Rightarrow> ((collection \<times> tie_error option) \<times> world) option" where
  "loadAndStart sched path s =
     (case s of (ic, w) \<Rightarrow>
       (case loadFile sched path w ic of
          None \<Rightarrow> None
        | Some (Inl e) \<Rightarrow>
            (let (ic, err) = failed e ic; (ic, w) = releaseLock path (ic, w) in Some ((ic, err), w))
        | Some (Inr ic) \<Rightarrow>
            (let bs = (case fileAt w path of None \<Rightarrow> [] | Some bs \<Rightarrow> bs);
                 ic = dBWriter bs (sizeErr (faults w path)) (openErr (faults w path)) ic;
                 w = (case db_file ic of None \<Rightarrow> w | Some f \<Rightarrow> putFile path (db_bytes f) w)
             in Some ((ic, None), w))))"

definition initialize ::
    "schedule \<Rightarrow> CollectionKey \<Rightarrow> bool \<Rightarrow> TieTree \<Rightarrow> world
       \<Rightarrow> ((collection \<times> tie_error option) \<times> world) option" where
  "initialize sched key clearExistingDB db w =
     (let path = pathOf key;
          ic = newCollection (db_writeToDisk db) (db_readOnly db) (reverseFor key db) (db_blobPolicy db)
                 (db_searchMaxBytes db)
      in if \<not> db_writeToDisk db then Some ((ic, None), w)
         else if db_readOnly db then map_option (\<lambda>r. (r, w)) (initializeReadOnly sched path ic w)
         else case mkdirErr (faults w path) of
           Some e \<Rightarrow> Some (failed (ErrIO e) ic, w)
         | None \<Rightarrow>
           (case (if clearExistingDB then removeErr (faults w path) else None) of
              Some e \<Rightarrow> Some (failed (ErrIO e) ic, w)
            | None \<Rightarrow>
              (let w = (if clearExistingDB then w\<lparr>files := AList.delete path (files w)\<rparr> else w)
               in if \<not> locking db then loadAndStart sched path (ic, w)
                  else case lockCollectionFile path w of
                    (Inl e, w) \<Rightarrow> Some (failed e ic, w)
                  | (Inr got, w) \<Rightarrow> loadAndStart sched path (ic\<lparr>lockHeld := got\<rparr>, w))))"

text \<open>
  \<open>Sync\<close> queues a barrier behind every earlier write and waits until the writer goroutine reaches
  it; the goroutine's steps up to there are taken at once.
\<close>

definition Sync :: "collection \<Rightarrow> collection" where
  "Sync ic =
     (if \<not> writeToDisk ic \<or> readOnly ic \<or> collection.closed ic then ic
      else let (queued, ic) = queueWrite FILE_BARRIER ic
           in if queued \<and> \<not> writerGone ic then (writerStep ^^ length (dBWriteQueue ic)) ic else ic)"

text \<open>
  \<open>closeDB\<close>: \<open>dBCloseWriter\<close> is nil exactly when \<open>dBWriter\<close> never ran, that is with neither a file
  nor \<open>writerGone\<close>. With the writer gone the message stays in the channel, whose buffer holds one: the
  next send blocks for ever (\<open>None\<close>).
\<close>

definition closeDB :: "string \<Rightarrow> collection \<times> world \<Rightarrow> (collection \<times> world) option" where
  "closeDB path s =
     (case s of (ic, w) \<Rightarrow>
       (let ic = ic\<lparr>closed := True, searchCache := [], searchBytes := 0\<rparr>
        in if readOnly ic then Some (ic\<lparr>db_file := None\<rparr>, w)
           else if writerGone ic then
             (if closeSignals ic > 0 then None
              else Some (releaseLock path (ic\<lparr>closeSignals := closeSignals ic + 1\<rparr>, w)))
           else case db_file ic of
             None \<Rightarrow> Some (releaseLock path (ic, w))
           | Some _ \<Rightarrow>
               (let ic = drainWriteQueue ic; f = the (db_file ic); f = f\<lparr>db_synced := db_bytes f\<rparr>
                in Some (releaseLock path
                     (ic\<lparr>db_file := Some f, writerGone := True\<rparr>, putFile path (db_bytes f) w)))))"

section \<open>The handle\<close>

definition loadCollection ::
    "schedule \<Rightarrow> CollectionKey \<Rightarrow> TieTree \<times> world
       \<Rightarrow> ((collection \<times> tie_error option) \<times> TieTree \<times> world) option" where
  "loadCollection sched key s =
     (case s of (db, w) \<Rightarrow>
       (case lt_Get (collections db) key of
          Some col \<Rightarrow> Some ((col, ioErr col), db, w)
        | None \<Rightarrow>
            (case initialize sched key False db w of
               None \<Rightarrow> None
             | Some ((col, err), w) \<Rightarrow>
                 Some ((col, err), db\<lparr>collections := lt_Put key col (collections db)\<rparr>, w))))"

definition TryGetCollection ::
    "schedule \<Rightarrow> CollectionKey \<Rightarrow> TieTree \<times> world
       \<Rightarrow> ((collection \<times> tie_error option) \<times> TieTree \<times> world) option" where
  "TryGetCollection sched key s =
     (case lt_Get (collections (fst s)) key of
        Some col \<Rightarrow> Some ((col, ioErr col), s)
      | None \<Rightarrow> loadCollection sched key s)"

definition GetCollection ::
    "schedule \<Rightarrow> CollectionKey \<Rightarrow> TieTree \<times> world \<Rightarrow> (collection \<times> TieTree \<times> world) option" where
  "GetCollection sched key s = map_option (\<lambda>((col, _), s). (col, s)) (TryGetCollection sched key s)"

definition LookupCollection ::
    "schedule \<Rightarrow> CollectionKey \<Rightarrow> TieTree \<times> world \<Rightarrow> (collection option \<times> TieTree \<times> world) option" where
  "LookupCollection sched key s =
     (case lt_Get (collections (fst s)) key of
        Some col \<Rightarrow> Some (Some col, s)
      | None \<Rightarrow>
          if \<not> db_writeToDisk (fst s) then Some (None, s)
          else if statErr (faults (snd s) (pathOf key)) \<noteq> None \<or> fileAt (snd s) (pathOf key) = None
          then Some (None, s)
          else map_option (\<lambda>((col, _), s). (Some col, s)) (loadCollection sched key s))"

text \<open>\<open>Close\<close> goes through the collections in the order of the enumeration.\<close>

fun closeAll :: "(CollectionKey \<times> collection) list \<Rightarrow> TieTree \<times> world \<Rightarrow> (TieTree \<times> world) option" where
  "closeAll [] s = Some s"
| "closeAll ((key, col) # rest) (db, w) =
     (case closeDB (pathOf key) (col, w) of
        None \<Rightarrow> None
      | Some (col, w) \<Rightarrow> closeAll rest (db\<lparr>collections := lt_Put key col (collections db)\<rparr>, w))"

definition Close :: "TieTree \<times> world \<Rightarrow> (TieTree \<times> world) option" where
  "Close s = (if \<not> db_writeToDisk (fst s) then Some s else closeAll (lt_ForEach (collections (fst s))) s)"

definition removeFile :: "string \<Rightarrow> world \<Rightarrow> tie_error option \<times> world" where
  "removeFile path w =
     (case removeErr (faults w path) of
        Some e \<Rightarrow> (if fileAt w path = None then None else Some (ErrIO e), w)
      | None \<Rightarrow> (None, w\<lparr>files := AList.delete path (files w)\<rparr>))"

definition DropCollection ::
    "CollectionKey \<Rightarrow> TieTree \<times> world \<Rightarrow> (tie_error option \<times> TieTree \<times> world) option" where
  "DropCollection key s =
     (case s of (db, w) \<Rightarrow>
       if db_readOnly db then Some (Some ErrReadOnly, db, w)
       else
         let path = pathOf key;
             closedState =
               (case lt_Get (collections db) key of
                  None \<Rightarrow> Some (db, w)
                | Some col \<Rightarrow>
                    (let db = db\<lparr>collections := lt_Delete key (collections db)\<rparr>
                     in if db_writeToDisk db then map_option (\<lambda>(_, w). (db, w)) (closeDB path (col, w))
                        else Some (db, w)))
         in case closedState of
              None \<Rightarrow> None
            | Some (db, w) \<Rightarrow>
                if \<not> db_writeToDisk db then Some (None, db, w)
                else if \<not> locking db then (case removeFile path w of (e, w) \<Rightarrow> Some (e, db, w))
                else case statErr (faults w path) of
                  Some e \<Rightarrow> Some (Some (ErrIO e), db, w)
                | None \<Rightarrow>
                    if fileAt w path = None then (case removeFile path w of (e, w) \<Rightarrow> Some (e, db, w))
                    else case lockCollectionFile path w of
                      (Inl e, w) \<Rightarrow> Some (Some e, db, w)
                    | (Inr got, w) \<Rightarrow>
                        (case removeFile path w of (e, w) \<Rightarrow> Some (e, db, if got then unlock path w else w)))"

end
