(* ===== verification/Handle_Correct.thy ===== *)
theory Handle_Correct
  imports Tie_Tree
begin

text \<open>
  The life cycle of a collection: closing a healthy collection and loading its file again gives the
  same triples, \<open>Sync\<close> makes every earlier write durable, dropping a collection leaves an empty one,
  and no operation on one key touches another.
\<close>

section \<open>A healthy file system\<close>

definition healthyAt :: "world \<Rightarrow> string \<Rightarrow> bool" where
  "healthyAt w path \<longleftrightarrow>
     (let f = faults w path
      in mkdirErr f = None \<and> removeErr f = None \<and> statErr f = None \<and> lockOpenErr f = None \<and>
         (\<forall>e. flockAnswer f \<noteq> LockFails e) \<and> loadErr f = None \<and> sizeErr f = None \<and> openErr f = None)"

text \<open>Every schedule hands each record of the file out once in each pass.\<close>

definition fair :: "schedule \<Rightarrow> bool" where
  "fair sched \<longleftrightarrow> (\<forall>ic bs. load_order ic bs (fst (sched ic bs)) \<and> load_order ic bs (snd (sched ic bs)))"

definition inFileOrder :: schedule where
  "inFileOrder ic bs = (let es = loadPass bufferSize 0 (loadLimit ic bs) in (es, es))"

lemma fair_inFileOrder: "fair inFileOrder"
  by (simp add: fair_def inFileOrder_def load_order_def Let_def)

lemma faults_simps [simp]:
  "faults (createFile path w) = faults w" "faults (putFile path bs w) = faults w"
  "faults (unlock path w) = faults w" "locks (putFile path bs w) = locks w"
  "locks (createFile path w) = locks w" "locks (unlock path w) = filter (\<lambda>p. p \<noteq> path) (locks w)"
  by (simp_all add: createFile_def putFile_def unlock_def)

lemma fileAt_simps [simp]:
  "fileAt (putFile path bs w) = (fileAt w)(path \<mapsto> bs)" "fileAt (unlock path w) = fileAt w"
  "fileAt (w\<lparr>locks := ls\<rparr>) = fileAt w"
  "fileAt (w\<lparr>files := AList.delete path (files w)\<rparr>) = (fileAt w)(path := None)"
  by (simp_all add: fun_eq_iff fileAt_def putFile_def unlock_def)

lemma fileAt_createFile:
  "fileAt (createFile path w) = (fileAt w)(path \<mapsto> case fileAt w path of None \<Rightarrow> [] | Some bs \<Rightarrow> bs)"
  by (auto simp: fun_eq_iff createFile_def fileAt_def split: option.splits)

lemma healthyAt_simps [simp]:
  "healthyAt (createFile path w) = healthyAt w" "healthyAt (putFile path bs w) = healthyAt w"
  "healthyAt (unlock path w) = healthyAt w" "healthyAt (w\<lparr>locks := ls\<rparr>) = healthyAt w"
  by (simp_all add: fun_eq_iff healthyAt_def)

section \<open>Closing\<close>

definition retire :: "collection \<Rightarrow> collection" where
  "retire ic = ic\<lparr>closed := True, searchCache := [], searchBytes := 0\<rparr>"

lemma applyFileMod_retire:
  "applyFileMod m (retire ic) = map_prod (\<lambda>x. x) retire (applyFileMod m ic)"
  by (auto simp: applyFileMod_def retire_def freeSlot_def Let_def split: option.splits FileMod.splits prod.splits)

lemma drain_retire: "drainWriteQueue (retire ic) = retire (drainWriteQueue ic)"
proof -
  have "fold (\<lambda>m ic. snd (applyFileMod m ic)) q (retire ic) = retire (fold (\<lambda>m ic. snd (applyFileMod m ic)) q ic)" for q ic
    by (induction q arbitrary: ic) (simp_all add: applyFileMod_retire)
  moreover have "(retire ic)\<lparr>dBWriteQueue := []\<rparr> = retire (ic\<lparr>dBWriteQueue := []\<rparr>)" by (simp add: retire_def)
  moreover have "dBWriteQueue (retire ic) = dBWriteQueue ic" by (simp add: retire_def)
  ultimately show ?thesis by (simp add: drainWriteQueue_def)
qed

lemma storage_step_lock: "storage_step ic ic' \<Longrightarrow> lockHeld ic' = lockHeld ic"
  unfolding storage_step_def storage_norm_def by (drule arg_cong [where f = lockHeld]) simp

lemma closeDB_spec:
  assumes "coll_wf ic" "writeToDisk ic"
  obtains ic' w' where "closeDB path (ic, w) = Some (ic', w')" "fileAt w' = (fileAt w)(path \<mapsto> diskBytes ic)"
    "faults w' = faults w" "locks w' = (if lockHeld ic then filter (\<lambda>p. p \<noteq> path) (locks w) else locks w)"
proof -
  have inv: "disk_inv ic" using wfD(2) [OF assms(1)] assms(2) by (simp add: store_inv_def)
  note d = drain_spec [OF inv]
  obtain f where f: "db_file (drainWriteQueue ic) = Some f" using d(1) by (auto simp: disk_inv_def)
  have b: "db_bytes f = diskBytes ic" using d(3,4) f by (simp add: diskBytes_def [of "drainWriteQueue ic"])
  have r: "readOnly (retire ic) = readOnly ic" "writerGone (retire ic) = writerGone ic"
    "db_file (retire ic) = db_file ic" "db_file (retire (drainWriteQueue ic)) = Some f"
    "lockHeld (retire (drainWriteQueue ic)) = lockHeld ic"
    using f storage_step_lock [OF d(5)] by (simp_all add: retire_def)
  obtain f0 where run: "\<not> readOnly ic" "\<not> writerGone ic" "db_file ic = Some f0"
    using inv by (auto simp: disk_inv_def)
  let ?ic = "(retire (drainWriteQueue ic))\<lparr>db_file := Some (f\<lparr>db_synced := db_bytes f\<rparr>), writerGone := True\<rparr>"
  have "closeDB path (ic, w) = Some (releaseLock path (?ic, putFile path (diskBytes ic) w))"
    unfolding closeDB_def retire_def [symmetric] using run by (simp add: r drain_retire b Let_def)
  moreover have "lockHeld ?ic = lockHeld ic" using r(5) by simp
  ultimately show ?thesis
    using that by (cases "lockHeld ic") (simp_all add: releaseLock_def)
qed

section \<open>Loading\<close>

text \<open>The load neither looks at the lock flag nor changes it.\<close>

definition withLock :: "bool \<Rightarrow> collection \<Rightarrow> collection" where
  "withLock b ic = ic\<lparr>lockHeld := b\<rparr>"

lemma fields_withLock [simp]:
  "totalAssociations (withLock b ic) = totalAssociations ic" "hashEntries (withLock b ic) = hashEntries ic"
  "readOnly (withLock b ic) = readOnly ic" "reverseRelations (withLock b ic) = reverseRelations ic"
  "db_file (withLock b ic) = db_file ic" "lockHeld (withLock b ic) = b"
  "(withLock b ic)\<lparr>totalAssociations := x\<rparr> = withLock b (ic\<lparr>totalAssociations := x\<rparr>)"
  by (simp_all add: withLock_def)

lemma trees_withLock [simp]:
  "associationsTree (withLock b ic) = associationsTree ic"
  "reverseAssociationsTree (withLock b ic) = reverseAssociationsTree ic"
  "getValueString (withLock b ic) = getValueString ic"
proof -
  have "view (withLock b ic) = view ic" by (simp add: view_def withLock_def)
  then show "associationsTree (withLock b ic) = associationsTree ic"
    "reverseAssociationsTree (withLock b ic) = reverseAssociationsTree ic"
    "getValueString (withLock b ic) = getValueString ic" by (metis obs_view stored_view)+
qed

lemma steps_withLock [simp]:
  "secureLevelInIndex n (withLock b ic) = withLock b (secureLevelInIndex n ic)"
  "secureEntryLevel n (withLock b ic) = withLock b (secureEntryLevel n ic)"
  "bumpTotalEntries i (withLock b ic) = withLock b (bumpTotalEntries i ic)"
  "freeSlot p (withLock b ic) = withLock b (freeSlot p ic)"
  "updLevel l g (withLock b ic) = withLock b (updLevel l g ic)"
  "updAssociationsTree l f (withLock b ic) = withLock b (updAssociationsTree l f ic)"
  "updReverseAssociationsTree l f (withLock b ic) = withLock b (updReverseAssociationsTree l f ic)"
  "insertEntry l i uv (withLock b ic) = withLock b (insertEntry l i uv ic)"
  "loadHash i raw (withLock b ic) = withLock b (loadHash i raw ic)"
  "shouldBuildReverse t (withLock b ic) = shouldBuildReverse t ic"
proof -
  show sl: "secureLevelInIndex n (withLock b ic) = withLock b (secureLevelInIndex n ic)" for n ic
    by (simp add: secureLevelInIndex_def withLock_def)
  show "secureEntryLevel n (withLock b ic) = withLock b (secureEntryLevel n ic)"
    by (simp add: secureEntryLevel_def sl)
  show bump: "bumpTotalEntries i (withLock b ic) = withLock b (bumpTotalEntries i ic)" for i ic
    by (simp add: bumpTotalEntries_def withLock_def)
  show "freeSlot p (withLock b ic) = withLock b (freeSlot p ic)" by (simp add: freeSlot_def withLock_def)
  show ul: "updLevel l g (withLock b ic) = withLock b (updLevel l g ic)" for l g ic
    by (simp add: updLevel_def levelAt_def withLock_def)
  show "updAssociationsTree l f (withLock b ic) = withLock b (updAssociationsTree l f ic)"
    "updReverseAssociationsTree l f (withLock b ic) = withLock b (updReverseAssociationsTree l f ic)"
    by (simp_all add: updAssociationsTree_def updReverseAssociationsTree_def ul) (simp_all add: withLock_def)
  show "insertEntry l i uv (withLock b ic) = withLock b (insertEntry l i uv ic)"
    by (simp add: insertEntry_def sl ul)
  show "loadHash i raw (withLock b ic) = withLock b (loadHash i raw ic)"
    by (simp add: loadHash_def bump) (simp add: putHash_def withLock_def)
  show "shouldBuildReverse t (withLock b ic) = shouldBuildReverse t ic"
    by (simp add: shouldBuildReverse_def split: option.splits)
qed

lemma loadDB_withLock: "loadDB es as (withLock b ic) = map_option (withLock b) (loadDB es as ic)"
proof -
  have one: "loadEntry e (withLock b ic) = map_option (withLock b) (loadEntry e ic)"
    "loadAssociation e (withLock b ic) = map_option (withLock b) (loadAssociation e ic)" for e ic
    by (auto simp: loadEntry_def loadAssociation_def insertAssociation_def insertAssociation_panics_def Let_def
        split: option.splits prod.splits)
  have "runWorkers f es (withLock b ic) = map_option (withLock b) (runWorkers f es ic)"
    if "\<And>e ic. f e (withLock b ic) = map_option (withLock b) (f e ic)" for f es ic
    by (induction es arbitrary: ic) (auto simp: that split: option.splits)
  then show ?thesis
    using one by (auto simp: loadDB_def loadEntries_def loadAssociations_def split: option.splits)
qed

lemma dBWriter_withLock: "dBWriter bs e1 e2 (withLock b ic) = withLock b (dBWriter bs e1 e2 ic)"
  by (simp add: dBWriter_def initDBSize_def setIOErr_def withLock_def Let_def split: option.splits)

lemma loadAndStart_spec:
  assumes wf: "coll_wf ic" "writeToDisk ic" and at: "fileAt w path = Some (diskBytes ic @ tail)"
    and tail: "length tail < ENTRY_SIZE" and ok: "healthyAt w path" "fair sched"
    and ic0: "ic0 = withLock b (newCollection True False rs (blobPolicy ic) mb)"
  obtains ic' w' where "loadAndStart sched path (ic0, w) = Some ((ic', None), w')"
    "writable ic'" "triples ic' = triples ic" "writeToDisk ic'"
    "reverseRelations ic' = map_option remdups rs" "fileAt w' = (fileAt w)(path \<mapsto> diskBytes ic)"
    "faults w' = faults w" "locks w' = locks w" "lockHeld ic' = b"
proof -
  let ?new = "newCollection True False rs (blobPolicy ic) mb"
  obtain es as where s: "sched ic0 (diskBytes ic @ tail) = (es, as)" by (metis surj_pair)
  have ll: "loadLimit ic0 = loadLimit ?new" by (simp add: fun_eq_iff loadLimit_def ic0)
  have order: "load_order ?new (diskBytes ic @ tail) es" "load_order ?new (diskBytes ic @ tail) as"
    using ok(2) s ll by (auto simp: fair_def load_order_def dest!: spec [of _ ic0] spec [of _ "diskBytes ic @ tail"])
  obtain ic2 ic1 where l: "loadDB es as ?new = Some ic2" "ic1 = dBWriter (diskBytes ic @ tail) None None ic2"
    "coll_wf ic1" "triples ic1 = triples ic" "writeToDisk ic1" "\<not> readOnly ic1" "ioErr ic1 = None"
    "reverseRelations ic1 = map_option remdups rs" "db_bytes (the (db_file ic1)) = diskBytes ic"
    by (rule loadDB_restores [OF wf refl tail refl order])
  define ic' where "ic' = withLock b ic1"
  have v: "view ic' = view ic1" by (simp add: view_def ic'_def withLock_def)
  have h: "loadErr (faults w path) = None" "sizeErr (faults w path) = None" "openErr (faults w path) = None"
    using ok(1) by (simp_all add: healthyAt_def Let_def)
  obtain f where f: "db_file ic1 = Some f"
    using wfD(2) [OF l(3)] l(5) by (auto simp: store_inv_def disk_inv_def)
  have "loadDB es as ic0 = Some (withLock b ic2)" by (simp add: ic0 loadDB_withLock l(1))
  moreover have "dBWriter (diskBytes ic @ tail) None None (withLock b ic2) = ic'"
    by (simp add: dBWriter_withLock ic'_def l(2))
  ultimately have "loadAndStart sched path (ic0, w) = Some ((ic', None), putFile path (diskBytes ic) w)"
    using l(9) f by (simp add: loadAndStart_def loadFile_def h at s Let_def ic'_def)
  moreover have "writable ic'" "triples ic' = triples ic" "writeToDisk ic'" "reverseRelations ic' = map_option remdups rs"
    using l view_cong [OF v] by (simp_all add: writable_def)
  ultimately show ?thesis using that [of ic' "putFile path (diskBytes ic) w"] by (simp add: ic'_def)
qed

text \<open>The lock of a path is free, or the handle does not ask for it.\<close>

definition lockFree :: "TieTree \<Rightarrow> world \<Rightarrow> string \<Rightarrow> bool" where
  "lockFree db w path \<longleftrightarrow> locking db \<longrightarrow> path \<notin> set (locks w)"

definition writing :: "TieTree \<Rightarrow> bool" where
  "writing db \<longleftrightarrow> db_writeToDisk db \<and> \<not> db_readOnly db"

lemma lockCollectionFile_free:
  assumes "healthyAt w path" "path \<notin> set (locks w)"
  obtains got w' where "lockCollectionFile path w = (Inr got, w')"
    "fileAt w' = fileAt (createFile path w)" "faults w' = faults w"
    "locks w' = (if got then path # locks w else locks w)"
proof -
  let ?f = "faults w path"
  have h: "lockOpenErr ?f = None" "\<And>e. flockAnswer ?f \<noteq> LockFails e"
    using assms(1) by (simp_all add: healthyAt_def Let_def)
  show ?thesis
  proof (cases "flockAnswer ?f")
    case Granted
    with h(1) assms(2) show ?thesis
      using that [of True "(createFile path w)\<lparr>locks := path # locks w\<rparr>"]
      by (simp add: lockCollectionFile_def Let_def)
  next
    case Unsupported
    with h(1) show ?thesis using that [of False "createFile path w"]
      by (simp add: lockCollectionFile_def Let_def)
  next
    case (LockFails e)
    with h(2) show ?thesis by blast
  qed
qed

text \<open>What a load gives back.\<close>

definition loads :: "collection \<Rightarrow> TieTree \<Rightarrow> CollectionKey \<Rightarrow> world \<Rightarrow> collection \<Rightarrow> world \<Rightarrow> bool" where
  "loads ic db key w ic' w' \<longleftrightarrow>
     writable ic' \<and> writeToDisk ic' \<and> triples ic' = triples ic \<and>
     reverseRelations ic' = map_option remdups (reverseFor key db) \<and>
     fileAt w' = (fileAt w)(pathOf key \<mapsto> diskBytes ic) \<and> faults w' = faults w \<and>
     (\<forall>p. p \<noteq> pathOf key \<longrightarrow> (p \<in> set (locks w') \<longleftrightarrow> p \<in> set (locks w))) \<and>
     (lockHeld ic' \<longrightarrow> locking db)"

lemma initialize_existing:
  assumes wf: "coll_wf ic" "writeToDisk ic" and db: "writing db" "db_blobPolicy db = blobPolicy ic"
    and at: "fileAt w (pathOf key) = Some (diskBytes ic @ tail)" "length tail < ENTRY_SIZE"
    and ok: "healthyAt w (pathOf key)" "fair sched" "lockFree db w (pathOf key)"
  obtains ic' w' where "initialize sched key False db w = Some ((ic', None), w')" "loads ic db key w ic' w'"
proof -
  let ?path = "pathOf key"
  let ?new = "newCollection True False (reverseFor key db) (blobPolicy ic) (db_searchMaxBytes db)"
  have new: "?new = withLock False ?new"
    by (simp add: withLock_def newCollection_def SetReverseRelations_def SetBlobPolicy_def Let_def split: option.splits)
  have mk: "mkdirErr (faults w ?path) = None" using ok(1) by (simp add: healthyAt_def Let_def)
  show ?thesis
  proof (cases "locking db")
    case False
    obtain ic' w' where l: "loadAndStart sched ?path (?new, w) = Some ((ic', None), w')"
      "writable ic'" "triples ic' = triples ic" "writeToDisk ic'"
      "reverseRelations ic' = map_option remdups (reverseFor key db)"
      "fileAt w' = (fileAt w)(?path \<mapsto> diskBytes ic)" "faults w' = faults w" "locks w' = locks w" "lockHeld ic' = False"
      by (rule loadAndStart_spec [OF wf at ok(1,2) new])
    then show ?thesis
      using that [of ic' w'] False db mk by (simp add: initialize_def loads_def writing_def Let_def)
  next
    case True
    then obtain got w1 where k: "lockCollectionFile ?path w = (Inr got, w1)"
      "fileAt w1 = fileAt (createFile ?path w)" "faults w1 = faults w"
      "locks w1 = (if got then ?path # locks w else locks w)"
      using lockCollectionFile_free [OF ok(1)] ok(3) by (auto simp: lockFree_def)
    have at1: "fileAt w1 ?path = Some (diskBytes ic @ tail)" "healthyAt w1 ?path"
      using at(1) ok(1) k(2,3) by (simp_all add: fileAt_createFile healthyAt_def)
    obtain ic' w' where l: "loadAndStart sched ?path (withLock got ?new, w1) = Some ((ic', None), w')"
      "writable ic'" "triples ic' = triples ic" "writeToDisk ic'"
      "reverseRelations ic' = map_option remdups (reverseFor key db)"
      "fileAt w' = (fileAt w1)(?path \<mapsto> diskBytes ic)" "faults w' = faults w1" "locks w' = locks w1" "lockHeld ic' = got"
      by (rule loadAndStart_spec [OF wf at1(1) at(2) at1(2) ok(2) refl])
    then show ?thesis
      using that [of ic' w'] True db mk k
      by (simp add: initialize_def loads_def writing_def fileAt_createFile withLock_def Let_def)
  qed
qed

lemma initialize_missing:
  assumes db: "writing db" "\<And>p. db_blobPolicy db = Some p \<Longrightarrow> policy_ok p"
    and at: "fileAt w (pathOf key) = None"
    and ok: "healthyAt w (pathOf key)" "fair sched" "lockFree db w (pathOf key)"
  obtains ic' w' ic0 where "initialize sched key False db w = Some ((ic', None), w')" "loads ic0 db key w ic' w'"
    "triples ic0 = {}" "diskBytes ic0 = []"
proof -
  let ?path = "pathOf key"
  let ?ic = "newDisk (reverseFor key db) (db_blobPolicy db) (db_searchMaxBytes db)"
  note new = wf_newDisk [of "db_blobPolicy db", OF db(2)]
  have wf: "coll_wf ?ic" "writeToDisk ?ic" "triples ?ic = {}" "diskBytes ?ic = []"
    "writable ?ic" "blobPolicy ?ic = db_blobPolicy db" "lockHeld ?ic = False"
    "reverseRelations ?ic = map_option remdups (reverseFor key db)"
    using new by (simp_all add: writable_def newDisk_unfold)
      (simp add: newCollection_def SetReverseRelations_def SetBlobPolicy_def Let_def split: option.splits)
  have mk: "mkdirErr (faults w ?path) = None" "loadErr (faults w ?path) = None"
    "sizeErr (faults w ?path) = None" "openErr (faults w ?path) = None"
    using ok(1) by (simp_all add: healthyAt_def Let_def)
  show ?thesis
  proof (cases "locking db")
    case False
    have f: "db_file ?ic = Some (openFile [])" by (simp add: newDisk_unfold)
    have "initialize sched key False db w = Some ((?ic, None), putFile ?path [] w)"
      using False db(1) mk at f
      by (simp add: initialize_def writing_def loadAndStart_def loadFile_def newDisk_def Let_def openFile_def)
    then show ?thesis
      using that [of ?ic "putFile ?path [] w" ?ic] wf False by (simp add: loads_def)
  next
    case True
    then obtain got w1 where k: "lockCollectionFile ?path w = (Inr got, w1)"
      "fileAt w1 = fileAt (createFile ?path w)" "faults w1 = faults w"
      "locks w1 = (if got then ?path # locks w else locks w)"
      using lockCollectionFile_free [OF ok(1)] ok(3) by (auto simp: lockFree_def)
    have at1: "fileAt w1 ?path = Some (diskBytes ?ic @ [])" "healthyAt w1 ?path"
      using at ok(1) k(2,3) wf(4) by (simp_all add: fileAt_createFile healthyAt_def)
    obtain ic' w' where l: "loadAndStart sched ?path
        (withLock got (newCollection True False (reverseFor key db) (blobPolicy ?ic) (db_searchMaxBytes db)), w1) = Some ((ic', None), w')"
      "writable ic'" "triples ic' = triples ?ic" "writeToDisk ic'"
      "reverseRelations ic' = map_option remdups (reverseFor key db)"
      "fileAt w' = (fileAt w1)(?path \<mapsto> diskBytes ?ic)" "faults w' = faults w1" "locks w' = locks w1" "lockHeld ic' = got"
      by (rule loadAndStart_spec [OF wf(1,2) at1(1) _ at1(2) ok(2) refl]) (simp add: ENTRY_SIZE_50)
    then show ?thesis
      using that [of ic' w' ?ic] True db(1) mk k wf
      by (simp add: initialize_def loads_def writing_def fileAt_createFile withLock_def Let_def)
  qed
qed

section \<open>The handle\<close>

text \<open>What is loaded under a key.\<close>

abbreviation collectionAt :: "TieTree \<times> world \<Rightarrow> CollectionKey \<Rightarrow> collection option" where
  "collectionAt s \<equiv> lt_Get (collections (fst s))"

lemma TryGet_loaded: "collectionAt s key = Some col \<Longrightarrow> TryGetCollection sched key s = Some ((col, ioErr col), s)"
  by (simp add: TryGetCollection_def)

lemma TryGet_loads:
  assumes "collectionAt (db, w) key = None" "initialize sched key False db w = Some ((ic, e), w')"
  shows "TryGetCollection sched key (db, w) =
    Some ((ic, e), db\<lparr>collections := lt_Put key ic (collections db)\<rparr>, w')"
  using assms by (simp add: TryGetCollection_def loadCollection_def)

text \<open>A successful call leaves the result under its key and every other key alone.\<close>

lemma TryGet_keys:
  assumes "TryGetCollection sched key s = Some ((ic, e), s')"
  shows "collectionAt s' = (collectionAt s)(key \<mapsto> ic)"
  using assms
  by (auto simp: TryGetCollection_def loadCollection_def fun_upd_idem split: option.splits prod.splits)

lemma Lookup_keys:
  assumes "LookupCollection sched key s = Some (Some ic, s')"
  shows "collectionAt s' = (collectionAt s)(key \<mapsto> ic)"
  using assms
  by (auto simp: LookupCollection_def loadCollection_def fun_upd_idem split: option.splits prod.splits if_splits)

lemma DropCollection_spec:
  assumes db: "writing db" and col: "collectionAt (db, w) key = Some ic" "coll_wf ic" "writeToDisk ic"
    and ok: "healthyAt w (pathOf key)" and lock: "locking db \<Longrightarrow> pathOf key \<in> set (locks w) \<longrightarrow> lockHeld ic"
  obtains w' where
    "DropCollection key (db, w) = Some (None, db\<lparr>collections := lt_Delete key (collections db)\<rparr>, w')"
    "fileAt w' = (fileAt w)(pathOf key := None)" "faults w' = faults w"
    "locking db \<Longrightarrow> pathOf key \<notin> set (locks w')"
proof -
  let ?path = "pathOf key" and ?db = "db\<lparr>collections := lt_Delete key (collections db)\<rparr>"
  obtain ic1 w1 where c: "closeDB ?path (ic, w) = Some (ic1, w1)" "fileAt w1 = (fileAt w)(?path \<mapsto> diskBytes ic)"
    "faults w1 = faults w" "locks w1 = (if lockHeld ic then filter (\<lambda>p. p \<noteq> ?path) (locks w) else locks w)"
    by (rule closeDB_spec [OF col(2,3)])
  have h: "removeErr (faults w ?path) = None" "statErr (faults w ?path) = None"
    using ok by (simp_all add: healthyAt_def Let_def)
  have rm: "removeFile ?path v = (None, v\<lparr>files := AList.delete ?path (files v)\<rparr>)" if "faults v = faults w" for v
    using that h by (simp add: removeFile_def)
  show ?thesis
  proof (cases "locking db")
    case False
    then show ?thesis
      using that [of "w1\<lparr>files := AList.delete ?path (files w1)\<rparr>"] db col(1) c rm [OF c(3)]
      by (simp add: DropCollection_def writing_def Let_def)
  next
    case True
    then have free: "?path \<notin> set (locks w1)" using lock c(4) by auto
    have "healthyAt w1 ?path" using ok c(3) by (simp add: healthyAt_def)
    from lockCollectionFile_free [OF this free] obtain got w2 where k: "lockCollectionFile ?path w1 = (Inr got, w2)"
      "fileAt w2 = fileAt (createFile ?path w1)" "faults w2 = faults w1"
      "locks w2 = (if got then ?path # locks w1 else locks w1)" by blast
    let ?w3 = "w2\<lparr>files := AList.delete ?path (files w2)\<rparr>"
    have "DropCollection key (db, w) = Some (None, ?db, if got then unlock ?path ?w3 else ?w3)"
      using True db col(1) c k rm [of w2] h by (simp add: DropCollection_def writing_def Let_def)
    then show ?thesis
      using that k(2-4) c(2,3) free by (cases got) (simp_all add: fileAt_createFile)
  qed
qed

text \<open>\<open>Sync\<close> leaves nothing in the queue and the whole file synced.\<close>

lemma applyHead_barrier_synced:
  assumes "disk_inv ic" "dBWriteQueue ic = [FILE_BARRIER]"
  shows "db_synced (the (db_file (applyHead ic))) = diskBytes ic" and "dBWriteQueue (applyHead ic) = []"
    and "db_bytes (the (db_file (applyHead ic))) = diskBytes ic"
  using assms by (auto simp: disk_inv_def applyHead_def applyFileMod_def diskBytes_def)

lemma disk_inv_barrier:
  assumes "disk_inv ic"
  shows "disk_inv (ic\<lparr>dBWriteQueue := dBWriteQueue ic @ [FILE_BARRIER]\<rparr>)"
    and "diskBytes (ic\<lparr>dBWriteQueue := dBWriteQueue ic @ [FILE_BARRIER]\<rparr>) = diskBytes ic"
proof -
  let ?ic = "ic\<lparr>dBWriteQueue := dBWriteQueue ic @ [FILE_BARRIER]\<rparr>"
  show b: "diskBytes ?ic = diskBytes ic" by (simp add: diskBytes_def split: option.splits)
  then have "disk_rec ?ic = disk_rec ic" by (simp add: fun_eq_iff disk_rec_def)
  moreover have "pendingDeletes ?ic = pendingDeletes ic" by (simp add: pendingDeletes_def)
  ultimately show "disk_inv ?ic" using assms b by (simp add: disk_inv_def)
qed

lemma Sync_spec:
  assumes "coll_wf ic" "writeToDisk ic"
  shows "quiet ic (Sync ic)" and "dBWriteQueue (Sync ic) = []"
    and "db_synced (the (db_file (Sync ic))) = diskBytes ic" and "db_bytes (the (db_file (Sync ic))) = diskBytes ic"
proof -
  have inv: "disk_inv ic" using wfD(2) [OF assms(1)] assms(2) by (simp add: store_inv_def)
  let ?q = "ic\<lparr>dBWriteQueue := dBWriteQueue ic @ [FILE_BARRIER]\<rparr>" and ?n = "length (dBWriteQueue ic)"
  note b = disk_inv_barrier [OF inv]
  have run: "\<not> readOnly ic" "\<not> writerGone ic" "\<not> collection.closed ic" using inv by (simp_all add: disk_inv_def)
  then have eq: "Sync ic = (writerStep ^^ Suc ?n) ?q" using assms(2) by (simp add: Sync_def queueWrite_def)
  note w = writerSteps_spec [OF b(1), of ?n] and w' = writerSteps_spec [OF b(1), of "Suc ?n"]
  have last: "Sync ic = applyHead ((writerStep ^^ ?n) ?q)" using writerStep_healthy [OF w(1)] by (simp add: eq)
  have "dBWriteQueue ((writerStep ^^ ?n) ?q) = [FILE_BARRIER]" using w(3) by simp
  from applyHead_barrier_synced [OF w(1) this] w(2) b(2)
  show "dBWriteQueue (Sync ic) = []" "db_synced (the (db_file (Sync ic))) = diskBytes ic"
    "db_bytes (the (db_file (Sync ic))) = diskBytes ic" unfolding last by simp_all
  have st: "storage_step ic (Sync ic)" unfolding eq by (rule storage_step_trans [OF _ w'(4)]) simp
  have d: "diskBytes (Sync ic) = diskBytes ic" using w'(2) b(2) by (simp add: eq)
  have "writeToDisk (Sync ic)" using storage_step_writeToDisk [OF st] assms(2) by simp
  moreover have "disk_rec (Sync ic) = disk_rec ic" by (simp add: fun_eq_iff disk_rec_def d)
  ultimately have "reads ic (Sync ic)"
    using st d w'(1) assms(2) inv by (simp add: reads_def store_inv_def record_at_def fun_eq_iff eq)
  then show "quiet ic (Sync ic)" by (rule reads_quiet [OF assms(1)])
qed

section \<open>Examples\<close>

definition noFaults :: osFaults where
  "noFaults = \<lparr>mkdirErr = None, removeErr = None, statErr = None, lockOpenErr = None, flockAnswer = Granted,
     loadErr = None, sizeErr = None, openErr = None\<rparr>"

definition emptyWorld :: world where
  "emptyWorld = \<lparr>files = [], locks = [], faults = (\<lambda>_. noFaults)\<rparr>"

definition exampleKey :: CollectionKey where
  "exampleKey = \<lparr>Database = ''data'', Collection = ''music''\<rparr>"

lemma emptyWorld_simps [simp]:
  "healthyAt emptyWorld p" "fileAt emptyWorld = Map.empty" "locks emptyWorld = []" "faults emptyWorld = (\<lambda>_. noFaults)"
  by (simp_all add: emptyWorld_def healthyAt_def noFaults_def fileAt_def fun_eq_iff)

lemma NewDB_simps [simp]:
  "writing (NewDB True)" "db_blobPolicy (NewDB d) = None" "\<not> locking (NewDB d)"
  "lockFree (NewDB d) w p" "lt_Get (collections (NewDB d)) = Map.empty" "lt_inv (collections (NewDB d))"
  "collections (SetLocking b (NewDB d)) = collections (NewDB d)" "writing (SetLocking b (NewDB True))"
  "db_blobPolicy (SetLocking b (NewDB d)) = None" "locking (SetLocking b db) = b"
  by (simp_all add: NewDB_def writing_def lockFree_def SetLocking_def)

text \<open>A collection on disk with one triple.\<close>

definition oneOnDisk :: collection where
  "oneOnDisk = snd (Add ''song'' ''tag'' ''live'' (newDisk None None 0))"

lemma oneOnDisk_facts:
  "writable oneOnDisk" "writeToDisk oneOnDisk" "triples oneOnDisk = {trip ''song'' ''tag'' ''live''}"
  "blobPolicy oneOnDisk = None" "coll_wf oneOnDisk"
proof -
  let ?new = "newDisk None None 0"
  obtain e ic where a: "addLocked ''song'' ''tag'' ''live'' ?new = (e, ic)" by (metis surj_pair)
  have st: "storable3 ''song'' ''tag'' ''live''" by (simp add: storable3_def storable_def nul_free_end_def)
  have new: "writable ?new" "triples ?new = {}" "writeToDisk ?new" by (rule wf_newDisk, simp)+
  have "room (need3 ''song'' ''tag'' ''live'') ?new" by (rule wf_newDisk) (simp_all add: need3_def need_def)
  note ad = addLocked_trip [OF new(1) st this a]
  have eq: "oneOnDisk = ic" by (simp add: oneOnDisk_def Add_def a)
  show "writable oneOnDisk" unfolding eq by (rule writable_config [OF _ ad(2,4)]) (simp add: new)
  then show "coll_wf oneOnDisk" by (simp add: writable_def)
  show "writeToDisk oneOnDisk" "blobPolicy oneOnDisk = None"
    using ad(4) new(3) by (simp_all add: eq same_config_def) (simp add: newDisk_unfold)
  show "triples oneOnDisk = {trip ''song'' ''tag'' ''live''}" using ad(3) new(2) by (simp add: eq)
qed

end
