(* ===== verification/Single_Flight.thy ===== *)
theory Single_Flight
  imports Handle_Correct
begin

text \<open>
  Concurrent calls of \<open>TryGetCollection\<close> (\<^verbatim>\<open>tiedb/tietree.go\<close>): any number of goroutines, each between
  the critical sections of \<open>loadCollection\<close>, over one handle. The record \<open>pendingLoad\<close> of a load is
  named by a number; \<open>closing\<close> its channel makes its result readable. Shown: at most one
  goroutine loads a key, all callers that met one load get its result, and a drop that
  overtakes a load does not stop it from publishing the dropped data.
\<close>

section \<open>Goroutines and their steps\<close>

type_synonym loadResult = "collection \<times> tie_error option"

text \<open>Where a goroutine stands in its call; \<open>Done\<close> carries the load it took its answer from, if any.\<close>

datatype caller =
    Idle
  | Missed CollectionKey
  | Waiting CollectionKey nat
  | Loading CollectionKey nat
  | Loaded CollectionKey nat loadResult
  | Published CollectionKey nat loadResult
  | Done CollectionKey loadResult "nat option"

record flight =
  handle :: "TieTree \<times> world"
  pending :: "CollectionKey \<Rightarrow> nat option"
  pendingResult :: "nat \<Rightarrow> loadResult option"    \<comment> \<open>readable once \<open>ready\<close> is closed\<close>
  nextLoad :: nat
  callers :: "nat \<Rightarrow> caller"

definition put_collection :: "CollectionKey \<Rightarrow> collection \<Rightarrow> TieTree \<times> world \<Rightarrow> TieTree \<times> world" where
  "put_collection key col h = ((fst h)\<lparr>collections := lt_Put key col (collections (fst h))\<rparr>, snd h)"

inductive flight_step :: "flight \<Rightarrow> flight \<Rightarrow> bool" where
  fast: "callers s i = Idle \<Longrightarrow> collectionAt (handle s) key = Some col \<Longrightarrow>
    flight_step s (s\<lparr>callers := (callers s)(i := Done key (col, ioErr col) None)\<rparr>)"
| miss: "callers s i = Idle \<Longrightarrow> collectionAt (handle s) key = None \<Longrightarrow>
    flight_step s (s\<lparr>callers := (callers s)(i := Missed key)\<rparr>)"
| found: "callers s i = Missed key \<Longrightarrow> collectionAt (handle s) key = Some col \<Longrightarrow>
    flight_step s (s\<lparr>callers := (callers s)(i := Done key (col, ioErr col) None)\<rparr>)"
| join: "callers s i = Missed key \<Longrightarrow> collectionAt (handle s) key = None \<Longrightarrow> pending s key = Some p \<Longrightarrow>
    flight_step s (s\<lparr>callers := (callers s)(i := Waiting key p)\<rparr>)"
| start: "callers s i = Missed key \<Longrightarrow> collectionAt (handle s) key = None \<Longrightarrow> pending s key = None \<Longrightarrow>
    flight_step s (s\<lparr>callers := (callers s)(i := Loading key (nextLoad s)),
      pending := (pending s)(key \<mapsto> nextLoad s), nextLoad := nextLoad s + 1\<rparr>)"
| load: "callers s i = Loading key p \<Longrightarrow>
    initialize sched key False (fst (handle s)) (snd (handle s)) = Some (r, w) \<Longrightarrow>
    flight_step s (s\<lparr>callers := (callers s)(i := Loaded key p r), handle := (fst (handle s), w)\<rparr>)"
| publish: "callers s i = Loaded key p r \<Longrightarrow>
    flight_step s (s\<lparr>callers := (callers s)(i := Published key p r),
      handle := put_collection key (fst r) (handle s), pending := (pending s)(key := None)\<rparr>)"
| release: "callers s i = Published key p r \<Longrightarrow>
    flight_step s (s\<lparr>callers := (callers s)(i := Done key r (Some p)), pendingResult := (pendingResult s)(p \<mapsto> r)\<rparr>)"
| wake: "callers s i = Waiting key p \<Longrightarrow> pendingResult s p = Some r \<Longrightarrow>
    flight_step s (s\<lparr>callers := (callers s)(i := Done key r (Some p))\<rparr>)"

text \<open>\<open>DropCollection\<close> holds the mutex from its lookup to its end and does not look at \<open>pending\<close>.\<close>

inductive drop_step :: "CollectionKey \<Rightarrow> flight \<Rightarrow> flight \<Rightarrow> bool" where
  drop: "DropCollection key (handle s) = Some (e, h) \<Longrightarrow> drop_step key s (s\<lparr>handle := h\<rparr>)"

definition handle_step :: "flight \<Rightarrow> flight \<Rightarrow> bool" where
  "handle_step s s' \<longleftrightarrow> flight_step s s' \<or> (\<exists>key. drop_step key s s')"

definition newFlight :: "TieTree \<times> world \<Rightarrow> flight" where
  "newFlight h = \<lparr>handle = h, pending = (\<lambda>_. None), pendingResult = (\<lambda>_. None), nextLoad = 0, callers = (\<lambda>_. Idle)\<rparr>"

section \<open>The invariant\<close>

text \<open>The load a goroutine carries out, and its result once it has one.\<close>

fun loadOf :: "caller \<Rightarrow> (CollectionKey \<times> nat) option" where
  "loadOf (Loading key p) = Some (key, p)"
| "loadOf (Loaded key p r) = Some (key, p)"
| "loadOf _ = None"

fun ownerOf :: "caller \<Rightarrow> nat option" where
  "ownerOf (Loading key p) = Some p"
| "ownerOf (Loaded key p r) = Some p"
| "ownerOf (Published key p r) = Some p"
| "ownerOf _ = None"

text \<open>
  A running load is the pending one of its key; a load has one owner, a number below the counter, and
  no result yet; every pending load runs; a waiter's load has an owner or a result; and an answer
  taken from a load is its result.
\<close>

record loads_view =
  lv_load :: "nat \<Rightarrow> (CollectionKey \<times> nat) option"
  lv_owner :: "nat \<Rightarrow> nat option"

definition view_of :: "flight \<Rightarrow> loads_view" where
  "view_of s = \<lparr>lv_load = (\<lambda>i. loadOf (callers s i)), lv_owner = (\<lambda>i. ownerOf (callers s i))\<rparr>"

definition loads_inv :: "loads_view \<Rightarrow> (CollectionKey \<Rightarrow> nat option) \<Rightarrow> (nat \<Rightarrow> loadResult option) \<Rightarrow> nat \<Rightarrow> bool" where
  "loads_inv v pend res n \<longleftrightarrow>
     (\<forall>i key p. lv_load v i = Some (key, p) \<longrightarrow> pend key = Some p) \<and>
     (\<forall>i j p. lv_owner v i = Some p \<longrightarrow> lv_owner v j = Some p \<longrightarrow> i = j) \<and>
     (\<forall>i p. lv_owner v i = Some p \<longrightarrow> p < n \<and> res p = None) \<and>
     (\<forall>key p. pend key = Some p \<longrightarrow> (\<exists>i. lv_load v i = Some (key, p) \<and> lv_owner v i = Some p)) \<and>
     (\<forall>p. n \<le> p \<longrightarrow> res p = None)"

lemma loads_invD:
  assumes "loads_inv v pend res n"
  shows "lv_load v i = Some (key, p) \<Longrightarrow> pend key = Some p"
    and "lv_owner v i = Some p \<Longrightarrow> lv_owner v j = Some p \<Longrightarrow> i = j"
    and "lv_owner v i = Some p \<Longrightarrow> p < n \<and> res p = None"
  using assms unfolding loads_inv_def by blast+

definition answers_inv :: "flight \<Rightarrow> bool" where
  "answers_inv s \<longleftrightarrow>
     (\<forall>i key p. callers s i = Waiting key p \<longrightarrow> pendingResult s p \<noteq> None \<or> (\<exists>j. ownerOf (callers s j) = Some p)) \<and>
     (\<forall>i key r p. callers s i = Done key r (Some p) \<longrightarrow> pendingResult s p = Some r)"

definition flight_inv :: "flight \<Rightarrow> bool" where
  "flight_inv s \<longleftrightarrow> loads_inv (view_of s) (pending s) (pendingResult s) (nextLoad s) \<and> answers_inv s"

lemma flight_inv_new: "flight_inv (newFlight h)"
  by (simp add: flight_inv_def newFlight_def loads_inv_def answers_inv_def view_of_def)

lemma view_upd:
  "view_of (s\<lparr>callers := (callers s)(i := c)\<rparr>) =
     \<lparr>lv_load = (lv_load (view_of s))(i := loadOf c), lv_owner = (lv_owner (view_of s))(i := ownerOf c)\<rparr>"
  "view_of (s\<lparr>handle := h\<rparr>) = view_of s" "view_of (s\<lparr>pending := pd\<rparr>) = view_of s"
  "view_of (s\<lparr>pendingResult := pr\<rparr>) = view_of s" "view_of (s\<lparr>nextLoad := n\<rparr>) = view_of s"
  by (auto simp: view_of_def)

text \<open>A goroutine moves on without taking part in another load.\<close>

lemma caller_moves:
  assumes "flight_inv s" "loadOf c = loadOf (callers s i)" "ownerOf c = ownerOf (callers s i)"
    and "\<And>key p. c = Waiting key p \<Longrightarrow> pendingResult s p \<noteq> None \<or> (\<exists>j. ownerOf (callers s j) = Some p)"
    and "\<And>key r p. c = Done key r (Some p) \<Longrightarrow> pendingResult s p = Some r"
  shows "flight_inv (s\<lparr>callers := (callers s)(i := c), handle := h\<rparr>)" "flight_inv (s\<lparr>callers := (callers s)(i := c)\<rparr>)"
proof -
  have same: "loadOf (if j = i then c else callers s j) = loadOf (callers s j)"
    "ownerOf (if j = i then c else callers s j) = ownerOf (callers s j)" for j using assms(2,3) by simp_all
  have v: "view_of (s\<lparr>callers := (callers s)(i := c), handle := h\<rparr>) = view_of s"
    "view_of (s\<lparr>callers := (callers s)(i := c)\<rparr>) = view_of s"
    by (simp_all add: view_of_def same)
  have "answers_inv (s\<lparr>callers := (callers s)(i := c), handle := h\<rparr>)"
    using assms(1,4,5) by (simp add: flight_inv_def answers_inv_def same)
  then show "flight_inv (s\<lparr>callers := (callers s)(i := c), handle := h\<rparr>)" "flight_inv (s\<lparr>callers := (callers s)(i := c)\<rparr>)"
    using assms(1) v by (simp_all add: flight_inv_def answers_inv_def)
qed

lemma ownerOf_loadOf: "loadOf c = Some (key, p) \<Longrightarrow> ownerOf c = Some p"
  by (cases c) auto

lemma flight_step_inv: "flight_step s s' \<Longrightarrow> flight_inv s \<Longrightarrow> flight_inv s'"
proof (induction rule: flight_step.induct)
  case (join s i key p)
  then have "\<exists>j. ownerOf (callers s j) = Some p" unfolding flight_inv_def loads_inv_def view_of_def by auto blast
  with join show ?case by (intro caller_moves(2)) auto
next
  case (start s i key)
  have "loads_inv \<lparr>lv_load = (lv_load (view_of s))(i := Some (key, nextLoad s)), lv_owner = (lv_owner (view_of s))(i := Some (nextLoad s))\<rparr>
      ((pending s)(key \<mapsto> nextLoad s)) (pendingResult s) (nextLoad s + 1)"
  proof -
    have l: "loads_inv (view_of s) (pending s) (pendingResult s) (nextLoad s)" using start by (simp add: flight_inv_def)
    have free: "lv_owner (view_of s) i = None" using start by (simp add: view_of_def)
    show ?thesis using l free start(3) unfolding loads_inv_def by (auto simp: less_Suc_eq) (metis option.distinct(1))+
  qed
  moreover have "answers_inv (s\<lparr>callers := (callers s)(i := Loading key (nextLoad s)),
      pending := (pending s)(key \<mapsto> nextLoad s), nextLoad := nextLoad s + 1\<rparr>)"
    using start unfolding flight_inv_def answers_inv_def by (auto split: if_splits) (metis option.distinct(1) ownerOf.simps(4,5))+
  ultimately show ?case by (simp add: flight_inv_def view_upd)
next
  case (publish s i key p r)
  have l: "loads_inv (view_of s) (pending s) (pendingResult s) (nextLoad s)" using publish by (simp add: flight_inv_def)
  have own: "lv_load (view_of s) i = Some (key, p)" "lv_owner (view_of s) i = Some p" using publish by (simp_all add: view_of_def)
  have other: "j = i" if "lv_load (view_of s) j = Some (key, q)" for j q
  proof -
    have "q = p" using loads_invD(1) [OF l that] loads_invD(1) [OF l own(1)] by simp
    moreover have "lv_owner (view_of s) j = Some q" using that ownerOf_loadOf by (simp add: view_of_def)
    ultimately show ?thesis using loads_invD(2) [OF l _ own(2)] by simp
  qed
  have "loads_inv \<lparr>lv_load = (lv_load (view_of s))(i := None), lv_owner = (lv_owner (view_of s))(i := Some p)\<rparr>
      ((pending s)(key := None)) (pendingResult s) (nextLoad s)"
    (is "loads_inv ?v ?pend _ _")
  proof -
    have own': "lv_owner ?v = lv_owner (view_of s)" using own(2) by auto
    have "?pend key' = Some q" if "lv_load ?v j = Some (key', q)" for j key' q
      using that other [of j q] loads_invD(1) [OF l, of j key' q] by (auto split: if_splits)
    moreover have "\<exists>j. lv_load ?v j = Some (key', q) \<and> lv_owner ?v j = Some q" if q: "?pend key' = Some q" for key' q
    proof -
      have "key' \<noteq> key" "pending s key' = Some q" using q by (auto split: if_splits)
      then obtain j where j: "lv_load (view_of s) j = Some (key', q)" "lv_owner (view_of s) j = Some q"
        using l unfolding loads_inv_def by blast
      then have "j \<noteq> i" using own(1) \<open>key' \<noteq> key\<close> by auto
      with j show ?thesis by auto
    qed
    ultimately show ?thesis using l unfolding loads_inv_def own' by blast
  qed
  moreover have "answers_inv (s\<lparr>callers := (callers s)(i := Published key p r),
      handle := put_collection key (fst r) (handle s), pending := (pending s)(key := None)\<rparr>)"
  proof -
    have "ownerOf (if j = i then Published key p r else callers s j) = ownerOf (callers s j)" for j
      using publish(1) by simp
    then show ?thesis using publish by (simp add: flight_inv_def answers_inv_def)
  qed
  ultimately show ?case by (simp add: flight_inv_def view_upd)
next
  case (release s i key p r)
  have l: "loads_inv (view_of s) (pending s) (pendingResult s) (nextLoad s)" and a: "answers_inv s"
    using release by (simp_all add: flight_inv_def)
  have own: "lv_load (view_of s) i = None" "lv_owner (view_of s) i = Some p" using release by (simp_all add: view_of_def)
  have none: "pendingResult s p = None" "p < nextLoad s" using l own unfolding loads_inv_def by blast+
  have "loads_inv \<lparr>lv_load = (lv_load (view_of s))(i := None), lv_owner = (lv_owner (view_of s))(i := None)\<rparr>
      (pending s) ((pendingResult s)(p \<mapsto> r)) (nextLoad s)"
    (is "loads_inv ?v _ ?res _")
  proof -
    have q: "lv_owner (view_of s) j = Some q \<and> q \<noteq> p" if "lv_owner ?v j = Some q" for j q
      using that loads_invD(2) [OF l own(2), of j] by (auto split: if_splits)
    have "q < nextLoad s \<and> ?res q = None" if "lv_owner ?v j = Some q" for j q
      using q [OF that] loads_invD(3) [OF l, of j q] by simp
    moreover have "j = j'" if "lv_owner ?v j = Some q" "lv_owner ?v j' = Some q" for j j' q
      using q [OF that(1)] q [OF that(2)] loads_invD(2) [OF l] by blast
    moreover have "pending s key' = Some q" if "lv_load ?v j = Some (key', q)" for j key' q
      using that loads_invD(1) [OF l, of j key' q] by (auto split: if_splits)
    moreover have "\<exists>j. lv_load ?v j = Some (key', q) \<and> lv_owner ?v j = Some q" if "pending s key' = Some q" for key' q
    proof -
      obtain j where j: "lv_load (view_of s) j = Some (key', q)" "lv_owner (view_of s) j = Some q"
        using l \<open>pending s key' = Some q\<close> unfolding loads_inv_def by blast
      then have "j \<noteq> i" using own(1) by auto
      with j show ?thesis by auto
    qed
    moreover have "?res q = None" if "nextLoad s \<le> q" for q using that none(2) l unfolding loads_inv_def by auto
    ultimately show ?thesis unfolding loads_inv_def by blast
  qed
  moreover have "answers_inv (s\<lparr>callers := (callers s)(i := Done key r (Some p)), pendingResult := (pendingResult s)(p \<mapsto> r)\<rparr>)"
    (is "answers_inv ?s")
  proof -
    have own': "ownerOf (callers s i) = Some p" using release(1) by simp
    have "pendingResult ?s q \<noteq> None \<or> (\<exists>j. ownerOf (callers ?s j) = Some q)" if w: "callers ?s k = Waiting key' q" for k key' q
    proof (cases "q = p")
      case False
      have "callers s k = Waiting key' q" using w by (auto split: if_splits)
      then have "pendingResult s q \<noteq> None \<or> (\<exists>j. ownerOf (callers s j) = Some q)" using a unfolding answers_inv_def by blast
      moreover have "callers ?s j = callers s j" if "ownerOf (callers s j) = Some q" for j using that False own' by auto
      ultimately show ?thesis using False by (metis (no_types, lifting) fun_upd_apply flight.select_convs(3) flight.surjective flight.update_convs(3,5))
    qed simp
    moreover have "pendingResult ?s q = Some r'" if d: "callers ?s k = Done key' r' (Some q)" for k key' r' q
    proof (cases "k = i")
      case False
      then have "callers s k = Done key' r' (Some q)" using d by simp
      then have "pendingResult s q = Some r'" using a unfolding answers_inv_def by blast
      then show ?thesis using none(1) by auto
    qed (use d in auto)
    ultimately show ?thesis unfolding answers_inv_def by blast
  qed
  ultimately show ?case by (simp add: flight_inv_def view_upd)
next
  case (fast s i key col)
  then show ?case by (intro caller_moves(2)) simp_all
next
  case (miss s i key)
  then show ?case by (intro caller_moves(2)) simp_all
next
  case (found s i key col)
  then show ?case by (intro caller_moves(2)) simp_all
next
  case (load s i key p sched r w)
  then show ?case by (intro caller_moves(1)) simp_all
next
  case (wake s i key p r)
  then show ?case by (intro caller_moves(2)) auto
qed

lemma drop_step_inv: "drop_step key s s' \<Longrightarrow> flight_inv s \<Longrightarrow> flight_inv s'"
  by (induction rule: drop_step.induct) (simp add: flight_inv_def answers_inv_def view_upd)

lemma reachable_flight: "handle_step\<^sup>*\<^sup>* (newFlight h) s \<Longrightarrow> flight_inv s"
proof (induction rule: rtranclp_induct)
  case base
  show ?case by (rule flight_inv_new)
next
  case (step s s')
  then show ?case by (auto simp: handle_step_def intro: flight_step_inv drop_step_inv)
qed

section \<open>What callers can rely on\<close>

lemma one_loader:
  assumes "flight_inv s" "loadOf (callers s i) = Some (key, p)" "loadOf (callers s j) = Some (key, q)"
  shows "i = j" "p = q"
proof -
  have l: "loads_inv (view_of s) (pending s) (pendingResult s) (nextLoad s)" using assms(1) by (simp add: flight_inv_def)
  have "pending s key = Some p" "pending s key = Some q"
    using loads_invD(1) [OF l, of i key p] loads_invD(1) [OF l, of j key q] assms(2,3) by (simp_all add: view_of_def)
  then show pq: "p = q" by simp
  show "i = j"
    using loads_invD(2) [OF l, of i p j] ownerOf_loadOf [OF assms(2)] ownerOf_loadOf [OF assms(3)] pq by (simp add: view_of_def)
qed

lemma same_answer:
  assumes "flight_inv s" "callers s i = Done key r (Some p)" "callers s j = Done key' r' (Some p)"
  shows "r = r'"
proof -
  have "pendingResult s p = Some r" "pendingResult s p = Some r'"
    using assms unfolding flight_inv_def answers_inv_def by blast+
  then show ?thesis by simp
qed

text \<open>A waiter is never forgotten: its load still has an owner, or its answer is ready.\<close>

lemma waiter_served:
  assumes "flight_inv s" "callers s i = Waiting key p"
  shows "(\<exists>r. pendingResult s p = Some r) \<or> (\<exists>j. ownerOf (callers s j) = Some p)"
  using assms unfolding flight_inv_def answers_inv_def by blast

section \<open>A drop during a load\<close>

definition storedWorld :: world where
  "storedWorld = putFile (pathOf exampleKey) (diskBytes oneOnDisk) emptyWorld"

text \<open>A run: one caller misses, starts the load and reads the file; the load has not been published yet.\<close>

lemma run_to_loaded:
  obtains s ic where "handle_step\<^sup>*\<^sup>* (newFlight (NewDB True, storedWorld)) s" "callers s 0 = Loaded exampleKey 0 (ic, None)"
    "fst (handle s) = NewDB True" "faults (snd (handle s)) = (\<lambda>_. noFaults)" "triples ic = triples oneOnDisk"
proof -
  let ?s0 = "newFlight (NewDB True, storedWorld)"
  let ?s1 = "?s0\<lparr>callers := (callers ?s0)(0 := Missed exampleKey)\<rparr>"
  let ?s2 = "?s1\<lparr>callers := (callers ?s1)(0 := Loading exampleKey (nextLoad ?s1)),
      pending := (pending ?s1)(exampleKey \<mapsto> nextLoad ?s1), nextLoad := nextLoad ?s1 + 1\<rparr>"
  have 1: "flight_step ?s0 ?s1" by (rule flight_step.miss) (simp_all add: newFlight_def)
  have 2: "flight_step ?s1 ?s2" by (rule flight_step.start) (simp_all add: newFlight_def)
  have at: "fileAt storedWorld (pathOf exampleKey) = Some (diskBytes oneOnDisk @ [])" "healthyAt storedWorld (pathOf exampleKey)"
    by (simp_all add: storedWorld_def)
  have pol: "db_blobPolicy (NewDB True) = blobPolicy oneOnDisk" using oneOnDisk_facts(4) by simp
  obtain ic w where i: "initialize inFileOrder exampleKey False (NewDB True) storedWorld = Some ((ic, None), w)"
    "loads oneOnDisk (NewDB True) exampleKey storedWorld ic w"
    by (rule initialize_existing [OF oneOnDisk_facts(5,2) NewDB_simps(1) pol at(1) _ at(2) fair_inFileOrder NewDB_simps(4)])
      (simp add: ENTRY_SIZE_50)
  let ?s3 = "?s2\<lparr>callers := (callers ?s2)(0 := Loaded exampleKey 0 (ic, None)), handle := (fst (handle ?s2), w)\<rparr>"
  have 3: "flight_step ?s2 ?s3" by (rule flight_step.load [where sched = inFileOrder]) (simp_all add: newFlight_def i(1))
  have "handle_step\<^sup>*\<^sup>* ?s0 ?s3"
    using 1 2 3 by (meson handle_step_def rtranclp.rtrancl_into_rtrancl rtranclp.rtrancl_refl)
  moreover have "faults w = (\<lambda>_. noFaults)" "triples ic = triples oneOnDisk"
    using i(2) by (simp_all add: loads_def storedWorld_def)
  ultimately show thesis by (intro that [of ?s3 ic]) (simp_all add: newFlight_def)
qed

lemma drop_overtakes:
  assumes "callers s i = Loaded key p (ic, e)" "fst (handle s) = NewDB True" "faults (snd (handle s)) = (\<lambda>_. noFaults)"
  obtains s' s'' where "drop_step key s s'" "fileAt (snd (handle s')) (pathOf key) = None" "collectionAt (handle s') key = None"
    "flight_step s' s''" "collectionAt (handle s'') key = Some ic"
proof -
  let ?w = "(snd (handle s))\<lparr>files := AList.delete (pathOf key) (files (snd (handle s)))\<rparr>"
  have h: "handle s = (NewDB True, snd (handle s))" using assms(2) by (metis prod.collapse)
  have cfg: "\<not> db_readOnly (NewDB True)" "db_writeToDisk (NewDB True)" by (simp_all add: NewDB_def)
  have "DropCollection key (NewDB True, snd (handle s)) = Some (None, NewDB True, ?w)"
    using assms(3) cfg by (simp add: DropCollection_def removeFile_def noFaults_def Let_def)
  then have d: "drop_step key s (s\<lparr>handle := (NewDB True, ?w)\<rparr>)" using h by (intro drop_step.drop [of _ _ None]) simp
  let ?s = "s\<lparr>handle := (NewDB True, ?w)\<rparr>"
  have "flight_step ?s (?s\<lparr>callers := (callers ?s)(i := Published key p (ic, e)),
      handle := put_collection key (fst (ic, e)) (handle ?s), pending := (pending ?s)(key := None)\<rparr>)"
    by (rule flight_step.publish) (simp add: assms(1))
  note step = this
  have "collectionAt (put_collection key (fst (ic, e)) (handle ?s)) key = Some ic"
    unfolding put_collection_def fst_conv TieTree.simps lt_Get_Put by simp
  then show thesis using d step by (intro that [OF d _ _ step]) simp_all
qed

end
