(* ===== verification/Check_Index.thy ===== *)
theory Check_Index
  imports Query_Algebra
begin

text \<open>
  \<^verbatim>\<open>tiedb/checkindex.go\<close>: the cross-check of the forward and the reverse index, and its repair. The
  model passes the collection on, since a deep check reads records. What the check
  guarantees is shown in \<open>Check_Correct\<close>.
\<close>

section \<open>Data\<close>

record IndexCheckOptions =
  Deep :: bool
  Repair :: bool
  SampleLimit :: int

definition IndexMissingReverse :: string where "IndexMissingReverse = ''missing-reverse''"
definition IndexReverseOnly :: string where "IndexReverseOnly = ''reverse-only''"
definition IndexPositionMismatch :: string where "IndexPositionMismatch = ''position-mismatch''"
definition IndexMisresolved :: string where "IndexMisresolved = ''misresolved''"

lemmas index_kinds = IndexMissingReverse_def IndexReverseOnly_def IndexPositionMismatch_def IndexMisresolved_def

record IndexProblem =
  ip_Kind :: string
  ip_Key :: string
  ip_Value1 :: string
  ip_Value2 :: string
  ip_Position :: int

record IndexReport =
  ForwardEntries :: nat
  ReverseEntries :: nat
  MissingReverse :: nat
  ReverseOnly :: nat
  PositionMismatch :: nat
  Misresolved :: nat
  Repaired :: nat
  rep_Deep :: bool
  Samples :: "IndexProblem list"

definition Problems :: "IndexReport \<Rightarrow> nat" where
  "Problems r = MissingReverse r + ReverseOnly r + PositionMismatch r + Misresolved r"

text \<open>\<open>f_revSet\<close> is the address of the reverse set: its level and its entry id.\<close>

record indexFix =
  f_kind :: string
  f_level :: int
  f_subject :: u64
  f_v1 :: u64
  f_v1Level :: int
  f_v2 :: u64
  f_v2Level :: int
  f_pos :: int
  f_revKey :: UniqueAssociation
  f_revSet :: "int \<times> u64"

definition noFix :: indexFix where
  "noFix = \<lparr>f_kind = '''', f_level = 0, f_subject = 0, f_v1 = 0, f_v1Level = 0, f_v2 = 0,
     f_v2Level = 0, f_pos = 0, f_revKey = \<lparr>AssociateTo = 0, Relation = 0\<rparr>, f_revSet = (0, 0)\<rparr>"

section \<open>Operations\<close>

definition levelOf :: "collection \<Rightarrow> u64 \<Rightarrow> int option" where
  "levelOf ic i =
     (if hashEntry ic i \<noteq> None then Some HASH_LEVEL
      else map_option int (find (\<lambda>n. lt_Get (entries (levels ic ! n)) i \<noteq> None) [0..<length (levels ic)]))"

definition levelOr0 :: "collection \<Rightarrow> u64 \<Rightarrow> int" where
  "levelOr0 ic i = (case levelOf ic i of None \<Rightarrow> 0 | Some l \<Rightarrow> l)"

type_synonym levelTree = "int \<times> (u64, AssociationSet) lockedTree"

definition assocTrees ::
    "(entryLevel \<Rightarrow> (u64, AssociationSet) lockedTree) \<Rightarrow> (u64, AssociationSet) lockedTree option
       \<Rightarrow> collection \<Rightarrow> levelTree list" where
  "assocTrees pick hash ic =
     map (\<lambda>n. (int n, pick (levels ic ! n))) [0..<length (levels ic)] @
     (case hash of None \<Rightarrow> [] | Some t \<Rightarrow> [(HASH_LEVEL, t)])"

definition forwardTrees :: "collection \<Rightarrow> levelTree list" where
  "forwardTrees ic = assocTrees associations (hashAssociations ic) ic"

definition reverseTrees :: "collection \<Rightarrow> levelTree list" where
  "reverseTrees ic = assocTrees reverseAssociations (hashReverseAssociations ic) ic"

text \<open>The entries the nested \<open>ForEach\<close> of a pass hands to its callback.\<close>

type_synonym walked = "int \<times> u64 \<times> UniqueAssociation \<times> int"

definition walk :: "levelTree list \<Rightarrow> walked list" where
  "walk trees =
     concat (map (\<lambda>(level, tree). concat (map (\<lambda>(i, cur).
       map (\<lambda>(ua, pos). (level, i, ua, pos)) (as_ForEach cur)) (lt_ForEach tree))) trees)"

fun decimal :: "nat \<Rightarrow> string" where
  "decimal n = (if n < 10 then [char_of (48 + n)] else decimal (n div 10) @ [char_of (48 + n mod 10)])"

declare decimal.simps [simp del]

definition renderID :: "collection \<Rightarrow> int \<Rightarrow> u64 \<Rightarrow> string" where
  "renderID ic level i =
     (if level = HASH_LEVEL \<and> hashEntry ic i \<noteq> None then
        (case blobPolicy ic of Some p \<Rightarrow> Decode p (the (hashEntry ic i)) | None \<Rightarrow> '''')
      else if level \<noteq> HASH_LEVEL \<and> getUniqueValue ic level i \<noteq> None then getValueString ic level i
      else ''#'' @ decimal (unat i))"

definition sample ::
    "int \<Rightarrow> string \<Rightarrow> int \<Rightarrow> u64 \<Rightarrow> int \<Rightarrow> u64 \<Rightarrow> int \<Rightarrow> u64 \<Rightarrow> int \<Rightarrow> collection \<Rightarrow> IndexReport \<Rightarrow> IndexReport" where
  "sample limit kind level subject v1Level v1 v2Level v2 pos ic rep =
     (if int (length (Samples rep)) \<ge> limit then rep
      else rep\<lparr>Samples := Samples rep @ [\<lparr>ip_Kind = kind, ip_Key = renderID ic level subject,
        ip_Value1 = renderID ic v1Level v1, ip_Value2 = renderID ic v2Level v2, ip_Position = pos\<rparr>]\<rparr>)"

type_synonym checkState = "IndexReport \<times> indexFix list \<times> collection"

definition forwardEntry :: "IndexCheckOptions \<Rightarrow> int \<Rightarrow> walked \<Rightarrow> checkState \<Rightarrow> checkState" where
  "forwardEntry opts limit w st =
     (let (level, subject, ua, pos) = w; (rep, fixes, ic) = st;
          rep = rep\<lparr>ForwardEntries := ForwardEntries rep + 1\<rparr>;
          v1 = Relation ua; v2 = AssociateTo ua;
          v1Level = levelOr0 ic v1; v2Level = levelOr0 ic v2;
          misresolved = (\<lambda>ic. sample limit IndexMisresolved level subject v1Level v1 v2Level v2 pos ic
            (rep\<lparr>Misresolved := Misresolved rep + 1\<rparr>))
      in if levelOf ic v1 = None \<or> levelOf ic v2 = None then (misresolved ic, fixes, ic)
         else
           let t = \<lparr>t_Level = level, t_Key = subject, t_Value1Level = v1Level, t_Value1 = v1,
                    t_Value2Level = v2Level, t_Value2 = v2\<rparr>;
               (got, ic) = (if Deep opts then resolveTriple pos ic else (Some t, ic));
               bad = (case got of
                        None \<Rightarrow> True
                      | Some g \<Rightarrow> t_Level g \<noteq> level \<or> t_Key g \<noteq> subject \<or> t_Value1 g \<noteq> v1 \<or> t_Value2 g \<noteq> v2)
           in if bad then
                (misresolved ic,
                 if Repair opts then fixes @ [noFix\<lparr>f_kind := IndexMisresolved, f_level := level,
                   f_subject := subject, f_v1 := v1, f_v1Level := v1Level, f_v2 := v2,
                   f_v2Level := v2Level, f_pos := pos\<rparr>] else fixes, ic)
              else if \<not> shouldBuildReverse t ic then (rep, fixes, ic)
              else
                let revKey = \<lparr>AssociateTo = subject, Relation = v1\<rparr>;
                    fix' = (\<lambda>kind. if Repair opts then fixes @ [noFix\<lparr>f_kind := kind, f_v2 := v2,
                      f_v2Level := v2Level, f_revKey := revKey, f_pos := pos\<rparr>] else fixes)
                in case as_Get (getReverseAssociations ic v2Level v2) revKey of
                     None \<Rightarrow>
                       (sample limit IndexMissingReverse level subject v1Level v1 v2Level v2 pos ic
                          (rep\<lparr>MissingReverse := MissingReverse rep + 1\<rparr>), fix' IndexMissingReverse, ic)
                   | Some rpos \<Rightarrow>
                       if rpos \<noteq> pos then
                         (sample limit IndexPositionMismatch level subject v1Level v1 v2Level v2 pos ic
                            (rep\<lparr>PositionMismatch := PositionMismatch rep + 1\<rparr>), fix' IndexPositionMismatch, ic)
                       else (rep, fixes, ic))"

definition reverseEntry :: "IndexCheckOptions \<Rightarrow> int \<Rightarrow> walked \<Rightarrow> checkState \<Rightarrow> checkState" where
  "reverseEntry opts limit w st =
     (let (v2Level, v2, ua, pos) = w; (rep, fixes, ic) = st;
          rep = rep\<lparr>ReverseEntries := ReverseEntries rep + 1\<rparr>;
          subject = AssociateTo ua; v1 = Relation ua
      in if (case levelOf ic subject of
               None \<Rightarrow> False
             | Some subjLevel \<Rightarrow>
                 as_Get (getAssociations ic subjLevel subject) \<lparr>AssociateTo = v2, Relation = v1\<rparr> \<noteq> None)
         then (rep, fixes, ic)
         else
           (sample limit IndexReverseOnly (levelOr0 ic subject) subject (levelOr0 ic v1) v1 v2Level v2 pos ic
              (rep\<lparr>ReverseOnly := ReverseOnly rep + 1\<rparr>),
            if Repair opts then fixes @ [noFix\<lparr>f_kind := IndexReverseOnly, f_revSet := (v2Level, v2),
              f_revKey := ua\<rparr>] else fixes, ic))"

definition rewriteAssociation :: "indexFix \<Rightarrow> collection \<Rightarrow> collection" where
  "rewriteAssociation f ic =
     (let t = \<lparr>t_Level = f_level f, t_Key = f_subject f, t_Value1Level = f_v1Level f, t_Value1 = f_v1 f,
               t_Value2Level = f_v2Level f, t_Value2 = f_v2 f\<rparr>;
          (pos, ic) = (if writeToDisk ic
                       then let (pos, ic) = allocSlot ic in (pos, cacheEvict (f_pos f) ic)
                       else arenaStore t ic);
          ic = updAssociationsTree (f_level f)
                 (putAssoc (f_subject f) \<lparr>AssociateTo = f_v2 f, Relation = f_v1 f\<rparr> pos) ic;
          ic = (if shouldBuildReverse t ic
                then updReverseAssociationsTree (f_v2Level f)
                       (putAssoc (f_v2 f) \<lparr>AssociateTo = f_subject f, Relation = f_v1 f\<rparr> pos) ic
                else ic)
      in if writeToDisk ic then snd (queueWrite (FILE_ADD pos (AssociationRecord t)) ic) else ic)"

text \<open>One deferred repair; a missing tree skips it and it is not counted.\<close>

definition applyFix :: "indexFix \<Rightarrow> nat \<times> collection \<Rightarrow> nat \<times> collection" where
  "applyFix f st =
     (let (repaired, ic) = st
      in if f_kind f \<in> {IndexMissingReverse, IndexPositionMismatch} then
           (case reverseAssociationsTree ic (f_v2Level f) of
              None \<Rightarrow> (repaired, ic)
            | Some _ \<Rightarrow>
                (repaired + 1,
                 updReverseAssociationsTree (f_v2Level f) (putAssoc (f_v2 f) (f_revKey f) (f_pos f)) ic))
         else if f_kind f = IndexReverseOnly then
           (repaired + 1,
            updReverseAssociationsTree (fst (f_revSet f))
              (updStored (snd (f_revSet f)) (as_Delete (f_revKey f))) ic)
         else (repaired + 1, rewriteAssociation f ic))"

definition CheckIndex :: "IndexCheckOptions \<Rightarrow> collection \<Rightarrow> IndexReport \<times> collection" where
  "CheckIndex opts ic =
     (let opts = (if readOnly ic then opts\<lparr>Repair := False\<rparr> else opts);
          limit = (if SampleLimit opts \<le> 0 then 50 else SampleLimit opts);
          rep = \<lparr>ForwardEntries = 0, ReverseEntries = 0, MissingReverse = 0, ReverseOnly = 0,
                 PositionMismatch = 0, Misresolved = 0, Repaired = 0, rep_Deep = Deep opts, Samples = []\<rparr>;
          st = fold (forwardEntry opts limit) (walk (forwardTrees ic)) (rep, [], ic);
          (rep, fixes, ic) = fold (reverseEntry opts limit) (walk (reverseTrees (snd (snd st)))) st;
          (repaired, ic) = fold applyFix fixes (0, ic)
      in (rep\<lparr>Repaired := repaired\<rparr>,
          if repaired > 0 then ic\<lparr>searchGen := searchGen ic + 1\<rparr> else ic))"


section \<open>Walking the trees\<close>

lemma levelOf_idAt:
  assumes "trie_wf ic" "idAt ic l i"
  shows "levelOf ic i = Some l" and "levelOr0 ic i = l"
proof -
  have "levelOf ic i = Some l"
  proof (cases "l = HASH_LEVEL")
    case True
    with assms(2) show ?thesis by (simp add: idAt_def levelOf_def)
  next
    case False
    then have g: "getUniqueValue ic l i \<noteq> None" using assms(2) by (simp add: idAt_def)
    have h: "hashEntry ic i = None"
      using g trie_wfD(5) [OF assms(1), of i] by (cases "hashEntry ic i") (auto simp: hash_ok_def)
    let ?P = "\<lambda>n. lt_Get (entries (levels ic ! n)) i \<noteq> None"
    have l: "0 \<le> l" "l < int (length (levels ic))" "?P (nat l)"
      using g by (auto simp: getUniqueValue_def levelAt_def split: if_splits)
    have u: "n = nat l" if "n < length (levels ic)" "?P n" for n
    proof -
      have "getUniqueValue ic (int n) i \<noteq> None" using that by (simp add: getUniqueValue_def levelAt_def)
      then show ?thesis using trie_wfD(3) [OF assms(1) _ g, of "int n"] by simp
    qed
    have "nat l < length (levels ic)" using l by linarith
    then obtain n where n: "find ?P [0..<length (levels ic)] = Some n"
      using l(3) by (cases "find ?P [0..<length (levels ic)]") (auto simp: find_None_iff)
    then have "n < length (levels ic)" "?P n" by (auto simp: find_Some_iff)
    then have "n = nat l" by (rule u)
    with n l(1) h show ?thesis by (simp add: levelOf_def)
  qed
  then show "levelOf ic i = Some l" "levelOr0 ic i = l" by (simp_all add: levelOr0_def)
qed

definition treesAt :: "(int \<Rightarrow> (u64, AssociationSet) lockedTree option) \<Rightarrow> int list \<Rightarrow> levelTree list" where
  "treesAt tr ls = map (\<lambda>l. (l, the (tr l))) ls"

definition reverseLevels :: "collection \<Rightarrow> int list" where
  "reverseLevels ic =
     map int [0..<length (levels ic)] @ (case hashReverseAssociations ic of None \<Rightarrow> [] | Some _ \<Rightarrow> [HASH_LEVEL])"

lemma trees_levels:
  "forwardTrees ic = treesAt (associationsTree ic) (forestLevels ic)"
  "reverseTrees ic = treesAt (reverseAssociationsTree ic) (reverseLevels ic)"
  by (auto simp: forwardTrees_def reverseTrees_def assocTrees_def treesAt_def forestLevels_def
      reverseLevels_def associationsTree_def reverseAssociationsTree_def levelAt_def HASH_LEVEL_def
      split: option.splits)

lemma reverseLevels_spec:
  "distinct (reverseLevels ic)" "l \<in> set (reverseLevels ic) \<longleftrightarrow> reverseAssociationsTree ic l \<noteq> None"
  "l \<in> set (forestLevels ic) \<longleftrightarrow> associationsTree ic l \<noteq> None"
proof -
  show "distinct (reverseLevels ic)"
    by (auto simp: reverseLevels_def HASH_LEVEL_def distinct_map inj_on_def split: option.splits)
  have n: "l \<in> int ` {0..<n} \<longleftrightarrow> 0 \<le> l \<and> l < int n" for n
    by (simp add: image_int_atLeastLessThan)
  show "l \<in> set (reverseLevels ic) \<longleftrightarrow> reverseAssociationsTree ic l \<noteq> None"
    "l \<in> set (forestLevels ic) \<longleftrightarrow> associationsTree ic l \<noteq> None"
    using n [of "length (levels ic)"]
    by (cases "hashReverseAssociations ic"; cases "hashAssociations ic";
        simp add: reverseLevels_def forestLevels_def reverseAssociationsTree_def associationsTree_def
        levelAt_def HASH_LEVEL_def)+
qed

lemma walk_spec:
  assumes "distinct ls" "\<And>l. l \<in> set ls \<Longrightarrow> \<exists>t. tr l = Some t \<and> lt_inv t"
    and "\<And>l t i s. tr l = Some t \<Longrightarrow> lt_Get t i = Some s \<Longrightarrow> as_inv s"
  shows "distinct (walk (treesAt tr ls))"
    and "(l, i, ua, p) \<in> set (walk (treesAt tr ls)) \<longleftrightarrow>
      l \<in> set ls \<and> (\<exists>t s. tr l = Some t \<and> lt_Get t i = Some s \<and> as_Get s ua = Some p)"
proof -
  let ?f = "\<lambda>l (i, cur). map (\<lambda>(ua, pos). (l :: int, i :: u64, ua, pos :: int)) (as_ForEach cur)"
  have unf: "walk (treesAt tr ls) = concat (map (\<lambda>l. concat (map (?f l) (lt_ForEach (the (tr l))))) ls)"
    unfolding walk_def treesAt_def by (simp add: comp_def)
  have ent: "(i, s) \<in> set (lt_ForEach t) \<longleftrightarrow> lt_Get t i = Some s" if "lt_inv t" for i s t
    by (rule lt.entries_iff [OF that])
  show "(l, i, ua, p) \<in> set (walk (treesAt tr ls)) \<longleftrightarrow>
      l \<in> set ls \<and> (\<exists>t s. tr l = Some t \<and> lt_Get t i = Some s \<and> as_Get s ua = Some p)"
  proof -
    have "(l, i, ua, p) \<in> set (walk (treesAt tr ls)) \<longleftrightarrow>
        l \<in> set ls \<and> (\<exists>s. (i, s) \<in> set (lt_ForEach (the (tr l))) \<and> (ua, p) \<in> set (as_ForEach s))"
      unfolding unf by force
    also have "\<dots> \<longleftrightarrow> l \<in> set ls \<and> (\<exists>t s. tr l = Some t \<and> lt_Get t i = Some s \<and> as_Get s ua = Some p)"
      using assms(2) [of l] assms(3) [of l] ent as.entries_iff by (metis option.sel)
    finally show ?thesis .
  qed
  show "distinct (walk (treesAt tr ls))"
    unfolding unf
  proof (rule distinct_concat_by [OF assms(1), where g = fst])
    fix l
    assume "l \<in> set ls"
    then obtain t where t: "tr l = Some t" "lt_inv t" using assms(2) by blast
    show "distinct (concat (map (?f l) (lt_ForEach (the (tr l)))))"
      unfolding t(1) option.sel
    proof (rule distinct_concat_by [where g = "\<lambda>x. (fst (snd x), the (lt_Get t (fst (snd x))))"])
      show "distinct (lt_ForEach t)" using lt.distinct_entries [OF t(2)] by (simp add: distinct_map)
      fix e
      assume "e \<in> set (lt_ForEach t)"
      then have e: "lt_Get t (fst e) = Some (snd e)" using ent [OF t(2), of "fst e" "snd e"] by simp
      have "distinct (as_ForEach (snd e))"
        using as.distinct_entries [OF assms(3) [OF t(1) e]] by (simp add: distinct_map)
      then show "distinct (?f l e)"
        by (cases e) (auto simp: distinct_map inj_on_def)
      show "(fst (snd x), the (lt_Get t (fst (snd x)))) = e" if "x \<in> set (?f l e)" for x
        using that e by (cases e) auto
    qed
    show "fst x = l" if "x \<in> set (concat (map (?f l) (lt_ForEach (the (tr l)))))" for x
      using that by auto
  qed
qed

end
