(* ===== verification/Check_Correct.thy ===== *)
theory Check_Correct
  imports Check_Index
begin

text \<open>
  What the index check guarantees: a well-formed collection has no problem, and a repair makes any
  damaged reverse index agree with the forward one again.
\<close>

section \<open>The entries of the two passes\<close>

text \<open>Everything of a well-formed collection but the reverse index.\<close>

definition fwd_wf :: "collection \<Rightarrow> bool" where
  "fwd_wf ic \<longleftrightarrow>
     trie_wf ic \<and> store_inv ic \<and> persisted ic \<and> sets_ok ic \<and>
     (\<forall>p t. record_at ic p = Some t \<longrightarrow> triple_named ic t) \<and>
     (\<forall>l k v1 v2 p. fwd ic l k v1 v2 = Some p \<longleftrightarrow>
        (\<exists>t. record_at ic p = Some t \<and> t_Level t = l \<and> t_Key t = k \<and> t_Value1 t = v1 \<and> t_Value2 t = v2))"

definition bwd_wf :: "collection \<Rightarrow> bool" where
  "bwd_wf ic \<longleftrightarrow>
     (\<forall>l v2 v1 k p. bwd ic l v2 v1 k = Some p \<longleftrightarrow>
        (\<exists>t. record_at ic p = Some t \<and> t_Value2Level t = l \<and> t_Value2 t = v2 \<and> t_Value1 t = v1 \<and>
             t_Key t = k \<and> shouldBuildReverse t ic))"

lemma coll_wf_iff: "coll_wf ic \<longleftrightarrow> fwd_wf ic \<and> bwd_wf ic"
  unfolding coll_wf_def idx_wf_def fwd_wf_def bwd_wf_def by blast

lemma fwd_wfD:
  assumes "fwd_wf ic"
  shows "trie_wf ic" "sets_ok ic" "record_at ic p = Some t \<Longrightarrow> triple_named ic t"
    "fwd ic l k v1 v2 = Some p \<longleftrightarrow>
      (\<exists>t. record_at ic p = Some t \<and> t_Level t = l \<and> t_Key t = k \<and> t_Value1 t = v1 \<and> t_Value2 t = v2)"
  using assms unfolding fwd_wf_def by blast+

lemma tree_get_forward: "(\<exists>t s. associationsTree ic l = Some t \<and> lt_Get t i = Some s \<and> as_Get s ua = Some p) \<longleftrightarrow>
    fwd ic l i (Relation ua) (AssociateTo ua) = Some p"
  by (auto simp: fwd_def getAssociations_def ua_eqI split: option.splits)

lemma tree_get_reverse: "(\<exists>t s. reverseAssociationsTree ic l = Some t \<and> lt_Get t i = Some s \<and> as_Get s ua = Some p) \<longleftrightarrow>
    bwd ic l i (Relation ua) (AssociateTo ua) = Some p"
  by (auto simp: bwd_def getReverseAssociations_def ua_eqI split: option.splits)

lemma walk_trees:
  assumes "sets_ok ic"
  shows "distinct (walk (forwardTrees ic))" "distinct (walk (reverseTrees ic))"
    "(l, i, ua, p) \<in> set (walk (forwardTrees ic)) \<longleftrightarrow> fwd ic l i (Relation ua) (AssociateTo ua) = Some p"
    "(l, i, ua, p) \<in> set (walk (reverseTrees ic)) \<longleftrightarrow> bwd ic l i (Relation ua) (AssociateTo ua) = Some p"
proof -
  have inv: "as_inv s" if "associationsTree ic l = Some t" "lt_Get t i = Some s" for l t i s
  proof -
    have "getAssociations ic l i = s" using that by (simp add: getAssociations_def)
    then show ?thesis using assms by (auto simp: sets_ok_def)
  qed
  have inv': "as_inv s" if "reverseAssociationsTree ic l = Some t" "lt_Get t i = Some s" for l t i s
  proof -
    have "getReverseAssociations ic l i = s" using that by (simp add: getReverseAssociations_def)
    then show ?thesis using assms by (auto simp: sets_ok_def)
  qed
  have tr: "\<exists>t. associationsTree ic l = Some t \<and> lt_inv t" if "l \<in> set (forestLevels ic)" for l
    using that assms reverseLevels_spec(3) [of l ic] by (auto simp: sets_ok_def)
  have tr': "\<exists>t. reverseAssociationsTree ic l = Some t \<and> lt_inv t" if "l \<in> set (reverseLevels ic)" for l
    using that assms reverseLevels_spec(2) [of l ic] by (auto simp: sets_ok_def)
  have f: "distinct (walk (forwardTrees ic))" "(l, i, ua, p) \<in> set (walk (forwardTrees ic)) \<longleftrightarrow>
      l \<in> set (forestLevels ic) \<and> (\<exists>t s. associationsTree ic l = Some t \<and> lt_Get t i = Some s \<and> as_Get s ua = Some p)"
    unfolding trees_levels by (rule walk_spec [OF forestLevels_spec(1)], erule tr, erule inv, assumption)+
  have b: "distinct (walk (reverseTrees ic))" "(l, i, ua, p) \<in> set (walk (reverseTrees ic)) \<longleftrightarrow>
      l \<in> set (reverseLevels ic) \<and> (\<exists>t s. reverseAssociationsTree ic l = Some t \<and> lt_Get t i = Some s \<and> as_Get s ua = Some p)"
    unfolding trees_levels by (rule walk_spec [OF reverseLevels_spec(1)], erule tr', erule inv', assumption)+
  show "distinct (walk (forwardTrees ic))" "distinct (walk (reverseTrees ic))" by (rule f(1), rule b(1))
  show "(l, i, ua, p) \<in> set (walk (forwardTrees ic)) \<longleftrightarrow> fwd ic l i (Relation ua) (AssociateTo ua) = Some p"
    unfolding f(2) tree_get_forward [symmetric] using reverseLevels_spec(3) [of l ic] by auto
  show "(l, i, ua, p) \<in> set (walk (reverseTrees ic)) \<longleftrightarrow> bwd ic l i (Relation ua) (AssociateTo ua) = Some p"
    unfolding b(2) tree_get_reverse [symmetric] using reverseLevels_spec(2) [of l ic] by auto
qed

text \<open>The triple the forward pass rebuilds from an entry.\<close>

definition entryTriple :: "collection \<Rightarrow> int \<Rightarrow> u64 \<Rightarrow> UniqueAssociation \<Rightarrow> Triple" where
  "entryTriple ic l k ua =
     \<lparr>t_Level = l, t_Key = k, t_Value1Level = levelOr0 ic (Relation ua), t_Value1 = Relation ua,
      t_Value2Level = levelOr0 ic (AssociateTo ua), t_Value2 = AssociateTo ua\<rparr>"

lemma forward_entry_triple:
  assumes "fwd_wf ic" "fwd ic l k (Relation ua) (AssociateTo ua) = Some p"
  shows "record_at ic p = Some (entryTriple ic l k ua)" "levelOf ic (Relation ua) \<noteq> None" "levelOf ic (AssociateTo ua) \<noteq> None"
    "levelOf ic k = Some l"
proof -
  obtain t where t: "record_at ic p = Some t" "t_Level t = l" "t_Key t = k" "t_Value1 t = Relation ua" "t_Value2 t = AssociateTo ua"
    using fwd_wfD(4) [OF assms(1)] assms(2) by blast
  have n: "named ic l k" "named ic (t_Value1Level t) (Relation ua)" "named ic (t_Value2Level t) (AssociateTo ua)"
    using fwd_wfD(3) [OF assms(1) t(1)] t by (auto simp: triple_named_def)
  note at = levelOf_idAt [OF fwd_wfD(1) [OF assms(1)] named_idAt [OF fwd_wfD(1) [OF assms(1)]]]
  have "t = entryTriple ic l k ua" using t at(2) [OF n(2)] at(2) [OF n(3)] by (intro Triple.equality) (simp_all add: entryTriple_def)
  with t(1) at(1) [OF n(1)] at(1) [OF n(2)] at(1) [OF n(3)]
  show "record_at ic p = Some (entryTriple ic l k ua)" "levelOf ic (Relation ua) \<noteq> None" "levelOf ic (AssociateTo ua) \<noteq> None"
    "levelOf ic k = Some l" by simp_all
qed

section \<open>A well-formed collection has no problem\<close>

lemma levelOf_quiet:
  assumes "coll_wf ic" "quiet ic ic'" "idAt ic l i"
  shows "levelOf ic' i = levelOf ic i" "levelOr0 ic' i = levelOr0 ic i"
proof -
  have "idAt ic' l i" using assms(2,3) by (simp add: idAt_def quiet_def same_trie_def)
  from levelOf_idAt [OF wfD(1) [OF quietD(1) [OF assms(1,2)]] this] levelOf_idAt [OF wfD(1) [OF assms(1)] assms(3)]
  show "levelOf ic' i = levelOf ic i" "levelOr0 ic' i = levelOr0 ic i" by simp_all
qed

lemma forwardEntry_healthy:
  assumes "coll_wf ic" "fwd ic l k (Relation ua) (AssociateTo ua) = Some p"
  obtains ic' where "quiet ic ic'"
    "forwardEntry opts limit (l, k, ua, p) (rep, fixes, ic) = (rep\<lparr>ForwardEntries := ForwardEntries rep + 1\<rparr>, fixes, ic')"
proof -
  have w: "fwd_wf ic" "bwd_wf ic" using assms(1) by (simp_all add: coll_wf_iff)
  note t = forward_entry_triple [OF w(1) assms(2)]
  let ?t = "entryTriple ic l k ua"
  obtain ic' where q: "quiet ic ic'" "(if Deep opts then resolveTriple p ic else (Some ?t, ic)) = (Some ?t, ic')"
    using resolveTriple_spec [OF wfD(2) [OF assms(1)] t(1)] reads_quiet [OF assms(1)] quiet_refl [OF assms(1)]
    by (metis (full_types))
  note q' = quietD [OF assms(1) q(1)]
  have b: "as_Get (getReverseAssociations ic' (t_Value2Level ?t) (AssociateTo ua)) \<lparr>AssociateTo = k, Relation = Relation ua\<rparr> = Some p"
    if "shouldBuildReverse ?t ic'"
  proof -
    have "bwd ic (t_Value2Level ?t) (t_Value2 ?t) (t_Value1 ?t) (t_Key ?t) = Some p"
      using w(2) t(1) that shouldBuildReverse_string [of ?t ic'] shouldBuildReverse_string [of ?t ic] q'(10,11)
      unfolding bwd_wf_def by (auto simp: reverseIndexed_def same_config_def)
    then show ?thesis using q'(7) by (simp add: bwd_def entryTriple_def)
  qed
  have "forwardEntry opts limit (l, k, ua, p) (rep, fixes, ic) = (rep\<lparr>ForwardEntries := ForwardEntries rep + 1\<rparr>, fixes, ic')"
    using t(2,3) q(2) b by (cases "shouldBuildReverse ?t ic'") (auto simp: forwardEntry_def Let_def entryTriple_def)
  with q(1) that show thesis by blast
qed

lemma reverseEntry_healthy:
  assumes "coll_wf ic" "bwd ic l v (Relation ua) (AssociateTo ua) = Some p"
  shows "reverseEntry opts limit (l, v, ua, p) (rep, fixes, ic) = (rep\<lparr>ReverseEntries := ReverseEntries rep + 1\<rparr>, fixes, ic)"
proof -
  obtain t where t: "record_at ic p = Some t" "t_Value2 t = v" "t_Value1 t = Relation ua" "t_Key t = AssociateTo ua"
    using assms unfolding coll_wf_iff bwd_wf_def by blast
  have w: "fwd_wf ic" using assms(1) by (simp add: coll_wf_iff)
  have f: "fwd ic (t_Level t) (AssociateTo ua) (Relation ua) v = Some p" using fwd_wfD(4) [OF w] t by auto
  have "levelOf ic (AssociateTo ua) = Some (t_Level t)"
    using forward_entry_triple(4) [OF w, of "t_Level t" "AssociateTo ua" "\<lparr>AssociateTo = v, Relation = Relation ua\<rparr>" p] f by simp
  then show ?thesis using f by (simp add: reverseEntry_def Let_def fwd_def)
qed

lemma forwardPass_healthy:
  assumes "coll_wf ic" "\<And>l k ua p. (l, k, ua, p) \<in> set ws \<Longrightarrow> fwd ic l k (Relation ua) (AssociateTo ua) = Some p"
  shows "\<exists>ic'. quiet ic ic' \<and> fold (forwardEntry opts limit) ws (rep, fixes, ic) =
    (rep\<lparr>ForwardEntries := ForwardEntries rep + length ws\<rparr>, fixes, ic')"
  using assms
proof (induction ws arbitrary: rep ic)
  case Nil
  then show ?case by (intro exI [of _ ic]) (simp add: quiet_refl)
next
  case (Cons w ws)
  obtain l k ua p where w: "w = (l, k, ua, p)" by (metis surj_pair)
  have f: "fwd ic l k (Relation ua) (AssociateTo ua) = Some p" using Cons.prems(2) w by simp
  obtain ic1 where s: "quiet ic ic1"
    "forwardEntry opts limit (l, k, ua, p) (rep, fixes, ic) = (rep\<lparr>ForwardEntries := ForwardEntries rep + 1\<rparr>, fixes, ic1)"
    by (rule forwardEntry_healthy [OF Cons.prems(1) f])
  note q = quietD [OF Cons.prems(1) s(1)]
  obtain ic2 where "quiet ic1 ic2" "fold (forwardEntry opts limit) ws (rep\<lparr>ForwardEntries := ForwardEntries rep + 1\<rparr>, fixes, ic1) =
      (rep\<lparr>ForwardEntries := ForwardEntries rep + 1 + length ws\<rparr>, fixes, ic2)"
    using Cons.IH [OF q(1), of "rep\<lparr>ForwardEntries := ForwardEntries rep + 1\<rparr>"] Cons.prems(2) q(3) by auto
  with s w quiet_trans [OF s(1)] show ?case by (auto intro!: exI [of _ ic2])
qed

lemma reversePass_healthy:
  assumes "coll_wf ic" "\<And>l k ua p. (l, k, ua, p) \<in> set ws \<Longrightarrow> bwd ic l k (Relation ua) (AssociateTo ua) = Some p"
  shows "fold (reverseEntry opts limit) ws (rep, fixes, ic) = (rep\<lparr>ReverseEntries := ReverseEntries rep + length ws\<rparr>, fixes, ic)"
  using assms(2)
proof (induction ws arbitrary: rep)
  case (Cons w ws)
  obtain l k ua p where w: "w = (l, k, ua, p)" by (metis surj_pair)
  show ?case using Cons reverseEntry_healthy [OF assms(1), of l k ua p] w by simp
qed simp

text \<open>Each stored triple has one entry in the forward trees, each indexed one has one in the reverse trees.\<close>

lemma length_walk:
  assumes wf: "coll_wf ic" and d: "distinct ws"
    and ws: "\<And>w p. w \<in> set ws \<and> snd (snd (snd w)) = p \<longleftrightarrow> (\<exists>t. record_at ic p = Some t \<and> P t \<and> w = f t p)"
    and f: "\<And>t p. snd (snd (snd (f t p))) = p"
  shows "length ws = card {st. \<exists>p t. record_at ic p = Some t \<and> P t \<and> st = makeStringTriple ic t}"
proof -
  let ?g = "\<lambda>w. makeStringTriple ic (the (record_at ic (snd (snd (snd w)))))"
  have inj: "inj_on ?g (set ws)"
  proof (rule inj_onI)
    fix w w'
    assume "w \<in> set ws" "w' \<in> set ws" and eq: "?g w = ?g w'"
    then obtain p t p' t' where t: "record_at ic p = Some t" "w = f t p" "record_at ic p' = Some t'" "w' = f t' p'"
      using ws by metis
    have "t = t'"
      using eq t f makeStringTriple_inject [OF wfD(1) [OF wf]] idx_wfD(2) [OF wfD(3) [OF wf]] by (metis option.sel)
    with t record_inj [OF wf] show "w = w'" by metis
  qed
  have img: "?g ` set ws = {st. \<exists>p t. record_at ic p = Some t \<and> P t \<and> st = makeStringTriple ic t}"
  proof (intro set_eqI iffI)
    fix st
    assume "st \<in> ?g ` set ws"
    then obtain w where w: "w \<in> set ws" "st = ?g w" by blast
    then obtain t where "record_at ic (snd (snd (snd w))) = Some t" "P t" using ws by blast
    with w(2) show "st \<in> {st. \<exists>p t. record_at ic p = Some t \<and> P t \<and> st = makeStringTriple ic t}"
      by (metis (mono_tags, lifting) mem_Collect_eq option.sel)
  next
    fix st
    assume "st \<in> {st. \<exists>p t. record_at ic p = Some t \<and> P t \<and> st = makeStringTriple ic t}"
    then obtain p t where t: "record_at ic p = Some t" "P t" "st = makeStringTriple ic t" by blast
    have "f t p \<in> set ws" using ws [of "f t p" p] t f by blast
    moreover have "st = ?g (f t p)" using t(1,3) by (simp add: f)
    ultimately show "st \<in> ?g ` set ws" by blast
  qed
  have "card {st. \<exists>p t. record_at ic p = Some t \<and> P t \<and> st = makeStringTriple ic t} = card (set ws)"
    unfolding img [symmetric] by (rule card_image [OF inj])
  then show ?thesis using distinct_card [OF d] by simp
qed

lemma length_walks:
  assumes "coll_wf ic"
  shows "length (walk (forwardTrees ic)) = card (triples ic)"
    "length (walk (reverseTrees ic)) = card {st \<in> triples ic. reverseIndexed ic (Value1 st)}"
proof -
  have ok: "sets_ok ic" by (rule idx_wfD(1) [OF wfD(3) [OF assms]])
  have ua: "ua = \<lparr>AssociateTo = a, Relation = r\<rparr> \<longleftrightarrow> AssociateTo ua = a \<and> Relation ua = r" for ua :: UniqueAssociation and a r
    by (cases ua) simp
  have "length (walk (forwardTrees ic)) = card {st. \<exists>p t. record_at ic p = Some t \<and> True \<and> st = makeStringTriple ic t}"
  proof (rule length_walk [OF assms walk_trees(1) [OF ok], where f = "\<lambda>t p. (t_Level t, t_Key t, fwdKey t, p)"])
    fix w :: walked and p
    obtain l k ua p' where w: "w = (l, k, ua, p')" by (metis surj_pair)
    show "w \<in> set (walk (forwardTrees ic)) \<and> snd (snd (snd w)) = p \<longleftrightarrow>
        (\<exists>t. record_at ic p = Some t \<and> True \<and> w = (t_Level t, t_Key t, fwdKey t, p))"
      unfolding w walk_trees(3) [OF ok] idx_wfD(3) [OF wfD(3) [OF assms]] fwdKey_def by (auto simp: ua)
  qed simp
  then show "length (walk (forwardTrees ic)) = card (triples ic)" by (simp add: triples_def ran_def image_def) (metis (lifting))
  have "length (walk (reverseTrees ic)) = card {st. \<exists>p t. record_at ic p = Some t \<and> shouldBuildReverse t ic \<and> st = makeStringTriple ic t}"
  proof (rule length_walk [OF assms walk_trees(2) [OF ok], where f = "\<lambda>t p. (t_Value2Level t, t_Value2 t, revKey t, p)"])
    fix w :: walked and p
    obtain l k ua p' where w: "w = (l, k, ua, p')" by (metis surj_pair)
    show "w \<in> set (walk (reverseTrees ic)) \<and> snd (snd (snd w)) = p \<longleftrightarrow>
        (\<exists>t. record_at ic p = Some t \<and> shouldBuildReverse t ic \<and> w = (t_Value2Level t, t_Value2 t, revKey t, p))"
      unfolding w walk_trees(4) [OF ok] idx_wfD(4) [OF wfD(3) [OF assms]] revKey_def by (auto simp: ua)
  qed simp
  moreover have "{st. \<exists>p t. record_at ic p = Some t \<and> shouldBuildReverse t ic \<and> st = makeStringTriple ic t} =
      {st \<in> triples ic. reverseIndexed ic (Value1 st)}"
    unfolding shouldBuildReverse_string triples_iff by blast
  ultimately show "length (walk (reverseTrees ic)) = card {st \<in> triples ic. reverseIndexed ic (Value1 st)}" by simp
qed

lemma CheckIndex_healthy:
  assumes "coll_wf ic"
  obtains ic' where "quiet ic ic'" "CheckIndex opts ic =
    (\<lparr>ForwardEntries = card (triples ic), ReverseEntries = card {st \<in> triples ic. reverseIndexed ic (Value1 st)},
      MissingReverse = 0, ReverseOnly = 0, PositionMismatch = 0, Misresolved = 0, Repaired = 0,
      rep_Deep = Deep opts, Samples = []\<rparr>, ic')"
proof -
  define o' where "o' = (if readOnly ic then opts\<lparr>Repair := False\<rparr> else opts)"
  define limit where "limit = (if SampleLimit o' \<le> 0 then 50 else SampleLimit o')"
  have ok: "sets_ok ic" by (rule idx_wfD(1) [OF wfD(3) [OF assms]])
  let ?rep = "\<lparr>ForwardEntries = 0, ReverseEntries = 0, MissingReverse = 0, ReverseOnly = 0,
                 PositionMismatch = 0, Misresolved = 0, Repaired = 0, rep_Deep = Deep o', Samples = []\<rparr>"
  obtain ic' where q: "quiet ic ic'" and f: "fold (forwardEntry o' limit) (walk (forwardTrees ic)) (?rep, [], ic) =
      (?rep\<lparr>ForwardEntries := length (walk (forwardTrees ic))\<rparr>, [], ic')"
    using forwardPass_healthy [OF assms, of "walk (forwardTrees ic)" o' limit ?rep "[]"] walk_trees(3) [OF ok] by auto
  note q' = quietD [OF assms q]
  have ok': "sets_ok ic'" by (rule idx_wfD(1) [OF wfD(3) [OF q'(1)]])
  have r: "fold (reverseEntry o' limit) (walk (reverseTrees ic')) (?rep\<lparr>ForwardEntries := length (walk (forwardTrees ic))\<rparr>, [], ic') =
      (?rep\<lparr>ForwardEntries := length (walk (forwardTrees ic)), ReverseEntries := length (walk (reverseTrees ic'))\<rparr>, [], ic')"
    using reversePass_healthy [OF q'(1), of "walk (reverseTrees ic')"] walk_trees(4) [OF ok'] by simp
  have c: "{st \<in> triples ic'. reverseIndexed ic' (Value1 st)} = {st \<in> triples ic. reverseIndexed ic (Value1 st)}"
    using q'(2,11) by (simp add: reverseIndexed_def same_config_def)
  have "CheckIndex opts ic =
      (?rep\<lparr>ForwardEntries := card (triples ic), ReverseEntries := card {st \<in> triples ic. reverseIndexed ic (Value1 st)}\<rparr>, ic')"
    using f r length_walks(1) [OF assms] length_walks(2) [OF q'(1)] c
    unfolding CheckIndex_def o'_def [symmetric] limit_def [symmetric] Let_def by simp
  moreover have "Deep o' = Deep opts" by (simp add: o'_def)
  ultimately show thesis using q by (intro that [of ic']) simp_all
qed

section \<open>What a shallow pass collects\<close>

definition forwardFix :: "collection \<Rightarrow> walked \<Rightarrow> indexFix list" where
  "forwardFix ic w =
     (case w of (l, k, ua, p) \<Rightarrow>
        let t = entryTriple ic l k ua; b = bwd ic (t_Value2Level t) (t_Value2 t) (t_Value1 t) (t_Key t)
        in if shouldBuildReverse t ic \<and> b \<noteq> Some p
           then [noFix\<lparr>f_kind := (if b = None then IndexMissingReverse else IndexPositionMismatch), f_v2 := t_Value2 t,
                   f_v2Level := t_Value2Level t, f_revKey := revKey t, f_pos := p\<rparr>]
           else [])"

definition reverseFix :: "collection \<Rightarrow> walked \<Rightarrow> indexFix list" where
  "reverseFix ic w =
     (case w of (l, v, ua, p) \<Rightarrow>
        if (case levelOf ic (AssociateTo ua) of None \<Rightarrow> False | Some lk \<Rightarrow> fwd ic lk (AssociateTo ua) (Relation ua) v \<noteq> None) then []
        else [noFix\<lparr>f_kind := IndexReverseOnly, f_revSet := (l, v), f_revKey := ua\<rparr>])"

lemma Problems_sample [simp]: "Problems (sample limit kind l k l1 v1 l2 v2 p ic rep) = Problems rep"
  by (simp add: sample_def Problems_def)

lemma Problems_upd [simp]:
  "Problems (rep\<lparr>ForwardEntries := n\<rparr>) = Problems rep" "Problems (rep\<lparr>ReverseEntries := n\<rparr>) = Problems rep"
  "Problems (rep\<lparr>Repaired := n\<rparr>) = Problems rep"
  "Problems (rep\<lparr>MissingReverse := MissingReverse rep + 1\<rparr>) = Problems rep + 1"
  "Problems (rep\<lparr>PositionMismatch := PositionMismatch rep + 1\<rparr>) = Problems rep + 1"
  "Problems (rep\<lparr>ReverseOnly := ReverseOnly rep + 1\<rparr>) = Problems rep + 1"
  by (simp_all add: Problems_def)

lemma forwardEntry_shallow:
  assumes "fwd_wf ic" "\<not> Deep opts" "Repair opts" "fwd ic l k (Relation ua) (AssociateTo ua) = Some p"
  shows "\<exists>rep'. forwardEntry opts limit (l, k, ua, p) (rep, fixes, ic) = (rep', fixes @ forwardFix ic (l, k, ua, p), ic) \<and>
    Problems rep' = Problems rep + length (forwardFix ic (l, k, ua, p))"
proof -
  note t = forward_entry_triple [OF assms(1,4)]
  let ?rep = "rep\<lparr>ForwardEntries := ForwardEntries rep + 1\<rparr>"
  have "forwardEntry opts limit (l, k, ua, p) (rep, fixes, ic) =
      (let t = entryTriple ic l k ua; b = bwd ic (t_Value2Level t) (t_Value2 t) (t_Value1 t) (t_Key t);
           smp = (\<lambda>kind. sample limit kind l k (t_Value1Level t) (t_Value1 t) (t_Value2Level t) (t_Value2 t) p ic)
       in if \<not> shouldBuildReverse t ic \<or> b = Some p then (?rep, fixes, ic)
          else (if b = None then smp IndexMissingReverse (?rep\<lparr>MissingReverse := MissingReverse ?rep + 1\<rparr>)
                else smp IndexPositionMismatch (?rep\<lparr>PositionMismatch := PositionMismatch ?rep + 1\<rparr>),
                fixes @ forwardFix ic (l, k, ua, p), ic))"
    using t(2,3) assms(2,3)
    by (auto simp: forwardEntry_def forwardFix_def entryTriple_def revKey_def bwd_def Let_def split: option.splits)
  then show ?thesis by (auto simp: Let_def forwardFix_def) (simp_all add: Problems_def)
qed

lemma reverseEntry_shallow:
  assumes "Repair opts"
  shows "\<exists>rep'. reverseEntry opts limit (l, v, ua, p) (rep, fixes, ic) = (rep', fixes @ reverseFix ic (l, v, ua, p), ic) \<and>
    Problems rep' = Problems rep + length (reverseFix ic (l, v, ua, p))"
  using assms by (auto simp: reverseEntry_def reverseFix_def fwd_def Let_def split: option.splits) (simp_all add: Problems_def)

lemma passes_shallow:
  assumes "\<And>w rep fs. w \<in> set ws \<Longrightarrow> \<exists>rep'. pass w (rep, fs, ic) = (rep', fs @ fx w, ic) \<and>
      Problems rep' = Problems rep + length (fx w)"
  shows "\<exists>rep'. fold pass ws (rep, fs, ic) = (rep', fs @ concat (map fx ws), ic) \<and>
      Problems rep' = Problems rep + length (concat (map fx ws))"
  using assms
proof (induction ws arbitrary: rep fs)
  case (Cons w ws)
  obtain rep1 where 1: "pass w (rep, fs, ic) = (rep1, fs @ fx w, ic)" "Problems rep1 = Problems rep + length (fx w)"
    using Cons.prems [of w] by auto
  obtain rep2 where "fold pass ws (rep1, fs @ fx w, ic) = (rep2, (fs @ fx w) @ concat (map fx ws), ic)"
    "Problems rep2 = Problems rep1 + length (concat (map fx ws))"
    using Cons.IH [of rep1 "fs @ fx w"] Cons.prems by auto
  with 1 show ?case by (auto intro!: exI [of _ rep2])
qed simp

section \<open>Applying the repairs\<close>

type_synonym revTarget = "int \<times> u64 \<times> u64 \<times> u64"

definition bwdAt :: "collection \<Rightarrow> revTarget \<Rightarrow> int option" where
  "bwdAt ic x = (case x of (l, v2, v1, k) \<Rightarrow> bwd ic l v2 v1 k)"

definition isPut :: "indexFix \<Rightarrow> bool" where
  "isPut f \<longleftrightarrow> f_kind f \<in> {IndexMissingReverse, IndexPositionMismatch}"

definition fixTarget :: "indexFix \<Rightarrow> revTarget" where
  "fixTarget f =
     (if isPut f then (f_v2Level f, f_v2 f, Relation (f_revKey f), AssociateTo (f_revKey f))
      else (fst (f_revSet f), snd (f_revSet f), Relation (f_revKey f), AssociateTo (f_revKey f)))"

definition fixValue :: "indexFix \<Rightarrow> int option" where
  "fixValue f = (if isPut f then Some (f_pos f) else None)"

definition applicable :: "collection \<Rightarrow> indexFix \<Rightarrow> bool" where
  "applicable ic f \<longleftrightarrow> (if isPut f then reverseAssociationsTree ic (f_v2Level f) \<noteq> None else f_kind f = IndexReverseOnly)"

text \<open>Only the reverse trees may differ, and they stay well-formed.\<close>

definition repairs :: "collection \<Rightarrow> collection \<Rightarrow> bool" where
  "repairs ic ic' \<longleftrightarrow>
     index_step ic ic' \<and> same_trie ic ic' \<and> getAssociations ic' = getAssociations ic \<and>
     (\<forall>l. (reverseAssociationsTree ic' l = None) = (reverseAssociationsTree ic l = None)) \<and>
     (sets_ok ic \<longrightarrow> sets_ok ic')"

lemma repairs_refl: "repairs ic ic"
  by (simp add: repairs_def)

lemma repairs_trans: "repairs a b \<Longrightarrow> repairs b c \<Longrightarrow> repairs a c"
  by (auto simp: repairs_def intro: index_step_trans same_trie_trans)

lemma ua_iff: "\<lparr>AssociateTo = k, Relation = r\<rparr> = (ua :: UniqueAssociation) \<longleftrightarrow> k = AssociateTo ua \<and> r = Relation ua"
  by (cases ua) auto

lemma sets_ok_delete:
  assumes "sets_ok ic"
  shows "sets_ok (updReverseAssociationsTree l (updStored k (as_Delete ua)) ic)"
proof -
  let ?ic = "updReverseAssociationsTree l (updStored k (as_Delete ua)) ic"
  have "blobPolicy ?ic = blobPolicy ic" using same_trie_upd(3) [of ic l "updStored k (as_Delete ua)"] by (simp add: same_trie_def)
  moreover have "hashAssociations ?ic = None \<longleftrightarrow> hashAssociations ic = None"
    "hashReverseAssociations ?ic = None \<longleftrightarrow> hashReverseAssociations ic = None"
    using associationsTree_upd(3,4) [of l "updStored k (as_Delete ua)" ic HASH_LEVEL]
    by (simp_all add: associationsTree_def reverseAssociationsTree_def split: if_splits)
  ultimately show ?thesis
    using assms unfolding sets_ok_def by (auto simp: getReverseAssociations_del as.inv_del split: if_splits)
qed

lemma applyFix_spec:
  assumes "applicable ic f" "sets_ok ic" "applyFix f (n, ic) = (n', ic')"
  shows "n' = n + 1" "repairs ic ic'" "bwdAt ic' = (bwdAt ic)(fixTarget f := fixValue f)"
proof -
  have "n' = n + 1 \<and> repairs ic ic' \<and> (\<forall>x. bwdAt ic' x = ((bwdAt ic)(fixTarget f := fixValue f)) x)"
  proof (cases "isPut f")
    case True
    let ?ic = "updReverseAssociationsTree (f_v2Level f) (putAssoc (f_v2 f) (f_revKey f) (f_pos f)) ic"
    have tr: "reverseAssociationsTree ic (f_v2Level f) \<noteq> None" using assms(1) True by (simp add: applicable_def)
    then have e: "n' = n + 1" "ic' = ?ic" using assms(3) True by (auto simp: applyFix_def isPut_def)
    have "repairs ic ?ic" using sets_ok_putAssoc(2) [OF assms(2) tr] by (simp add: repairs_def)
    moreover have "as_Get (as_Put (f_revKey f) (f_pos f) s) = (as_Get s)(f_revKey f \<mapsto> f_pos f)" if "as_inv s" for s
      using as.get_put [OF that] by blast
    ultimately show ?thesis
      using e True tr assms(2)
      by (auto simp: bwdAt_def bwd_def fixTarget_def fixValue_def getReverseAssociations_put sets_ok_def ua_iff split: prod.splits)
  next
    case False
    let ?ic = "updReverseAssociationsTree (fst (f_revSet f)) (updStored (snd (f_revSet f)) (as_Delete (f_revKey f))) ic"
    have k: "f_kind f = IndexReverseOnly" using assms(1) False by (simp add: applicable_def)
    then have e: "n' = n + 1" "ic' = ?ic" using assms(3) False by (auto simp: applyFix_def isPut_def)
    have "repairs ic ?ic" using sets_ok_delete [OF assms(2)] by (simp add: repairs_def)
    moreover have "as_Get (as_Delete (f_revKey f) s) = (as_Get s)(f_revKey f := None)" if "as_inv s" for s
      using as.get_del [OF that] by blast
    ultimately show ?thesis
      using e False assms(2)
      by (auto simp: bwdAt_def bwd_def fixTarget_def fixValue_def getReverseAssociations_del sets_ok_def ua_iff split: prod.splits)
  qed
  then show "n' = n + 1" "repairs ic ic'" "bwdAt ic' = (bwdAt ic)(fixTarget f := fixValue f)" by (auto intro: ext)
qed

lemma applyFixes_spec:
  assumes "\<forall>f \<in> set fs. applicable ic f \<and> fixValue f = W (fixTarget f)" "sets_ok ic" "fold applyFix fs (n, ic) = (n', ic')"
  shows "n' = n + length fs \<and> repairs ic ic' \<and> (\<forall>x. bwdAt ic' x = (if x \<in> fixTarget ` set fs then W x else bwdAt ic x))"
  using assms
proof (induction fs arbitrary: n ic)
  case Nil
  then show ?case by (simp add: repairs_refl)
next
  case (Cons f fs)
  obtain n1 ic1 where a: "applyFix f (n, ic) = (n1, ic1)" by (metis surj_pair)
  have app: "applicable ic f" using Cons.prems(1) by simp
  note s = applyFix_spec [OF app Cons.prems(2) a]
  have "applicable ic1 g = applicable ic g" for g using s(2) by (simp add: applicable_def repairs_def)
  then have "\<forall>g \<in> set fs. applicable ic1 g \<and> fixValue g = W (fixTarget g)" using Cons.prems(1) by simp
  moreover have "sets_ok ic1" using s(2) Cons.prems(2) by (simp add: repairs_def)
  ultimately have "n' = n1 + length fs \<and> repairs ic1 ic' \<and>
      (\<forall>x. bwdAt ic' x = (if x \<in> fixTarget ` set fs then W x else bwdAt ic1 x))"
    using Cons.IH [of ic1 n1] Cons.prems(3) a by simp
  with s Cons.prems(1) repairs_trans [OF s(2)] show ?case by auto
qed

section \<open>A repair restores the reverse index\<close>

text \<open>The position the reverse index is to hold, from the forward one.\<close>

definition wantedBwd :: "collection \<Rightarrow> revTarget \<Rightarrow> int option" where
  "wantedBwd ic x =
     (case x of (l, v2, v1, k) \<Rightarrow>
        case levelOf ic k of
          None \<Rightarrow> None
        | Some lk \<Rightarrow>
            let t = entryTriple ic lk k \<lparr>AssociateTo = v2, Relation = v1\<rparr>
            in if t_Value2Level t = l \<and> shouldBuildReverse t ic then fwd ic lk k v1 v2 else None)"

lemma wantedBwd_iff:
  assumes "fwd_wf ic"
  shows "wantedBwd ic (l, v2, v1, k) = Some p \<longleftrightarrow>
    (\<exists>t. record_at ic p = Some t \<and> t_Value2Level t = l \<and> t_Value2 t = v2 \<and> t_Value1 t = v1 \<and> t_Key t = k \<and>
       shouldBuildReverse t ic)"
proof
  let ?ua = "\<lparr>AssociateTo = v2, Relation = v1\<rparr>"
  assume "wantedBwd ic (l, v2, v1, k) = Some p"
  then obtain lk where lk: "fwd ic lk k v1 v2 = Some p" "t_Value2Level (entryTriple ic lk k ?ua) = l"
    "shouldBuildReverse (entryTriple ic lk k ?ua) ic"
    by (auto simp: wantedBwd_def Let_def split: option.splits if_splits)
  with forward_entry_triple(1) [OF assms, of lk k ?ua p]
  show "\<exists>t. record_at ic p = Some t \<and> t_Value2Level t = l \<and> t_Value2 t = v2 \<and> t_Value1 t = v1 \<and> t_Key t = k \<and> shouldBuildReverse t ic"
    by (intro exI [of _ "entryTriple ic lk k ?ua"]) (simp_all add: entryTriple_def)
next
  assume "\<exists>t. record_at ic p = Some t \<and> t_Value2Level t = l \<and> t_Value2 t = v2 \<and> t_Value1 t = v1 \<and> t_Key t = k \<and> shouldBuildReverse t ic"
  then obtain t where t: "record_at ic p = Some t" "t_Value2Level t = l" "t_Value2 t = v2" "t_Value1 t = v1" "t_Key t = k"
    "shouldBuildReverse t ic" by blast
  have f: "fwd ic (t_Level t) k v1 v2 = Some p" using fwd_wfD(4) [OF assms] t by blast
  from forward_entry_triple [OF assms, of "t_Level t" k "\<lparr>AssociateTo = v2, Relation = v1\<rparr>" p] f t
  show "wantedBwd ic (l, v2, v1, k) = Some p" by (simp add: wantedBwd_def)
qed

lemma reverse_tree_exists:
  assumes "fwd_wf ic" "record_at ic p = Some t"
  shows "reverseAssociationsTree ic (t_Value2Level t) \<noteq> None"
proof -
  have n: "named ic (t_Value2Level t) (t_Value2 t)" using fwd_wfD(3) [OF assms] by (simp add: triple_named_def)
  have r: "tree_ready ic (t_Value2Level t)" by (rule named_tree_ready [OF fwd_wfD(1,2) [OF assms(1)] n])
  have at: "idAt ic (t_Value2Level t) (t_Value2 t)" by (rule named_idAt [OF fwd_wfD(1) [OF assms(1)] n])
  show ?thesis
    using r at by (auto simp: tree_ready_def idAt_def reverseAssociationsTree_def getUniqueValue_def split: if_splits option.splits)
qed

text \<open>
  Damage the check can see: a reverse entry stands under its value's level, and for a triple that
  exists it is one of an indexed relation.
\<close>

definition seen_by_check :: "collection \<Rightarrow> bool" where
  "seen_by_check ic \<longleftrightarrow>
     (\<forall>l v2 v1 k p. bwd ic l v2 v1 k = Some p \<longrightarrow>
        (\<forall>q t. record_at ic q = Some t \<longrightarrow> t_Value2 t = v2 \<longrightarrow> t_Value1 t = v1 \<longrightarrow> t_Key t = k \<longrightarrow>
           t_Value2Level t = l \<and> shouldBuildReverse t ic))"

lemma forwardFix_ok:
  assumes "fwd_wf ic" "f \<in> set (forwardFix ic w)" "w \<in> set (walk (forwardTrees ic))"
  shows "applicable ic f \<and> fixValue f = wantedBwd ic (fixTarget f)"
proof -
  obtain l k ua p where w: "w = (l, k, ua, p)" by (metis surj_pair)
  have fw: "fwd ic l k (Relation ua) (AssociateTo ua) = Some p"
    using assms(3) walk_trees(3) [OF fwd_wfD(2) [OF assms(1)]] w by simp
  note t = forward_entry_triple(1) [OF assms(1) fw]
  let ?t = "entryTriple ic l k ua"
  have f: "isPut f" "f_v2Level f = t_Value2Level ?t" "f_v2 f = t_Value2 ?t" "f_revKey f = revKey ?t" "f_pos f = p" "shouldBuildReverse ?t ic"
    using assms(2) by (auto simp: w forwardFix_def Let_def isPut_def split: if_splits)
  have "wantedBwd ic (t_Value2Level ?t, t_Value2 ?t, t_Value1 ?t, t_Key ?t) = Some p"
    using wantedBwd_iff [OF assms(1)] t f(6) by blast
  then show ?thesis
    using f reverse_tree_exists [OF assms(1) t] by (simp add: applicable_def fixValue_def fixTarget_def revKey_def)
qed

lemma reverseFix_ok:
  assumes "fwd_wf ic" "f \<in> set (reverseFix ic w)"
  shows "applicable ic f \<and> fixValue f = wantedBwd ic (fixTarget f)"
proof -
  obtain l v ua p where w: "w = (l, v, ua, p)" by (metis surj_pair)
  have f: "f_kind f = IndexReverseOnly" "f_revSet f = (l, v)" "f_revKey f = ua"
    "\<not> (case levelOf ic (AssociateTo ua) of None \<Rightarrow> False | Some lk \<Rightarrow> fwd ic lk (AssociateTo ua) (Relation ua) v \<noteq> None)"
    using assms(2) by (auto simp: w reverseFix_def split: if_splits)
  have np: "\<not> isPut f" using f(1) by (simp add: isPut_def index_kinds)
  have "wantedBwd ic (l, v, Relation ua, AssociateTo ua) = None"
    using f(4) by (auto simp: wantedBwd_def Let_def split: option.splits)
  then show ?thesis using f np by (simp add: applicable_def fixValue_def fixTarget_def)
qed

lemma fixes_cover:
  assumes "fwd_wf ic" "seen_by_check ic" "bwdAt ic x \<noteq> wantedBwd ic x"
  shows "x \<in> fixTarget ` set (concat (map (forwardFix ic) (walk (forwardTrees ic))) @ concat (map (reverseFix ic) (walk (reverseTrees ic))))"
proof -
  obtain l v2 v1 k where x: "x = (l, v2, v1, k)" by (metis surj_pair)
  note ok = fwd_wfD(2) [OF assms(1)]
  show ?thesis
  proof (cases "wantedBwd ic x")
    case (Some p)
    then obtain t where t: "record_at ic p = Some t" "t_Value2Level t = l" "t_Value2 t = v2" "t_Value1 t = v1" "t_Key t = k"
      "shouldBuildReverse t ic" unfolding x wantedBwd_iff [OF assms(1)] by blast
    let ?w = "(t_Level t, k, \<lparr>AssociateTo = v2, Relation = v1\<rparr>, p)"
    have fw: "fwd ic (t_Level t) k v1 v2 = Some p" using fwd_wfD(4) [OF assms(1)] t by blast
    then have m: "?w \<in> set (walk (forwardTrees ic))" using walk_trees(3) [OF ok] by simp
    have e: "entryTriple ic (t_Level t) k \<lparr>AssociateTo = v2, Relation = v1\<rparr> = t"
      using forward_entry_triple(1) [OF assms(1), of "t_Level t" k "\<lparr>AssociateTo = v2, Relation = v1\<rparr>" p] fw t(1) by simp
    have "bwd ic l v2 v1 k \<noteq> Some p" using assms(3) Some by (simp add: x bwdAt_def)
    then obtain f where f: "f \<in> set (forwardFix ic ?w)" "fixTarget f = x"
      using e t by (auto simp: forwardFix_def Let_def x fixTarget_def isPut_def revKey_def)
    then show ?thesis using m by force
  next
    case None
    then obtain p where b: "bwd ic l v2 v1 k = Some p" using assms(3) by (auto simp: x bwdAt_def)
    let ?w = "(l, v2, \<lparr>AssociateTo = k, Relation = v1\<rparr>, p)"
    have m: "?w \<in> set (walk (reverseTrees ic))" using walk_trees(4) [OF ok] b by simp
    have "\<not> (case levelOf ic k of None \<Rightarrow> False | Some lk \<Rightarrow> fwd ic lk k v1 v2 \<noteq> None)"
    proof
      assume "case levelOf ic k of None \<Rightarrow> False | Some lk \<Rightarrow> fwd ic lk k v1 v2 \<noteq> None"
      then obtain lk q where "fwd ic lk k v1 v2 = Some q" by (auto split: option.splits)
      then obtain t where t: "record_at ic q = Some t" "t_Key t = k" "t_Value1 t = v1" "t_Value2 t = v2"
        using fwd_wfD(4) [OF assms(1)] by blast
      with assms(2) b have "t_Value2Level t = l" "shouldBuildReverse t ic" unfolding seen_by_check_def by blast+
      with t None wantedBwd_iff [OF assms(1), of l v2 v1 k q] show False by (auto simp: x)
    qed
    then have "reverseFix ic ?w = [noFix\<lparr>f_kind := IndexReverseOnly, f_revSet := (l, v2), f_revKey := \<lparr>AssociateTo = k, Relation = v1\<rparr>\<rparr>]"
      by (auto simp: reverseFix_def split: option.splits)
    then obtain f where "f \<in> set (reverseFix ic ?w)" "fixTarget f = x"
      by (simp add: x fixTarget_def isPut_def index_kinds)
    then show ?thesis using m by force
  qed
qed

lemma repaired_wf:
  assumes "fwd_wf ic" "repairs ic ic'" "\<And>x. bwdAt ic' x = wantedBwd ic x"
  shows "coll_wf ic'" "triples ic' = triples ic"
proof -
  have st: "index_step ic ic'" "same_trie ic ic'" "getAssociations ic' = getAssociations ic" "sets_ok ic'"
    using assms(2) fwd_wfD(2) [OF assms(1)] by (auto simp: repairs_def)
  note o = index_step_obs [OF st(1)] and tr = same_trie_lookup [OF st(2)]
  have n: "triple_named ic' = triple_named ic" by (rule named_same(2) [OF st(2)])
  have f: "fwd ic' = fwd ic" using st(3) by (simp add: fun_eq_iff fwd_def)
  have sb: "shouldBuildReverse t ic' = shouldBuildReverse t ic" for t
    using o(9) tr(3) by (simp add: shouldBuildReverse_string reverseIndexed_def)
  show "triples ic' = triples ic" using o(3) tr(3) by (simp add: triples_def)
  have "persisted ic' = persisted ic" using st(2) o(4) by (simp add: persisted_def same_trie_def o)
  moreover have "trie_wf ic' = trie_wf ic" using st(2) by (intro trie_wf_cong) (simp_all add: same_trie_def)
  ultimately have "fwd_wf ic'" using assms(1) st(4) o(2,3) n f by (simp add: fwd_wf_def)
  moreover have "bwd_wf ic'"
    using assms(3) wantedBwd_iff [OF assms(1)] unfolding bwd_wf_def o(3) sb by (auto simp: bwdAt_def)
  ultimately show "coll_wf ic'" by (simp add: coll_wf_iff)
qed

lemma CheckIndex_repairs:
  assumes "fwd_wf ic" "seen_by_check ic" "\<not> readOnly ic" "Repair opts" "\<not> Deep opts" "CheckIndex opts ic = (rep, ic')"
  shows "coll_wf ic'" "triples ic' = triples ic" "Repaired rep = Problems rep"
    "Problems rep = 0 \<longleftrightarrow> coll_wf ic" "same_config ic ic'"
proof -
  define limit where "limit = (if SampleLimit opts \<le> 0 then 50 else SampleLimit opts)"
  let ?rep = "\<lparr>ForwardEntries = 0, ReverseEntries = 0, MissingReverse = 0, ReverseOnly = 0,
                 PositionMismatch = 0, Misresolved = 0, Repaired = 0, rep_Deep = Deep opts, Samples = []\<rparr>"
  let ?F = "concat (map (forwardFix ic) (walk (forwardTrees ic)))" and ?R = "concat (map (reverseFix ic) (walk (reverseTrees ic)))"
  note ok = fwd_wfD(2) [OF assms(1)]
  have "\<exists>rep'. fold (forwardEntry opts limit) (walk (forwardTrees ic)) (?rep, [], ic) = (rep', [] @ ?F, ic) \<and>
      Problems rep' = Problems ?rep + length ?F"
  proof (rule passes_shallow)
    fix w rep fs
    assume w: "w \<in> set (walk (forwardTrees ic))"
    obtain l k ua p where e: "w = (l, k, ua, p)" by (metis surj_pair)
    show "\<exists>rep'. forwardEntry opts limit w (rep, fs, ic) = (rep', fs @ forwardFix ic w, ic) \<and> Problems rep' = Problems rep + length (forwardFix ic w)"
      unfolding e by (rule forwardEntry_shallow [OF assms(1,5,4)]) (use w e walk_trees(3) [OF ok] in simp)
  qed
  then obtain rep1 where f1: "fold (forwardEntry opts limit) (walk (forwardTrees ic)) (?rep, [], ic) = (rep1, ?F, ic)"
    "Problems rep1 = length ?F" by (auto simp: Problems_def)
  have "\<exists>rep'. fold (reverseEntry opts limit) (walk (reverseTrees ic)) (rep1, ?F, ic) = (rep', ?F @ ?R, ic) \<and>
      Problems rep' = Problems rep1 + length ?R"
  proof (rule passes_shallow)
    fix w rep fs
    show "\<exists>rep'. reverseEntry opts limit w (rep, fs, ic) = (rep', fs @ reverseFix ic w, ic) \<and> Problems rep' = Problems rep + length (reverseFix ic w)"
      using reverseEntry_shallow [OF assms(4)] by (metis surj_pair)
  qed
  then obtain rep2 where f2: "fold (reverseEntry opts limit) (walk (reverseTrees ic)) (rep1, ?F, ic) = (rep2, ?F @ ?R, ic)"
    "Problems rep2 = length (?F @ ?R)" using f1(2) by auto
  obtain n ic2 where a: "fold applyFix (?F @ ?R) (0, ic) = (n, ic2)" by (metis surj_pair)
  have good: "\<forall>f \<in> set (?F @ ?R). applicable ic f \<and> fixValue f = wantedBwd ic (fixTarget f)"
    using forwardFix_ok [OF assms(1)] reverseFix_ok [OF assms(1)] by auto
  note ap = applyFixes_spec [OF good ok a]
  have bw: "bwdAt ic2 x = wantedBwd ic x" for x using ap fixes_cover [OF assms(1,2), of x] by (metis (full_types))
  have rp: "repairs ic ic2" using ap by blast
  note wf = repaired_wf [OF assms(1) rp bw]
  have r: "rep = rep2\<lparr>Repaired := n\<rparr>" "ic' = (if n > 0 then ic2\<lparr>searchGen := searchGen ic2 + 1\<rparr> else ic2)"
    using assms(6) f1(1) f2(1) a unfolding CheckIndex_def if_not_P [OF assms(3)] Let_def limit_def [symmetric] by simp_all
  show "coll_wf ic'" "triples ic' = triples ic" using wf r(2) by simp_all
  have cnt: "n = length (?F @ ?R)" using ap by simp
  then show "Repaired rep = Problems rep" using f2(2) r(1) by simp
  have cfg: "same_config ic ic2"
    using rp index_step_obs [of ic ic2] by (simp add: repairs_def same_config_def)
  then show "same_config ic ic'" using r(2) by (simp add: same_config_def)
  show "Problems rep = 0 \<longleftrightarrow> coll_wf ic"
  proof
    assume "Problems rep = 0"
    then have "length (?F @ ?R) = 0" using f2(2) r(1) by simp
    then have "?F @ ?R = []" by (simp only: length_0_conv)
    with a have "ic2 = ic" by (simp only: fold_simps prod.inject)
    then show "coll_wf ic" using wf(1) by simp
  next
    assume c: "coll_wf ic"
    obtain ic3 where "CheckIndex opts ic = (\<lparr>ForwardEntries = card (triples ic), ReverseEntries = card {st \<in> triples ic. reverseIndexed ic (Value1 st)},
      MissingReverse = 0, ReverseOnly = 0, PositionMismatch = 0, Misresolved = 0, Repaired = 0, rep_Deep = Deep opts, Samples = []\<rparr>, ic3)"
      by (rule CheckIndex_healthy [OF c])
    then show "Problems rep = 0" using assms(6) by (auto simp: Problems_def)
  qed
qed

section \<open>Damage\<close>

lemma repairs_fwd:
  assumes "fwd_wf ic" "repairs ic ic'"
  shows "fwd_wf ic'" "triples ic' = triples ic"
proof -
  have st: "index_step ic ic'" "same_trie ic ic'" "getAssociations ic' = getAssociations ic" "sets_ok ic'"
    using assms(2) fwd_wfD(2) [OF assms(1)] by (auto simp: repairs_def)
  note o = index_step_obs [OF st(1)] and tr = same_trie_lookup [OF st(2)]
  have n: "triple_named ic' = triple_named ic" by (rule named_same(2) [OF st(2)])
  have f: "fwd ic' = fwd ic" using st(3) by (simp add: fun_eq_iff fwd_def)
  show "triples ic' = triples ic" using o(3) tr(3) by (simp add: triples_def)
  have "persisted ic' = persisted ic" using st(2) o(4) by (simp add: persisted_def same_trie_def o)
  then show "fwd_wf ic'" using assms(1) st(4) o(2,3) n f tr(4) by (simp add: fwd_wf_def)
qed

lemma seen_less:
  assumes "coll_wf ic" "repairs ic ic'" "\<And>l v2 v1 k p. bwd ic' l v2 v1 k = Some p \<Longrightarrow> bwd ic l v2 v1 k = Some p"
  shows "seen_by_check ic'"
  unfolding seen_by_check_def
proof (intro allI impI)
  fix l v2 v1 k p q t
  assume a: "bwd ic' l v2 v1 k = Some p" "record_at ic' q = Some t" "t_Value2 t = v2" "t_Value1 t = v1" "t_Key t = k"
  have w: "fwd_wf ic" "bwd_wf ic" using assms(1) by (simp_all add: coll_wf_iff)
  have st: "index_step ic ic'" "same_trie ic ic'" using assms(2) by (simp_all add: repairs_def)
  have t: "record_at ic q = Some t" using a(2) index_step_obs(3) [OF st(1)] by simp
  obtain u where u: "record_at ic p = Some u" "t_Value2Level u = l" "t_Value2 u = v2" "t_Value1 u = v1" "t_Key u = k" "shouldBuildReverse u ic"
    using assms(3) [OF a(1)] w(2) unfolding bwd_wf_def by blast
  have "t = u" using triple_named_eqI [OF fwd_wfD(1) [OF w(1)] fwd_wfD(3) [OF w(1) t] fwd_wfD(3) [OF w(1) u(1)]] a u by simp
  then show "t_Value2Level t = l \<and> shouldBuildReverse t ic'" using u same_trie_lookup(5) [OF st(2)] by simp
qed

end
