(* ===== verification/Edit_Distance.thy ===== *)
theory Edit_Distance
  imports Tie_Prelude
begin

text \<open>
  The bounded edit distance of \<^verbatim>\<open>tiedb/search_match.go\<close> (the part of \<open>editDistanceWithin\<close> after its string tests): two rows of the
  dynamic program, given up early. It is shown to compute the least number of single-rune edits, or
  to report that this number is above the bound.
\<close>

section \<open>The code\<close>

definition maxFuzzyCandidateBytes :: nat where
  "maxFuzzyCandidateBytes = 64"

text \<open>The inner loop: the rest of a row from the previous row and the entry on its left.\<close>

fun rowFrom :: "'a \<Rightarrow> 'a list \<Rightarrow> nat list \<Rightarrow> nat \<Rightarrow> nat list" where
  "rowFrom a (b # bs) (p # q # ps) left =
     (let c = min (min (q + 1) (left + 1)) (p + (if a = b then 0 else 1))
      in c # rowFrom a bs (q # ps) c)"
| "rowFrom a _ _ left = []"

text \<open>The outer loop over the query runes still to process; \<open>i\<close> counts from one.\<close>

fun editRows :: "'a list \<Rightarrow> nat \<Rightarrow> nat \<Rightarrow> 'a list \<Rightarrow> nat list \<Rightarrow> nat \<times> bool" where
  "editRows br max' i [] prev = (last prev, last prev \<le> max')"
| "editRows br max' i (a # ar) prev =
     (let cur = i # rowFrom a br prev i
      in if last cur > max' + length ar then (0, False) else editRows br max' (i + 1) ar cur)"

text \<open>
  The two row buffers are slices of arrays of \<open>maxFuzzyCandidateBytes + 1\<close>; slicing them for a longer
  candidate panics (\<open>None\<close>), before the fallback to heap buffers.
\<close>

definition editDistanceRunes :: "'a list \<Rightarrow> 'a list \<Rightarrow> int \<Rightarrow> (nat \<times> bool) option" where
  "editDistanceRunes ar br max' =
     (if \<bar>int (length ar) - int (length br)\<bar> > max' then Some (0, False)
      else if ar = [] then Some (length br, int (length br) \<le> max')
      else if br = [] then Some (length ar, int (length ar) \<le> max')
      else if length br > maxFuzzyCandidateBytes then None
      else Some (editRows br (nat max') 1 ar [0..<length br + 1]))"

section \<open>The reference: fewest edits\<close>

text \<open>One edit: delete, insert or replace an element, anywhere.\<close>

inductive edit :: "'a list \<Rightarrow> 'a list \<Rightarrow> bool" where
  delete: "edit (x # xs) xs"
| insert: "edit xs (x # xs)"
| replace: "edit (x # xs) (y # xs)"
| later: "edit xs ys \<Longrightarrow> edit (z # xs) (z # ys)"

definition reachable_in :: "nat \<Rightarrow> 'a list \<Rightarrow> 'a list \<Rightarrow> bool" where
  "reachable_in n xs ys \<longleftrightarrow> (edit ^^ n) xs ys"

text \<open>The recursive distance.\<close>

fun lev :: "'a list \<Rightarrow> 'a list \<Rightarrow> nat" where
  "lev [] ys = length ys"
| "lev (x # xs) [] = Suc (length xs)"
| "lev (x # xs) (y # ys) =
     min (min (lev xs (y # ys) + 1) (lev (x # xs) ys + 1)) (lev xs ys + (if x = y then 0 else 1))"

lemma lev_Nil2 [simp]: "lev xs [] = length xs"
  by (cases xs) simp_all

lemma lev_sym: "lev xs ys = lev ys xs"
  by (induction xs ys rule: lev.induct) auto

lemma lev_Cons_le: "lev (x # xs) ys \<le> lev xs ys + 1"
  by (cases ys) auto

lemma lev_Cons_ge: "lev xs ys \<le> lev (x # xs) ys + 1"
proof (induction ys arbitrary: x xs)
  case Nil
  then show ?case by simp
next
  case (Cons y ys)
  have a: "lev xs (y # ys) \<le> lev xs ys + 1" by (metis lev_Cons_le lev_sym)
  from Cons.IH [of xs x] have b: "lev xs ys \<le> lev (x # xs) ys + 1" .
  show ?case using a b by auto
qed

lemma lev_edit:
  assumes "edit xs ys"
  shows "lev xs zs \<le> lev ys zs + 1"
  using assms
proof (induction arbitrary: zs rule: edit.induct)
  case (delete x xs)
  show ?case by (rule lev_Cons_le)
next
  case (insert xs x)
  show ?case by (rule lev_Cons_ge)
next
  case (replace x xs y)
  show ?case
  proof (induction zs)
    case Nil
    then show ?case by simp
  next
    case (Cons z zs)
    have "lev (x # xs) zs \<le> lev xs zs + 1" by (rule lev_Cons_le)
    then show ?case using Cons by auto
  qed
next
  case (later xs ys z)
  show ?case
  proof (induction zs)
    case Nil
    then show ?case using later.IH [of "[]"] by simp
  next
    case (Cons w ws)
    then show ?case using later.IH [of "w # ws"] later.IH [of ws] by auto
  qed
qed

lemma edit_sym: "edit xs ys \<Longrightarrow> edit ys xs"
  by (induction rule: edit.induct) (auto intro: edit.intros)

lemma lev_reachable: "reachable_in n xs ys \<Longrightarrow> lev xs ys \<le> n"
  unfolding reachable_in_def
proof (induction n arbitrary: ys)
  case 0
  have "lev xs xs = 0" by (induction xs) simp_all
  with 0 show ?case by simp
next
  case (Suc n)
  then obtain zs where "(edit ^^ n) xs zs" "edit zs ys" by auto
  then have "lev xs zs \<le> n" "lev ys xs \<le> lev zs xs + 1" using Suc.IH lev_edit [OF edit_sym] by auto
  then show ?case by (simp add: lev_sym)
qed

lemma reachable_later: "reachable_in n xs ys \<Longrightarrow> reachable_in n (z # xs) (z # ys)"
  unfolding reachable_in_def by (induction n arbitrary: ys) (auto intro: edit.later)

lemma reachable_step: "edit xs ys \<Longrightarrow> reachable_in n ys zs \<Longrightarrow> reachable_in (Suc n) xs zs"
  unfolding reachable_in_def by (rule relpowp_Suc_I2)

lemma reachable_lev: "reachable_in (lev xs ys) xs ys"
proof (induction xs ys rule: lev.induct)
  case (1 ys)
  have "reachable_in (length ys) [] ys"
  proof (induction ys)
    case Nil
    then show ?case by (simp add: reachable_in_def)
  next
    case (Cons y ys)
    show ?case using reachable_step [OF edit.insert reachable_later [OF Cons]] by simp
  qed
  then show ?case by simp
next
  case (2 x xs)
  have "reachable_in (length zs) zs []" for zs :: "'a list"
    by (induction zs) (auto intro: reachable_step [OF edit.delete], simp add: reachable_in_def)
  from this [of "x # xs"] show ?case by simp
next
  case (3 x xs y ys)
  have del: "reachable_in (lev xs (y # ys) + 1) (x # xs) (y # ys)"
    using reachable_step [OF edit.delete 3(1)] by simp
  have ins: "reachable_in (lev (x # xs) ys + 1) (x # xs) (y # ys)"
    using reachable_step [OF edit.insert reachable_later [OF 3(2)]] by simp
  have rep: "reachable_in (lev xs ys + (if x = y then 0 else 1)) (x # xs) (y # ys)"
    using reachable_later [OF 3(3), of y] reachable_step [OF edit.replace [of x xs y] reachable_later [OF 3(3), of y]] by auto
  show ?case using del ins rep by (auto simp: min_def)
qed

lemma lev_least: "lev xs ys = (LEAST n. reachable_in n xs ys)"
  by (rule Least_equality [symmetric]) (auto intro: reachable_lev lev_reachable)

text \<open>Edits do not care about the end they are counted from.\<close>

lemma edit_append: "edit xs ys \<Longrightarrow> edit (xs @ zs) (ys @ zs)"
  by (induction rule: edit.induct) (auto intro: edit.intros)

lemma edit_snoc: "edit (xs @ [x]) xs" "edit xs (xs @ [x])" "edit (xs @ [x]) (xs @ [y])"
  by (induction xs) (auto intro: edit.intros)

lemma edit_rev: "edit xs ys \<Longrightarrow> edit (rev xs) (rev ys)"
proof (induction rule: edit.induct)
  case (later xs ys z)
  then show ?case by (simp add: edit_append)
qed (simp_all add: edit_snoc)

lemma lev_rev: "lev (rev xs) (rev ys) = lev xs ys"
proof -
  have "reachable_in n (rev us) (rev vs)" if "reachable_in n us vs" for n and us vs :: "'a list"
    using that unfolding reachable_in_def
    by (induction n arbitrary: vs) (auto intro: edit_rev)
  then have "lev (rev us) (rev vs) \<le> lev us vs" for us vs :: "'a list"
    by (meson lev_reachable reachable_lev)
  from this [of xs ys] this [of "rev xs" "rev ys"] show ?thesis by simp
qed

section \<open>The rows\<close>

text \<open>Row \<open>i\<close> holds the distances from the first \<open>i\<close> query runes to every prefix of the candidate.\<close>

definition row :: "'a list \<Rightarrow> 'a list \<Rightarrow> nat list" where
  "row pre br = map (\<lambda>j. lev (rev pre) (rev (take j br))) [0..<length br + 1]"

lemma rowFrom_spec:
  assumes "left = lev (rev (pre @ [a])) (rev done')"
  shows "rowFrom a bs (map (\<lambda>j. lev (rev pre) (rev (done' @ take j bs))) [0..<length bs + 1]) left =
    map (\<lambda>j. lev (rev (pre @ [a])) (rev (done' @ take (Suc j) bs))) [0..<length bs]"
  using assms
proof (induction bs arbitrary: done' left)
  case Nil
  then show ?case by simp
next
  case (Cons b bs)
  define c where "c = lev (rev (pre @ [a])) (rev (done' @ [b]))"
  let ?f = "\<lambda>j. lev (rev pre) (rev (done' @ take j (b # bs)))"
  have up: "[0..<length (b # bs) + 1] = 0 # map Suc [0..<length bs + 1]"
    by (simp add: map_Suc_upt upt_conv_Cons del: upt_Suc)
  have tail: "map ?f (map Suc [0..<length bs + 1]) = map (\<lambda>j. lev (rev pre) (rev ((done' @ [b]) @ take j bs))) [0..<length bs + 1]"
    by simp
  have hd: "map (\<lambda>j. lev (rev pre) (rev ((done' @ [b]) @ take j bs))) [0..<length bs + 1] =
      lev (rev pre) (rev (done' @ [b])) # map (\<lambda>j. lev (rev pre) (rev ((done' @ [b]) @ take (Suc j) bs))) [0..<length bs]"
    by (simp add: upt_conv_Cons map_Suc_upt [symmetric] comp_def del: upt_Suc)
  have c: "min (min (lev (rev pre) (rev (done' @ [b])) + 1) (left + 1)) (lev (rev pre) (rev done') + (if a = b then 0 else 1)) = c"
    using Cons.prems by (simp add: c_def min.commute min.left_commute)
  have "rowFrom a (b # bs) (map ?f [0..<length (b # bs) + 1]) left =
      c # rowFrom a bs (map (\<lambda>j. lev (rev pre) (rev ((done' @ [b]) @ take j bs))) [0..<length bs + 1]) c"
    unfolding up list.map(2) tail hd by (simp add: c [simplified] Let_def)
  also have "\<dots> = c # map (\<lambda>j. lev (rev (pre @ [a])) (rev ((done' @ [b]) @ take (Suc j) bs))) [0..<length bs]"
    by (subst Cons.IH) (simp_all add: c_def)
  also have "\<dots> = map (\<lambda>j. lev (rev (pre @ [a])) (rev (done' @ take (Suc j) (b # bs)))) [0..<length (b # bs)]"
    by (simp add: upt_conv_Cons map_Suc_upt [symmetric] comp_def c_def del: upt_Suc)
  finally show ?case .
qed

lemma row_step: "row (pre @ [a]) br = (length pre + 1) # rowFrom a br (row pre br) (length pre + 1)"
proof -
  have "rowFrom a br (row pre br) (length pre + 1) =
      map (\<lambda>j. lev (rev (pre @ [a])) (rev (take (Suc j) br))) [0..<length br]"
    using rowFrom_spec [of "length pre + 1" pre a "[]" br] by (simp add: row_def)
  then show ?thesis
    by (simp add: row_def upt_conv_Cons map_Suc_upt [symmetric] comp_def del: upt_Suc)
qed

lemma row_Nil: "row [] br = [0..<length br + 1]"
  unfolding row_def by (rule map_idI) auto

lemma last_row: "last (row pre br) = lev pre br"
  by (simp add: row_def last_map lev_rev)

text \<open>Each further query rune lowers the distance by at most one.\<close>

lemma lev_append_ge: "lev pre br \<le> lev (pre @ as) br + length as"
proof (induction as rule: rev_induct)
  case Nil
  then show ?case by simp
next
  case (snoc a as)
  have "lev (pre @ as) br \<le> lev (pre @ as @ [a]) br + 1"
    using lev_edit [OF edit_snoc(2) [of "pre @ as" a], of br] by simp
  then show ?case using snoc by simp
qed

lemma editRows_spec:
  "editRows br max' (length pre + 1) ar (row pre br) =
     (if lev (pre @ ar) br \<le> max' then (lev (pre @ ar) br, True)
      else (fst (editRows br max' (length pre + 1) ar (row pre br)), False))"
proof (induction ar arbitrary: pre)
  case Nil
  then show ?case by (simp add: last_row)
next
  case (Cons a ar)
  have cur: "(length pre + 1) # rowFrom a br (row pre br) (length pre + 1) = row (pre @ [a]) br"
    by (simp add: row_step)
  have unf: "editRows br max' (length pre + 1) (a # ar) (row pre br) =
      (if lev (pre @ [a]) br > max' + length ar then (0, False)
       else editRows br max' (length (pre @ [a]) + 1) ar (row (pre @ [a]) br))"
    using cur last_row [of "pre @ [a]" br] by (simp add: Let_def)
  show ?case
  proof (cases "lev (pre @ [a]) br > max' + length ar")
    case True
    then show ?thesis using lev_append_ge [of "pre @ [a]" br ar] by (simp only: unf if_True) simp
  next
    case False
    then show ?thesis using Cons.IH [of "pre @ [a]"] by (simp only: unf if_False append_assoc append_Cons append_Nil)
  qed
qed

lemma lev_length: "\<bar>int (length xs) - int (length ys)\<bar> \<le> int (lev xs ys)"
  by (induction xs ys rule: lev.induct) (auto simp: min_def)

lemma lev_pos: "lev xs ys = 0 \<longleftrightarrow> xs = ys"
  by (induction xs ys rule: lev.induct) auto

text \<open>The bounded distance is the distance, or a refusal when it is above the bound.\<close>

lemma editDistanceRunes_spec:
  assumes "0 < max'" "length br \<le> maxFuzzyCandidateBytes"
  shows "\<exists>d. editDistanceRunes ar br max' = Some (d, int (lev ar br) \<le> max') \<and> (int (lev ar br) \<le> max' \<longrightarrow> d = lev ar br)"
proof -
  have rows: "\<exists>d. editRows br (nat max') 1 ar [0..<length br + 1] = (d, int (lev ar br) \<le> max') \<and>
      (int (lev ar br) \<le> max' \<longrightarrow> d = lev ar br)"
    using editRows_spec [of br "nat max'" "[]" ar] assms(1) unfolding row_Nil
    by (cases "editRows br (nat max') 1 ar [0..<length br + 1]") (auto split: if_splits simp del: upt_Suc)
  show ?thesis
    using rows lev_length [of ar br] assms unfolding editDistanceRunes_def by (auto simp del: upt_Suc)
qed

end
