(* ===== verification/Search_Match.thy ===== *)
theory Search_Match
  imports Edit_Distance Collection_State
begin

text \<open>
  \<^verbatim>\<open>tiedb/search_match.go\<close>: folding, tokens, scores and the match of one subject. Strings are byte
  strings in UTF-8; what Go's \<^verbatim>\<open>unicode\<close> tables and the normalisation package say of a rune is a
  parameter \<open>u\<close> of the definitions that ask.
\<close>

section \<open>Runes\<close>

type_synonym rune = nat

definition cont :: "nat \<Rightarrow> nat \<Rightarrow> char list \<Rightarrow> bool" where
  "cont lo hi bs \<longleftrightarrow> (case bs of [] \<Rightarrow> False | b # _ \<Rightarrow> lo \<le> (of_char b :: nat) \<and> of_char b \<le> hi)"

definition low6 :: "char list \<Rightarrow> nat \<Rightarrow> nat" where
  "low6 bs i = of_char (bs ! i) mod 64"

text \<open>One step of the decoder: the rune and its width; an invalid byte is \<^verbatim>\<open>U+FFFD\<close> of width one.\<close>

definition decodeRune :: "char \<Rightarrow> char list \<Rightarrow> rune \<times> nat" where
  "decodeRune c rest =
     (let b = of_char c :: nat; n = length rest; next80 = (\<lambda>i. cont 128 191 (drop i rest))
      in if b < 128 then (b, 1)
         else if 194 \<le> b \<and> b \<le> 223 \<and> next80 0 then (b mod 32 * 64 + low6 rest 0, 2)
         else if 224 \<le> b \<and> b \<le> 239 \<and> n \<ge> 2 \<and>
                 cont (if b = 224 then 160 else 128) (if b = 237 then 159 else 191) rest \<and> next80 1
         then (b mod 16 * 4096 + low6 rest 0 * 64 + low6 rest 1, 3)
         else if 240 \<le> b \<and> b \<le> 244 \<and> n \<ge> 3 \<and>
                 cont (if b = 240 then 144 else 128) (if b = 244 then 143 else 191) rest \<and> next80 1 \<and> next80 2
         then (b mod 8 * 262144 + low6 rest 0 * 4096 + low6 rest 1 * 64 + low6 rest 2, 4)
         else (65533, 1))"

lemma decodeRune_width: "snd (decodeRune c rest) \<ge> 1"
  by (simp add: decodeRune_def Let_def)

text \<open>A \<^verbatim>\<open>range\<close> over a string: each rune with its bytes.\<close>

function segments :: "string \<Rightarrow> (rune \<times> string) list" where
  "segments [] = []"
| "segments (c # cs) =
     (let (r, n) = decodeRune c cs in (r, take n (c # cs)) # segments (drop n (c # cs)))"
  by pat_completeness auto
termination
proof (relation "measure length")
  fix c :: char and cs x r n
  assume "x = decodeRune c cs" "(r, n) = x"
  then have "n \<ge> 1" using decodeRune_width [of c cs] by (metis snd_conv)
  then show "(drop n (c # cs), c # cs) \<in> measure length" by simp
qed simp

definition runes :: "string \<Rightarrow> rune list" where
  "runes s = map fst (segments s)"

definition encodeRune :: "rune \<Rightarrow> string" where
  "encodeRune r =
     map char_of
       (if r < 128 then [r]
        else if r < 2048 then [192 + r div 64, 128 + r mod 64]
        else if 1114111 < r \<or> 55296 \<le> r \<and> r \<le> 57343 then [239, 191, 189]
        else if r < 65536 then [224 + r div 4096, 128 + r div 64 mod 64, 128 + r mod 64]
        else [240 + r div 262144, 128 + r div 4096 mod 64, 128 + r div 64 mod 64, 128 + r mod 64])"

lemma concat_segments [simp]: "concat (map snd (segments s)) = s"
proof (induction s rule: segments.induct)
  case (2 c cs)
  obtain r n where d: "decodeRune c cs = (r, n)" by (metis surj_pair)
  show ?case using 2 [OF d [symmetric] refl] d by simp
qed simp

section \<open>Library calls\<close>

record unicode =
  ToLower :: "string \<Rightarrow> string"
  NFD :: "string \<Rightarrow> string"
  isMn :: "rune \<Rightarrow> bool"
  isSpace :: "rune \<Rightarrow> bool"
  isLetter :: "rune \<Rightarrow> bool"
  isDigit :: "rune \<Rightarrow> bool"

definition trimSpace :: "unicode \<Rightarrow> string \<Rightarrow> string" where
  "trimSpace u s =
     (let trim = dropWhile (isSpace u \<circ> fst)
      in concat (map snd (rev (trim (rev (trim (segments s)))))))"

text \<open>\<^verbatim>\<open>strings.Fields\<close>: the runs between spaces.\<close>

fun fieldsLoop :: "unicode \<Rightarrow> (rune \<times> string) list \<Rightarrow> string \<Rightarrow> string list" where
  "fieldsLoop u [] acc = (if acc = '''' then [] else [acc])"
| "fieldsLoop u ((r, bs) # rest) acc =
     (if isSpace u r then (if acc = '''' then [] else [acc]) @ fieldsLoop u rest ''''
      else fieldsLoop u rest (acc @ bs))"

definition joinSpace :: "string list \<Rightarrow> string" where
  "joinSpace ws = concat (case ws of [] \<Rightarrow> [] | w # ws \<Rightarrow> w # map (\<lambda>v. '' '' @ v) ws)"

definition hasPrefix :: "string \<Rightarrow> string \<Rightarrow> bool" where
  "hasPrefix s p \<longleftrightarrow> take (length p) s = p"

fun strIndex :: "string \<Rightarrow> string \<Rightarrow> nat option" where
  "strIndex s p =
     (if hasPrefix s p then Some 0
      else case s of [] \<Rightarrow> None | _ # t \<Rightarrow> map_option Suc (strIndex t p))"

declare strIndex.simps [simp del]

definition contains :: "string \<Rightarrow> string \<Rightarrow> bool" where
  "contains s p \<longleftrightarrow> strIndex s p \<noteq> None"

section \<open>Folding and tokens\<close>

definition apostrophe :: "rune \<Rightarrow> bool" where
  "apostrophe r \<longleftrightarrow> r = 39 \<or> r = 0x2019 \<or> r = 0x02bc"

fun foldLoop :: "unicode \<Rightarrow> rune list \<Rightarrow> bool \<Rightarrow> string \<Rightarrow> string" where
  "foldLoop u [] space b = b"
| "foldLoop u (r # rs) space b =
     (if isMn u r \<or> apostrophe r then foldLoop u rs space b
      else if isSpace u r then
        (if b \<noteq> '''' \<and> \<not> space then foldLoop u rs True (b @ '' '') else foldLoop u rs space b)
      else foldLoop u rs False (b @ encodeRune r))"

definition foldSearchText :: "unicode \<Rightarrow> string \<Rightarrow> string" where
  "foldSearchText u s =
     (if s = '''' then '''' else trimSpace u (foldLoop u (runes (NFD u (ToLower u s))) False ''''))"

definition isSearchTokenRune :: "unicode \<Rightarrow> rune \<Rightarrow> bool" where
  "isSearchTokenRune u r \<longleftrightarrow> isLetter u r \<or> isDigit u r"

fun tokensLoop :: "unicode \<Rightarrow> rune list \<Rightarrow> string \<Rightarrow> string list" where
  "tokensLoop u [] b = (if b = '''' then [] else [b])"
| "tokensLoop u (r # rs) b =
     (if apostrophe r then tokensLoop u rs b
      else if isSearchTokenRune u r then tokensLoop u rs (b @ encodeRune r)
      else (if b = '''' then [] else [b]) @ tokensLoop u rs '''')"

definition searchTokens :: "unicode \<Rightarrow> string \<Rightarrow> string list" where
  "searchTokens u s = tokensLoop u (runes s) ''''"

definition hasSearchToken :: "unicode \<Rightarrow> string \<Rightarrow> bool" where
  "hasSearchToken u s \<longleftrightarrow> (\<exists>r \<in> set (runes s). isSearchTokenRune u r)"

section \<open>Queries\<close>

definition SearchWords :: string where "SearchWords = ''words''"
definition SearchSubstring :: string where "SearchSubstring = ''substring''"
definition SearchPrefix :: string where "SearchPrefix = ''prefix''"
definition SearchFuzzy :: string where "SearchFuzzy = ''fuzzy''"

lemmas search_modes = SearchWords_def SearchSubstring_def SearchPrefix_def SearchFuzzy_def

record SearchQuery =
  sq_Text :: string
  Relations :: "string list"
  TieTypes :: "string list"
  Mode :: string
  sq_Offset :: int
  sq_Limit :: int
  Weights :: "(string \<times> int) list"

record preparedSearchQuery =
  pq_mode :: string
  pq_raw :: string
  tokens :: "string list"
  weights :: "(string \<times> int) list"

definition maxSearchTokens :: nat where "maxSearchTokens = 16"

fun distinctTokens :: "string list \<Rightarrow> string list \<Rightarrow> string list" where
  "distinctTokens [] out = out"
| "distinctTokens (t # ts) out =
     (if t \<in> set out then distinctTokens ts out
      else if length out + 1 = maxSearchTokens then out @ [t]
      else distinctTokens ts (out @ [t]))"

definition prepareSearchQuery :: "unicode \<Rightarrow> SearchQuery \<Rightarrow> preparedSearchQuery" where
  "prepareSearchQuery u q =
     (let text = foldSearchText u (sq_Text q); text = joinSpace (fieldsLoop u (segments text) '''')
      in \<lparr>pq_mode = Mode q, pq_raw = text,
          tokens = (if Mode q = SearchSubstring then [] else distinctTokens (searchTokens u text) []),
          weights = Weights q\<rparr>)"

definition pq_empty :: "unicode \<Rightarrow> preparedSearchQuery \<Rightarrow> bool" where
  "pq_empty u q \<longleftrightarrow>
     pq_raw q = '''' \<or>
     (if pq_mode q = SearchSubstring then \<not> hasSearchToken u (pq_raw q) else tokens q = [])"

section \<open>Scores\<close>

definition weightedScore :: "int \<Rightarrow> string \<Rightarrow> (string \<times> int) list \<Rightarrow> int" where
  "weightedScore score relation ws =
     (let w = (case map_of ws relation of None \<Rightarrow> 0 | Some w \<Rightarrow> w); w = (if w \<le> 0 then 100 else w)
      in score * w div 100)"

definition lengthBonus :: "string \<Rightarrow> string \<Rightarrow> int" where
  "lengthBonus text raw' =
     (let extra = int (length text) - int (length raw')
      in if extra \<le> 0 then 50 else max 0 (50 - extra div 2))"

definition isWordBoundary :: "unicode \<Rightarrow> string \<Rightarrow> nat \<Rightarrow> bool" where
  "isWordBoundary u s i \<longleftrightarrow>
     i = 0 \<or> i \<ge> length s \<or> \<not> isSearchTokenRune u (List.last (runes (take i s)))"

definition substringScore :: "unicode \<Rightarrow> string \<Rightarrow> string \<Rightarrow> int" where
  "substringScore u text raw' =
     (if text = raw' then 1000
      else case strIndex text raw' of
        None \<Rightarrow> 0
      | Some idx \<Rightarrow> if idx = 0 then 850 else if isWordBoundary u text idx then 800 else 600)"

definition fuzzyDistanceFor :: "string \<Rightarrow> int" where
  "fuzzyDistanceFor token =
     (let n = length (runes token) in if n < 3 then 0 else if n < 6 then 1 else 2)"

definition editDistanceWithin :: "string \<Rightarrow> string \<Rightarrow> int \<Rightarrow> (nat \<times> bool) option" where
  "editDistanceWithin a b max' =
     (if max' < 0 then Some (0, False)
      else if a = b then Some (0, True)
      else if max' = 0 then Some (0, False)
      else editDistanceRunes (runes a) (runes b) max')"

text \<open>The loop of \<open>tokenScore\<close> over the value's tokens; \<open>None\<close>: an exact token ends it.\<close>

fun tokenWalk :: "string \<Rightarrow> string \<Rightarrow> string list \<Rightarrow> int \<Rightarrow> int option" where
  "tokenWalk token mode [] best = Some best"
| "tokenWalk token mode (tok # toks) best =
     (if tok = token then None
      else if hasPrefix tok token then tokenWalk token mode toks (max best 700)
      else if mode \<noteq> SearchPrefix \<and> contains tok token then tokenWalk token mode toks (max best 600)
      else tokenWalk token mode toks best)"

text \<open>The outer option of the fuzzy loop is the panic of \<open>editDistanceWithin\<close>.\<close>

fun fuzzyWalk :: "string \<Rightarrow> int \<Rightarrow> string list \<Rightarrow> int \<Rightarrow> int option" where
  "fuzzyWalk token max' [] best = Some best"
| "fuzzyWalk token max' (tok # toks) best =
     (if length tok > maxFuzzyCandidateBytes then fuzzyWalk token max' toks best
      else case editDistanceWithin token tok max' of
        None \<Rightarrow> None
      | Some (d, ok) \<Rightarrow>
          fuzzyWalk token max' toks (if ok \<and> 600 - 100 * int d > best then 600 - 100 * int d else best))"

definition tokenScore :: "searchValue \<Rightarrow> string \<Rightarrow> string \<Rightarrow> (int \<times> bool) option" where
  "tokenScore v token mode =
     (case tokenWalk token mode (sv_tokens v) 0 of
        None \<Rightarrow> Some (800, True)
      | Some best \<Rightarrow>
          (let best = (if best = 0 \<and> mode \<noteq> SearchPrefix \<and> contains (sv_norm v) token then 500 else best);
               best = (if best = 0 \<and> mode = SearchPrefix \<and> hasPrefix (sv_norm v) token then 700 else best);
               fuzzy = (if best = 0 \<and> mode = SearchFuzzy \<and> fuzzyDistanceFor token > 0
                        then fuzzyWalk token (fuzzyDistanceFor token) (sv_tokens v) best else Some best)
           in map_option (\<lambda>best. (best, best > 0)) fuzzy))"

text \<open>The order in which fields win; \<open>None\<close> is the nil field.\<close>

definition betterSearchField :: "int \<Rightarrow> searchField \<Rightarrow> int \<Rightarrow> searchField option \<Rightarrow> bool" where
  "betterSearchField score candidate bestScore best \<longleftrightarrow>
     (case best of
        None \<Rightarrow> True
      | Some b \<Rightarrow>
          if score > bestScore then True
          else if score < bestScore then False
          else if sf_relation candidate \<noteq> sf_relation b then sf_relation candidate < sf_relation b
          else sv_text (sf_value candidate) < sv_text (sf_value b))"

text \<open>Keep the better of the best so far (its score and index) and field \<open>i\<close>.\<close>

definition keepBetter ::
    "searchSubject \<Rightarrow> nat \<Rightarrow> int \<Rightarrow> (int \<times> nat) option \<Rightarrow> (int \<times> nat) option" where
  "keepBetter s i sc best =
     (if betterSearchField sc (ss_fields s ! i) (case best of None \<Rightarrow> -1 | Some (b, _) \<Rightarrow> b)
           (map_option (\<lambda>(_, j). ss_fields s ! j) best)
      then Some (sc, i) else best)"

definition matchSubstring :: "unicode \<Rightarrow> preparedSearchQuery \<Rightarrow> searchSubject \<Rightarrow> (int \<times> nat) option" where
  "matchSubstring u q s =
     fold (\<lambda>i best.
         let f = ss_fields s ! i; text = sv_norm (sf_value f)
         in if \<not> contains text (pq_raw q) then best
            else keepBetter s i (weightedScore (substringScore u text (pq_raw q)) (sf_relation f) (weights q) +
                   lengthBonus text (pq_raw q)) best)
       [0..<length (ss_fields s)] None"

text \<open>The best field for one token; the outer option is the panic.\<close>

fun bestForToken ::
    "preparedSearchQuery \<Rightarrow> searchSubject \<Rightarrow> string \<Rightarrow> nat list \<Rightarrow> (int \<times> nat) option \<Rightarrow> (int \<times> nat) option option" where
  "bestForToken q s token [] best = Some best"
| "bestForToken q s token (i # is) best =
     (case tokenScore (sf_value (ss_fields s ! i)) token (pq_mode q) of
        None \<Rightarrow> None
      | Some (sc, ok) \<Rightarrow>
          bestForToken q s token is
            (if ok then keepBetter s i (weightedScore sc (sf_relation (ss_fields s ! i)) (weights q)) best else best))"

text \<open>Every token must match some field; \<open>Some None\<close>: one does not.\<close>

fun tokensPass ::
    "preparedSearchQuery \<Rightarrow> searchSubject \<Rightarrow> string list \<Rightarrow> int list \<Rightarrow> int \<Rightarrow> (int list \<times> int) option option" where
  "tokensPass q s [] perField tot = Some (Some (perField, tot))"
| "tokensPass q s (token # ts) perField tot =
     (case bestForToken q s token [0..<length (ss_fields s)] None of
        None \<Rightarrow> None
      | Some None \<Rightarrow> Some None
      | Some (Some (best, i)) \<Rightarrow> tokensPass q s ts (perField[i := perField ! i + best]) (tot + best))"

definition phraseField :: "preparedSearchQuery \<Rightarrow> searchSubject \<Rightarrow> int list \<Rightarrow> nat option" where
  "phraseField q s perField =
     map_option snd
       (fold (\<lambda>i best. if contains (sv_norm (sf_value (ss_fields s ! i))) (pq_raw q) then keepBetter s i (perField ! i) best else best)
         [0..<length (ss_fields s)] None)"

definition phraseBonus :: int where "phraseBonus = 250"

definition matchTokens :: "preparedSearchQuery \<Rightarrow> searchSubject \<Rightarrow> (int \<times> nat) option option" where
  "matchTokens q s =
     (case tokensPass q s (tokens q) (replicate (length (ss_fields s)) 0) 0 of
        None \<Rightarrow> None
      | Some None \<Rightarrow> Some None
      | Some (Some (perField, tot)) \<Rightarrow>
          (let phrase = (if length (tokens q) > 1 then phraseField q s perField else None);
               (perField, tot) =
                 (case phrase of
                    None \<Rightarrow> (perField, tot)
                  | Some i \<Rightarrow> (perField[i := perField ! i + phraseBonus], tot + phraseBonus));
               best = fold (\<lambda>i best. keepBetter s i (perField ! i) best) [0..<length perField] None
           in Some (case best of
                      None \<Rightarrow> None
                    | Some (sc, i) \<Rightarrow>
                        if sc \<le> 0 then None
                        else Some (tot + lengthBonus (sv_norm (sf_value (ss_fields s ! i))) (pq_raw q), i))))"

definition pq_match :: "unicode \<Rightarrow> preparedSearchQuery \<Rightarrow> searchSubject \<Rightarrow> (int \<times> nat) option option" where
  "pq_match u q s = (if pq_mode q = SearchSubstring then Some (matchSubstring u q s) else matchTokens q s)"

end
