(* ===== verification/Array_Heap.thy ===== *)
theory Array_Heap
  imports Tie_Prelude
begin

text \<open>
  Go's \<^verbatim>\<open>container/heap\<close> on a slice, as \<open>searchHitHeap\<close> of \<^verbatim>\<open>tiedb/search.go\<close> uses it: sift-up,
  sift-down, push and pop by index. The interface \<open>bounded_best\<close> states what its client relies on
  and proves that keeping the best few of a sequence through such a queue is sorting and cutting.
\<close>

section \<open>The code\<close>

definition swapAt :: "nat \<Rightarrow> nat \<Rightarrow> 'a list \<Rightarrow> 'a list" where
  "swapAt i j h = h[i := h ! j, j := h ! i]"

function siftUp :: "('a \<Rightarrow> 'a \<Rightarrow> int) \<Rightarrow> nat \<Rightarrow> 'a list \<Rightarrow> 'a list" where
  "siftUp cmp j h =
     (let i = (j - 1) div 2
      in if i = j \<or> \<not> cmp (h ! j) (h ! i) < 0 then h else siftUp cmp i (swapAt i j h))"
  by pat_completeness auto
termination
  by (relation "measure (\<lambda>(_, j, _). j)") auto

function siftDown :: "('a \<Rightarrow> 'a \<Rightarrow> int) \<Rightarrow> nat \<Rightarrow> nat \<Rightarrow> 'a list \<Rightarrow> 'a list" where
  "siftDown cmp i n h =
     (let j1 = 2 * i + 1
      in if j1 \<ge> n then h
         else let j = (if j1 + 1 < n \<and> cmp (h ! (j1 + 1)) (h ! j1) < 0 then j1 + 1 else j1)
              in if \<not> cmp (h ! j) (h ! i) < 0 then h else siftDown cmp j n (swapAt i j h))"
  by pat_completeness auto
termination
  by (relation "measure (\<lambda>(_, i, n, _). n - i)") (auto split: if_splits)

declare siftUp.simps [simp del] siftDown.simps [simp del]

definition heapPush :: "('a \<Rightarrow> 'a \<Rightarrow> int) \<Rightarrow> 'a \<Rightarrow> 'a list \<Rightarrow> 'a list" where
  "heapPush cmp x h = siftUp cmp (length h) (h @ [x])"

definition heapPop :: "('a \<Rightarrow> 'a \<Rightarrow> int) \<Rightarrow> 'a list \<Rightarrow> 'a list" where
  "heapPop cmp h =
     (let n = length h - 1 in take n (siftDown cmp 0 n (swapAt 0 n h)))"

section \<open>The interface\<close>

text \<open>A comparator that orders, and tells distinct elements apart.\<close>

locale strict_cmp =
  fixes cmp :: "'a \<Rightarrow> 'a \<Rightarrow> int"
  assumes cmp_total: "total_cmp cmp"
    and cmp_anti: "cmp a b \<le> 0 \<Longrightarrow> cmp b a \<le> 0 \<Longrightarrow> a = b"
    and cmp_flip: "0 \<le> cmp a b \<Longrightarrow> cmp b a \<le> 0"
begin

abbreviation best :: "'a list \<Rightarrow> 'a list" where
  "best xs \<equiv> sort_by (\<lambda>a b. cmp b a) xs"

lemma linear: "cmp a b \<le> 0 \<or> cmp b a \<le> 0"
  using cmp_total unfolding total_cmp_def by blast

lemma cmp_trans: "cmp a b \<le> 0 \<Longrightarrow> cmp b c \<le> 0 \<Longrightarrow> cmp a c \<le> 0"
  using cmp_total unfolding total_cmp_def by blast

lemma cmp_refl: "cmp a a \<le> 0"
  using linear by blast

lemma converse_total: "total_cmp (\<lambda>a b. cmp b a)"
  using linear cmp_trans unfolding total_cmp_def by blast

lemma best_unique:
  "sorted_wrt (\<lambda>a b. cmp b a \<le> 0) xs \<Longrightarrow> mset xs = mset ys \<Longrightarrow> xs = best ys"
  by (rule sorted_by_unique [OF converse_total]) (auto intro: cmp_anti sorted_sort_by [OF converse_total])

lemma best_mset: "mset xs = mset ys \<Longrightarrow> best xs = best ys"
  by (rule best_unique) (auto intro: sorted_sort_by [OF converse_total])

lemma sorted_take: "sorted_wrt P xs \<Longrightarrow> sorted_wrt P (take n xs)"
  by (metis append_take_drop_id sorted_wrt_append)

lemma take_insort: "take n (insort_by c x ys) = take n (insort_by c x (take n ys))"
  by (induction ys arbitrary: n) (auto simp: take_Cons split: nat.splits)

text \<open>The worst element stands last.\<close>

lemma mset_drop_worst:
  assumes "xs \<noteq> []" "m \<in> set xs" "\<And>y. y \<in> set xs \<Longrightarrow> cmp m y \<le> 0"
  shows "take (length xs - 1) (best xs) = best (remove1 m xs)"
proof (rule best_unique)
  let ?b = "best xs"
  have s: "sorted_wrt (\<lambda>a b. cmp b a \<le> 0) ?b" by (rule sorted_sort_by [OF converse_total])
  show "sorted_wrt (\<lambda>a b. cmp b a \<le> 0) (take (length xs - 1) ?b)" by (rule sorted_take [OF s])
  have ne: "?b \<noteq> []" using assms(1) by (metis length_0_conv length_sort_by)
  then have b: "?b = butlast ?b @ [last ?b]" by simp
  have lb: "last ?b \<in> set xs" using ne by (metis last_in_set set_sort_by)
  have "m \<in> set ?b" using assms(2) by simp
  then have "cmp (last ?b) m \<le> 0"
    using s b cmp_refl by (metis (no_types, lifting) Un_iff empty_iff empty_set set_ConsD set_append sorted_wrt_append list.set_intros(1))
  with assms(3) [OF lb] have m: "last ?b = m" by (blast intro: cmp_anti)
  have t: "take (length xs - 1) ?b = butlast ?b" by (simp add: butlast_conv_take)
  have "mset xs = mset (butlast ?b) + {#m#}"
    by (metis b m mset_append mset_single_iff_right mset_sort_by mset.simps)
  then show "mset (take (length xs - 1) ?b) = mset (remove1 m xs)" unfolding t by simp
qed

end

locale bounded_best = strict_cmp cmp
  for cmp :: "'a \<Rightarrow> 'a \<Rightarrow> int" +
  fixes push :: "'a \<Rightarrow> 'a list \<Rightarrow> 'a list"
    and pop :: "'a list \<Rightarrow> 'a list"
    and hinv :: "'a list \<Rightarrow> bool"
  assumes hinv_empty: "hinv []"
    and hinv_push: "hinv h \<Longrightarrow> hinv (push x h)"
    and hinv_pop: "hinv h \<Longrightarrow> h \<noteq> [] \<Longrightarrow> hinv (pop h)"
    and mset_push: "hinv h \<Longrightarrow> mset (push x h) = add_mset x (mset h)"
    and mset_pop: "hinv h \<Longrightarrow> h \<noteq> [] \<Longrightarrow> mset (pop h) = mset h - {#hd h#}"
    and hd_worst: "hinv h \<Longrightarrow> x \<in> set h \<Longrightarrow> cmp (hd h) x \<le> 0"
begin

text \<open>The client's step: fill up to the capacity, then replace the worst by anything better.\<close>

definition keep :: "nat \<Rightarrow> 'a \<Rightarrow> 'a list \<Rightarrow> 'a list" where
  "keep cap x h = (if length h < cap then push x h else if cmp x (hd h) > 0 then push x (pop h) else h)"

lemma keep_step:
  assumes "hinv h" "0 < cap" "best h = take cap (best seen)"
  shows "hinv (keep cap x h)" and "best (keep cap x h) = take cap (best (x # seen))"
proof -
  have len: "length h = min cap (length seen)" by (metis assms(3) length_sort_by length_take min.commute)
  have take: "take cap (best (x # seen)) = take cap (best (x # h))"
    using take_insort [of cap _ x "best seen"] assms(3) by simp
  consider "length h < cap" | "length h = cap" using len by linarith
  then have "hinv (keep cap x h) \<and> best (keep cap x h) = take cap (best (x # h))"
  proof cases
    case 1
    have "best (push x h) = best (x # h)" by (rule best_mset) (simp add: mset_push [OF assms(1)])
    moreover have "length (best (x # h)) \<le> cap" using 1 by (simp only: length_sort_by) simp
    ultimately show ?thesis
      using 1 hinv_push [OF assms(1)] by (simp add: keep_def del: sort_by.simps)
  next
    case 2
    then have ne: "h \<noteq> []" using assms(2) by auto
    note worst = hd_worst [OF assms(1)]
    have cap: "cap = length (x # h) - 1" using 2 by simp
    show ?thesis
    proof (cases "cmp x (hd h) > 0")
      case True
      then have xw: "cmp (hd h) x \<le> 0" "x \<noteq> hd h" using linear cmp_refl by (metis not_less, metis not_less)
      have "mset (push x (pop h)) = mset (remove1 (hd h) (x # h))"
        using mset_push [OF hinv_pop [OF assms(1) ne], of x] mset_pop [OF assms(1) ne] xw(2) ne by simp
      then have "best (push x (pop h)) = best (remove1 (hd h) (x # h))" by (rule best_mset)
      also have "\<dots> = take cap (best (x # h))"
        unfolding cap by (rule mset_drop_worst [symmetric]) (use worst xw(1) ne in auto)
      finally have "best (push x (pop h)) = take cap (best (x # h))" .
      with 2 True show ?thesis using hinv_push [OF hinv_pop [OF assms(1) ne]] by (simp add: keep_def)
    next
      case False
      then have "cmp x y \<le> 0" if "y \<in> set (x # h)" for y
        using that worst cmp_trans [of x "hd h" y] cmp_refl by auto
      then have "take cap (best (x # h)) = best h"
        unfolding cap using mset_drop_worst [of "x # h" x] by simp
      with 2 False assms(1) show ?thesis by (simp add: keep_def)
    qed
  qed
  then show "hinv (keep cap x h)" "best (keep cap x h) = take cap (best (x # seen))"
    unfolding take by blast+
qed

lemma keep_all:
  assumes "0 < cap" "hinv h" "best h = take cap (best seen)"
  shows "hinv (fold (keep cap) xs h) \<and> best (fold (keep cap) xs h) = take cap (best (rev xs @ seen))"
  using assms(2,3)
proof (induction xs arbitrary: h seen)
  case Nil
  then show ?case by simp
next
  case (Cons x xs)
  note k = keep_step [OF Cons.prems(1) assms(1) Cons.prems(2), of x]
  from Cons.IH [OF k] show ?case by simp
qed

text \<open>Keeping the best \<open>cap\<close> of a list and sorting them is sorting it all and cutting.\<close>

lemma keep_best: "0 < cap \<Longrightarrow> best (fold (keep cap) xs []) = take cap (best xs)"
  using keep_all [of cap "[]" "[]" xs] hinv_empty best_mset [of "rev xs" xs] by simp

end

section \<open>The array heap provides it\<close>

lemma length_swapAt [simp]: "length (swapAt i j h) = length h"
  by (simp add: swapAt_def)

lemma nth_swapAt:
  "i < length h \<Longrightarrow> j < length h \<Longrightarrow> k < length h \<Longrightarrow>
     swapAt i j h ! k = (if k = j then h ! i else if k = i then h ! j else h ! k)"
  by (auto simp: swapAt_def nth_list_update)

lemma mset_swapAt [simp]: "i < length h \<Longrightarrow> j < length h \<Longrightarrow> mset (swapAt i j h) = mset h"
  by (simp add: swapAt_def mset_swap)

lemma siftUp_mset: "j < length h \<Longrightarrow> mset (siftUp cmp j h) = mset h \<and> length (siftUp cmp j h) = length h"
proof (induction cmp j h rule: siftUp.induct)
  case (1 cmp j h)
  let ?i = "(j - 1) div 2"
  show ?case
  proof (cases "?i = j \<or> \<not> cmp (h ! j) (h ! ?i) < 0")
    case True
    then show ?thesis by (simp add: siftUp.simps [of cmp j h] Let_def)
  next
    case False
    moreover have "?i < length h" using 1(2) by linarith
    ultimately show ?thesis using 1 by (simp add: siftUp.simps [of cmp j h] Let_def)
  qed
qed

lemma siftDown_mset:
  "n \<le> length h \<Longrightarrow> mset (siftDown cmp i n h) = mset h \<and> length (siftDown cmp i n h) = length h \<and>
     drop n (siftDown cmp i n h) = drop n h"
proof (induction cmp i n h rule: siftDown.induct)
  case (1 cmp i n h)
  define j where "j = (if 2 * i + 1 + 1 < n \<and> cmp (h ! (2 * i + 1 + 1)) (h ! (2 * i + 1)) < 0 then 2 * i + 1 + 1 else 2 * i + 1)"
  have unf: "siftDown cmp i n h = (if 2 * i + 1 \<ge> n then h else if \<not> cmp (h ! j) (h ! i) < 0 then h
      else siftDown cmp j n (swapAt i j h))"
    by (simp add: siftDown.simps [of cmp i n h] j_def Let_def)
  show ?case
  proof (cases "2 * i + 1 \<ge> n \<or> \<not> cmp (h ! j) (h ! i) < 0")
    case True
    then show ?thesis by (auto simp: unf)
  next
    case False
    then have jn: "j < n" "i < n" by (auto simp: j_def)
    then have lt: "j < length h" "i < length h" using 1(2) by auto
    have d: "drop n (swapAt i j h) = drop n h" using jn by (simp add: swapAt_def)
    have "mset (siftDown cmp j n (swapAt i j h)) = mset (swapAt i j h) \<and>
        length (siftDown cmp j n (swapAt i j h)) = length (swapAt i j h) \<and>
        drop n (siftDown cmp j n (swapAt i j h)) = drop n (swapAt i j h)"
      using 1(1) [OF refl _ j_def] False 1(2) by simp
    with False d lt show ?thesis by (simp add: unf)
  qed
qed

context strict_cmp
begin

abbreviation le :: "'a \<Rightarrow> 'a \<Rightarrow> bool" where
  "le a b \<equiv> cmp a b \<le> 0"

definition heap :: "'a list \<Rightarrow> nat \<Rightarrow> bool" where
  "heap h n \<longleftrightarrow> (\<forall>k. 0 < k \<and> k < n \<longrightarrow> le (h ! ((k - 1) div 2)) (h ! k))"

lemma not_less_le: "\<not> cmp a b < 0 \<Longrightarrow> le b a"
  by (rule cmp_flip) simp

lemma heap_root:
  assumes "heap h n" "k < n"
  shows "le (h ! 0) (h ! k)"
  using assms(2)
proof (induction k rule: less_induct)
  case (less k)
  show ?case
  proof (cases "k = 0")
    case True
    then show ?thesis by (simp add: cmp_refl)
  next
    case False
    then have "le (h ! ((k - 1) div 2)) (h ! k)" using assms(1) less.prems by (simp add: heap_def)
    moreover have "le (h ! 0) (h ! ((k - 1) div 2))" using False less by auto
    ultimately show ?thesis by (blast intro: cmp_trans)
  qed
qed

text \<open>A heap but for the element at \<open>j\<close>, which may be smaller than its parent.\<close>

definition heapBut :: "'a list \<Rightarrow> nat \<Rightarrow> bool" where
  "heapBut h j \<longleftrightarrow>
     (\<forall>k. 0 < k \<and> k < length h \<and> k \<noteq> j \<longrightarrow> le (h ! ((k - 1) div 2)) (h ! k)) \<and>
     (\<forall>k. 0 < k \<and> k < length h \<and> (k - 1) div 2 = j \<and> 0 < j \<longrightarrow> le (h ! ((j - 1) div 2)) (h ! k))"

lemma siftUp_heap: "j < length h \<Longrightarrow> heapBut h j \<Longrightarrow> heap (siftUp cmp j h) (length h)"
proof (induction j arbitrary: h rule: less_induct)
  case (less j)
  let ?i = "(j - 1) div 2"
  show ?case
  proof (cases "?i = j \<or> \<not> cmp (h ! j) (h ! ?i) < 0")
    case True
    then have "j = 0 \<or> le (h ! ?i) (h ! j)" using not_less_le by auto
    then have "heap h (length h)" using less.prems(2) unfolding heap_def heapBut_def by (metis bot_nat_0.not_eq_extremum)
    with True show ?thesis by (simp add: siftUp.simps [of cmp j h] Let_def)
  next
    case False
    then have ij: "?i < j" "0 < j" "?i < length h" using less.prems(1) by auto
    let ?g = "swapAt ?i j h"
    have up: "le (h ! j) (h ! ?i)" using False by simp
    have g: "?g ! k = (if k = j then h ! ?i else if k = ?i then h ! j else h ! k)" if "k < length h" for k
      using nth_swapAt [OF ij(3) less.prems(1) that] .
    have b: "\<And>k. 0 < k \<Longrightarrow> k < length h \<Longrightarrow> k \<noteq> j \<Longrightarrow> le (h ! ((k - 1) div 2)) (h ! k)"
      "\<And>k. 0 < k \<Longrightarrow> k < length h \<Longrightarrow> (k - 1) div 2 = j \<Longrightarrow> le (h ! ?i) (h ! k)"
      using less.prems(2) ij(2) unfolding heapBut_def by blast+
    have "heapBut ?g ?i"
      unfolding heapBut_def
    proof (intro conjI allI impI; elim conjE)
      fix k
      assume k: "0 < k" "k < length ?g" "k \<noteq> ?i"
      then have kl: "k < length h" "(k - 1) div 2 < length h" by auto
      show "le (?g ! ((k - 1) div 2)) (?g ! k)"
      proof (cases "k = j")
        case True
        then show ?thesis using g [OF kl(1)] g [OF kl(2)] up ij by simp
      next
        case False
        have pk: "le (h ! ((k - 1) div 2)) (h ! k)" by (rule b(1) [OF k(1) kl(1) False])
        show ?thesis
        proof (cases "(k - 1) div 2 = j")
          case True
          then show ?thesis using g [OF kl(1)] g [OF kl(2)] b(2) [OF k(1) kl(1)] False k(3) ij by auto
        next
          case F2: False
          show ?thesis
          proof (cases "(k - 1) div 2 = ?i")
            case True
            then have "le (h ! j) (h ! k)" using up pk cmp_trans by metis
            with True show ?thesis using g [OF kl(1)] g [OF kl(2)] False k(3) ij by auto
          next
            case False
            then show ?thesis using g [OF kl(1)] g [OF kl(2)] F2 \<open>k \<noteq> j\<close> k(3) pk by simp
          qed
        qed
      qed
    next
      fix k
      assume k: "0 < k" "k < length ?g" "(k - 1) div 2 = ?i" "0 < ?i"
      have half: "(m - 1) div 2 \<le> m" for m :: nat by simp
      have kl: "k < length h" "(?i - 1) div 2 < length h"
        using k(2) le_less_trans [OF half ij(3)] by simp_all
      have p: "le (h ! ((?i - 1) div 2)) (h ! ?i)" using b(1) [of ?i] k(4) ij by auto
      have "(m - 1) div 2 < m" if "0 < m" for m :: nat using that by linarith
      from this [OF k(4)] ij(1) have ne: "(?i - 1) div 2 \<noteq> j" "(?i - 1) div 2 \<noteq> ?i" by linarith+
      have "?g ! ((?i - 1) div 2) = h ! ((?i - 1) div 2)" using g [OF kl(2)] ne by simp
      moreover have "le (h ! ((?i - 1) div 2)) (?g ! k)"
      proof (cases "k = j")
        case True
        then show ?thesis using g [OF kl(1)] p by simp
      next
        case False
        then have "le (h ! ?i) (h ! k)" using b(1) [OF k(1) kl(1)] k(3) by simp
        then have "le (h ! ((?i - 1) div 2)) (h ! k)" using p cmp_trans by blast
        moreover have "k \<noteq> ?i" using k by auto
        ultimately show ?thesis using g [OF kl(1)] False by simp
      qed
      ultimately show "le (?g ! ((?i - 1) div 2)) (?g ! k)" by simp
    qed
    from less.IH [OF ij(1) _ this] ij False show ?thesis by (simp add: siftUp.simps [of cmp j h] Let_def)
  qed
qed

text \<open>A heap but for the element at \<open>i\<close>, which may be larger than its children.\<close>

definition heapAbove :: "'a list \<Rightarrow> nat \<Rightarrow> nat \<Rightarrow> bool" where
  "heapAbove h i n \<longleftrightarrow>
     (\<forall>k. 0 < k \<and> k < n \<and> (k - 1) div 2 \<noteq> i \<longrightarrow> le (h ! ((k - 1) div 2)) (h ! k)) \<and>
     (\<forall>k. 0 < k \<and> k < n \<and> (k - 1) div 2 = i \<and> 0 < i \<longrightarrow> le (h ! ((i - 1) div 2)) (h ! k))"

lemma siftDown_heap: "n \<le> length h \<Longrightarrow> heapAbove h i n \<Longrightarrow> heap (siftDown cmp i n h) n"
proof (induction "n - i" arbitrary: i h rule: less_induct)
  case less
  define j where "j = (if 2 * i + 1 + 1 < n \<and> cmp (h ! (2 * i + 1 + 1)) (h ! (2 * i + 1)) < 0 then 2 * i + 1 + 1 else 2 * i + 1)"
  have unf: "siftDown cmp i n h = (if 2 * i + 1 \<ge> n then h else if \<not> cmp (h ! j) (h ! i) < 0 then h
      else siftDown cmp j n (swapAt i j h))"
    by (simp add: siftDown.simps [of cmp i n h] j_def Let_def)
  have kids: "k = 2 * i + 1 \<or> k = 2 * i + 2" if "0 < k" "(k - 1) div 2 = i" for k
    using that by linarith
  have a: "\<And>k. 0 < k \<Longrightarrow> k < n \<Longrightarrow> (k - 1) div 2 \<noteq> i \<Longrightarrow> le (h ! ((k - 1) div 2)) (h ! k)"
    "\<And>k. 0 < k \<Longrightarrow> k < n \<Longrightarrow> (k - 1) div 2 = i \<Longrightarrow> 0 < i \<Longrightarrow> le (h ! ((i - 1) div 2)) (h ! k)"
    using less.prems(2) unfolding heapAbove_def by blast+
  show ?case
  proof (cases "2 * i + 1 \<ge> n")
    case True
    then have "heap h n" using a(1) kids unfolding heap_def by force
    with True show ?thesis by (simp add: unf)
  next
    case False
    have jn: "j < n" "i < j" "(j - 1) div 2 = i" "0 < j" using False by (auto simp: j_def)
    have smaller: "le (h ! j) (h ! k)" if "0 < k" "k < n" "(k - 1) div 2 = i" for k
      using kids [OF that(1,3)] that(2) not_less_le cmp_refl by (auto simp: j_def not_less)
    show ?thesis
    proof (cases "cmp (h ! j) (h ! i) < 0")
      case stop: False
      then have "le (h ! i) (h ! j)" by (rule not_less_le)
      then have "heap h n" using a(1) smaller cmp_trans unfolding heap_def by metis
      with stop False show ?thesis by (simp add: unf)
    next
      case go: True
      let ?g = "swapAt i j h"
      have lt: "i < length h" "j < length h" using jn less.prems(1) by auto
      have g: "?g ! k = (if k = j then h ! i else if k = i then h ! j else h ! k)" if "k < n" for k
        using nth_swapAt [OF lt, of k] that less.prems(1) by simp
      have par: "(k - 1) div 2 < n" if "k < n" for k using that by linarith
      have "heapAbove ?g j n"
        unfolding heapAbove_def
      proof (intro conjI allI impI; elim conjE)
        fix k
        assume k: "0 < k" "k < n" "(k - 1) div 2 \<noteq> j"
        show "le (?g ! ((k - 1) div 2)) (?g ! k)"
        proof (cases "(k - 1) div 2 = i")
          case True
          have "k \<noteq> i" using True k(1) by linarith
          then show ?thesis
            using g [OF k(2)] g [OF par [OF k(2)]] True jn(2) go smaller [OF k(1,2) True] by auto
        next
          case F: False
          have kj: "k \<noteq> j" using F jn(3) by auto
          have pk: "le (h ! ((k - 1) div 2)) (h ! k)" by (rule a(1) [OF k(1,2) F])
          show ?thesis
          proof (cases "k = i")
            case True
            then have "le (h ! ((i - 1) div 2)) (h ! j)" using a(2) [OF jn(4,1,3)] k(1) by simp
            then show ?thesis using g [OF k(2)] g [OF par [OF k(2)]] True F k(3) jn(2) by simp
          next
            case False
            then show ?thesis using g [OF k(2)] g [OF par [OF k(2)]] F kj k(3) pk by simp
          qed
        qed
      next
        fix k
        assume k: "0 < k" "k < n" "(k - 1) div 2 = j" "0 < j"
        have "le (h ! j) (h ! k)" using a(1) [OF k(1,2)] k(3) jn(2) by simp
        moreover have "k \<noteq> i" "k \<noteq> j" using k(1,3) jn(2) by linarith+
        ultimately show "le (?g ! ((j - 1) div 2)) (?g ! k)"
          using g [OF k(2)] g [of i] jn by auto
      qed
      from less.hyps [OF _ _ this] jn less.prems(1) have "heap (siftDown cmp j n ?g) n" by simp
      with False go show ?thesis by (simp add: unf)
    qed
  qed
qed

lemma heapPush_spec:
  assumes "heap h (length h)"
  shows "heap (heapPush cmp x h) (length (heapPush cmp x h))" and "mset (heapPush cmp x h) = add_mset x (mset h)"
proof -
  let ?g = "h @ [x]"
  note m = siftUp_mset [of "length h" ?g cmp]
  then show "mset (heapPush cmp x h) = add_mset x (mset h)" by (simp add: heapPush_def)
  have half: "(m - 1) div 2 < length h" if "m < length h" for m :: nat using that by linarith
  have "heapBut ?g (length h)"
    unfolding heapBut_def
  proof (intro conjI allI impI; elim conjE)
    fix k
    assume k: "0 < k" "k < length ?g" "k \<noteq> length h"
    then have "k < length h" by simp
    with k(1) assms half [OF this] show "le (?g ! ((k - 1) div 2)) (?g ! k)" by (simp add: heap_def nth_append)
  next
    fix k
    assume "0 < k" "k < length ?g" "(k - 1) div 2 = length h" "0 < length h"
    then show "le (?g ! ((length h - 1) div 2)) (?g ! k)" by simp
  qed
  from siftUp_heap [OF _ this] m show "heap (heapPush cmp x h) (length (heapPush cmp x h))"
    by (simp add: heapPush_def)
qed

lemma heapPop_spec:
  assumes "heap h (length h)" "h \<noteq> []"
  shows "heap (heapPop cmp h) (length (heapPop cmp h))" and "mset (heapPop cmp h) = mset h - {#hd h#}"
proof -
  define n where "n = length h - 1"
  let ?g = "swapAt 0 n h"
  let ?d = "siftDown cmp 0 n ?g"
  have n: "n < length h" "0 < length h" "length h = Suc n" using assms(2) by (auto simp: n_def)
  have pop: "heapPop cmp h = take n ?d" by (simp add: heapPop_def n_def Let_def)
  note m = siftDown_mset [of n ?g cmp 0]
  have g: "?g ! k = (if k = n then h ! 0 else if k = 0 then h ! n else h ! k)" if "k < length h" for k
    using nth_swapAt [OF n(2,1) that] .
  have "heapAbove ?g 0 n"
    unfolding heapAbove_def
  proof (intro conjI allI impI; elim conjE)
    fix k
    assume k: "0 < k" "k < n" "(k - 1) div 2 \<noteq> 0"
    then have "(k - 1) div 2 < n" by linarith
    moreover have "le (h ! ((k - 1) div 2)) (h ! k)" using assms(1) k n by (simp add: heap_def)
    ultimately show "le (?g ! ((k - 1) div 2)) (?g ! k)" using g [of k] g [of "(k - 1) div 2"] k n by simp
  qed simp
  from siftDown_heap [OF _ this] n have "heap ?d n" by simp
  moreover have "length (take n ?d) = n" using m n by simp
  moreover have "(k - 1) div 2 < n" if "k < n" for k using that by linarith
  ultimately show "heap (heapPop cmp h) (length (heapPop cmp h))" by (simp add: pop heap_def)
  have "drop n ?g = [?g ! n]" using n by (metis Cons_nth_drop_Suc drop_all le_refl length_swapAt)
  then have "drop n ?d = [hd h]" using m n g [of n] assms(2) by (simp add: hd_conv_nth)
  then have "mset ?d = mset (take n ?d) + {#hd h#}" by (metis append_take_drop_id mset_append mset_single_iff)
  moreover have "mset ?d = mset h" using m n by simp
  ultimately show "mset (heapPop cmp h) = mset h - {#hd h#}" by (metis add_diff_cancel_right' pop)
qed

end

sublocale strict_cmp \<subseteq> array: bounded_best cmp "heapPush cmp" "heapPop cmp" "\<lambda>h. heap h (length h)"
proof unfold_locales
  show "heap [] (length [])" by (simp add: heap_def)
  show "cmp (hd h) x \<le> 0" if "heap h (length h)" "x \<in> set h" for h x
    using that heap_root [OF that(1)] by (metis hd_conv_nth in_set_conv_nth length_greater_0_conv length_pos_if_in_set)
qed (auto intro: heapPush_spec heapPop_spec simp: heapPush_spec(2) heapPop_spec(2))

end
