(* ===== verification/Search.thy ===== *)
theory Search
  imports Search_Match Array_Heap Check_Index
begin

text \<open>
  \<^verbatim>\<open>tiedb/search.go\<close>: free-text search. A query is clamped, a corpus of the searchable fields is built
  from the index or taken from the collection's bounded cache, every subject is scored, and a heap
  keeps the best hits of the page.
\<close>

section \<open>Queries\<close>

definition DefaultSearchLimit :: int where "DefaultSearchLimit = 100"
definition MaxSearchLimit :: int where "MaxSearchLimit = 1000"
definition maxSearchOffset :: int where "maxSearchOffset = 100000"
definition maxSearchTextRunes :: nat where "maxSearchTextRunes = 256"
definition maxSearchFieldBytes :: nat where "maxSearchFieldBytes = 1024"
definition maxSearchNameBytes :: nat where "maxSearchNameBytes = 256"
definition maxSearchRelations :: nat where "maxSearchRelations = 16"
definition maxSearchTypes :: nat where "maxSearchTypes = 32"
definition maxSearchCorpora :: nat where "maxSearchCorpora = 16"

lemmas search_limits = DefaultSearchLimit_def MaxSearchLimit_def maxSearchOffset_def maxSearchTextRunes_def
  maxSearchFieldBytes_def maxSearchNameBytes_def maxSearchRelations_def maxSearchTypes_def maxSearchCorpora_def

definition truncateSearchText :: "string \<Rightarrow> nat \<Rightarrow> string" where
  "truncateSearchText s maxRunes = concat (map snd (take maxRunes (segments s)))"

fun dedupeLoop :: "unicode \<Rightarrow> nat \<Rightarrow> string list \<Rightarrow> string list \<Rightarrow> string list" where
  "dedupeLoop u limit [] out = out"
| "dedupeLoop u limit (v # vs) out =
     (let v = trimSpace u v
      in if v = '''' \<or> length v > maxSearchNameBytes \<or> v \<in> set out then dedupeLoop u limit vs out
         else if length out + 1 = limit then out @ [v]
         else dedupeLoop u limit vs (out @ [v]))"

definition dedupeNonEmpty :: "unicode \<Rightarrow> string list \<Rightarrow> nat \<Rightarrow> string list" where
  "dedupeNonEmpty u values limit = (if values = [] \<or> limit = 0 then [] else dedupeLoop u limit values [])"

text \<open>\<open>Weights\<close> lists the Go map in the order of its iteration; a later entry overwrites.\<close>

definition clampWeights :: "unicode \<Rightarrow> string list \<Rightarrow> (string \<times> int) list \<Rightarrow> (string \<times> int) list" where
  "clampWeights u rels ws =
     fold (\<lambda>(relation, w) out.
         let relation = trimSpace u relation
         in if relation \<notin> set rels \<or> w \<le> 0 then out
            else AList.update relation (min 1000 (max 10 w)) out) ws []"

definition normalizeSearchQuery :: "unicode \<Rightarrow> SearchQuery \<Rightarrow> SearchQuery" where
  "normalizeSearchQuery u q =
     (let rels = sort (dedupeNonEmpty u (Relations q) maxSearchRelations);
          types = sort (dedupeNonEmpty u (TieTypes q) maxSearchTypes)
      in \<lparr>sq_Text = truncateSearchText (trimSpace u (sq_Text q)) maxSearchTextRunes,
          Relations = rels, TieTypes = types,
          Mode = (if Mode q \<in> {SearchSubstring, SearchWords, SearchPrefix, SearchFuzzy} then Mode q else SearchWords),
          sq_Offset = min maxSearchOffset (max 0 (sq_Offset q)),
          sq_Limit = min MaxSearchLimit (if sq_Limit q \<le> 0 then DefaultSearchLimit else sq_Limit q),
          Weights = (if Weights q = [] then [] else clampWeights u rels (Weights q))\<rparr>)"

text \<open>Names and lists carry their lengths, so the key is uniquely decodable.\<close>

definition writeList :: "string list \<Rightarrow> string" where
  "writeList values =
     decimal (length values) @ '';'' @ concat (map (\<lambda>v. decimal (length v) @ '':'' @ v) values)"

definition corpusKey :: "SearchQuery \<Rightarrow> string" where
  "corpusKey q = writeList (Relations q) @ ''|'' @ writeList (TieTypes q)"

section \<open>The corpus\<close>

definition corpusBytes :: "searchSubject list \<Rightarrow> int" where
  "corpusBytes subjects =
     sum_list (map (\<lambda>s. int (length (ss_key s)) + 48 +
       sum_list (map (\<lambda>f. int (length (sv_text (sf_value f)) + length (sv_norm (sf_value f)) +
         length (sv_tokens (sf_value f)) * 16) + 32) (ss_fields s))) subjects)"

definition corpusOf :: "u64 \<Rightarrow> searchSubject list \<Rightarrow> searchCorpus" where
  "corpusOf revision subjects =
     \<lparr>sc_revision = revision, sc_subjects = subjects, sc_bytes = corpusBytes subjects, sc_lastUse = 0\<rparr>"

definition valueFor :: "unicode \<Rightarrow> string \<Rightarrow> searchValue" where
  "valueFor u text = (let n = foldSearchText u text in \<lparr>sv_text = text, sv_norm = n, sv_tokens = searchTokens u n\<rparr>)"

text \<open>
  \<open>addSubject\<close>; the text and value caches of the build hold the results of the pure functions
  \<open>getValueString\<close> and \<open>valueFor\<close>, and an id has one level, so they do not appear.
\<close>

definition fieldOf :: "unicode \<Rightarrow> (u64 \<times> string) list \<Rightarrow> collection \<Rightarrow> UniqueAssociation \<Rightarrow> searchField option" where
  "fieldOf u relIDs ic ua =
     (case levelOf ic (AssociateTo ua) of
        None \<Rightarrow> None
      | Some level \<Rightarrow>
          (let text = getValueString ic level (AssociateTo ua)
           in if text = '''' \<or> length text > maxSearchFieldBytes then None
              else Some \<lparr>sf_relation = the (map_of relIDs (Relation ua)), sf_value = valueFor u text\<rparr>))"

definition addSubject ::
    "unicode \<Rightarrow> (u64 \<times> string) list \<Rightarrow> collection \<Rightarrow> u64 \<Rightarrow> int \<Rightarrow> AssociationSet \<Rightarrow> searchSubject option" where
  "addSubject u relIDs ic subjectID level cur =
     (let refs = filter (\<lambda>ua. map_of relIDs (Relation ua) \<noteq> None) (map fst (as_ForEach cur))
      in if refs = [] then None
         else let key = getValueString ic level subjectID
              in if key = '''' then None
                 else let fields = List.map_filter (fieldOf u relIDs ic) refs
                      in if fields = [] then None else Some \<lparr>ss_key = key, ss_fields = fields\<rparr>)"

text \<open>Names to entry ids; a name that was never interned is skipped.\<close>

fun resolveIDs ::
    "string list \<Rightarrow> (u64 \<times> string) list \<Rightarrow> collection \<Rightarrow> (u64 \<times> string) list \<times> collection" where
  "resolveIDs [] out ic = (out, ic)"
| "resolveIDs (r # rs) out ic =
     (case getEntryFromString r ic of
        (e, ic) \<Rightarrow> resolveIDs rs (case e of None \<Rightarrow> out | Some (i, _) \<Rightarrow> AList.update i r out) ic)"

text \<open>The narrowed path: the subjects the reverse index lists for each type, each once.\<close>

fun narrowLoop ::
    "u64 \<Rightarrow> string list \<Rightarrow> u64 list \<Rightarrow> collection \<Rightarrow> u64 list \<times> collection" where
  "narrowLoop tieTypeID [] seen ic = (seen, ic)"
| "narrowLoop tieTypeID (tieType # types) seen ic =
     (case GetReverseAssociations tieType ic of
        ((_, False), ic) \<Rightarrow> narrowLoop tieTypeID types seen ic
      | ((reversed, True), ic) \<Rightarrow>
          narrowLoop tieTypeID types
            (fold (\<lambda>ua seen. if Relation ua \<noteq> tieTypeID \<or> AssociateTo ua \<in> set seen then seen
                             else seen @ [AssociateTo ua]) (map fst (as_ForEach reversed)) seen) ic)"

definition hasAnyType :: "AssociationSet \<Rightarrow> u64 \<Rightarrow> u64 list \<Rightarrow> bool" where
  "hasAnyType s tieTypeID typeIDs \<longleftrightarrow>
     (\<exists>i \<in> set typeIDs. as_Get s \<lparr>AssociateTo = i, Relation = tieTypeID\<rparr> \<noteq> None)"

definition TIE_TYPE :: string where "TIE_TYPE = ''tie-type''"

text \<open>Every subject of the forward trees that passes the test.\<close>

definition scanForward ::
    "unicode \<Rightarrow> (u64 \<times> string) list \<Rightarrow> (AssociationSet \<Rightarrow> bool) \<Rightarrow> collection \<Rightarrow> searchSubject list" where
  "scanForward u relIDs wanted ic =
     concat (map (\<lambda>(level, tree).
       List.map_filter (\<lambda>(subjectID, cur). if wanted cur then addSubject u relIDs ic subjectID level cur else None)
         (lt_ForEach tree)) (forwardTrees ic))"

definition buildCorpus :: "unicode \<Rightarrow> SearchQuery \<Rightarrow> u64 \<Rightarrow> collection \<Rightarrow> searchCorpus \<times> collection" where
  "buildCorpus u q revision ic =
     (let (relIDs, ic) = resolveIDs (Relations q) [] ic; none = corpusOf revision []
      in if relIDs = [] then (none, ic)
         else if TieTypes q = [] then (corpusOf revision (scanForward u relIDs (\<lambda>_. True) ic), ic)
         else case getEntryFromString TIE_TYPE ic of
           (None, ic) \<Rightarrow> (none, ic)
         | (Some (tieTypeID, _), ic) \<Rightarrow>
             if reverseIndexed ic TIE_TYPE then
               (let (subjects, ic) = narrowLoop tieTypeID (TieTypes q) [] ic
                in (corpusOf revision (List.map_filter (\<lambda>i.
                      case levelOf ic i of
                        None \<Rightarrow> None
                      | Some level \<Rightarrow> addSubject u relIDs ic i level (getAssociations ic level i)) subjects), ic))
             else
               (let (types, ic) = resolveIDs (TieTypes q) [] ic; typeIDs = map fst types
                in if typeIDs = [] then (none, ic)
                   else (corpusOf revision (scanForward u relIDs (\<lambda>s. hasAnyType s tieTypeID typeIDs) ic), ic)))"

section \<open>The corpus cache\<close>

definition entryBytes :: "string \<times> searchCorpus \<Rightarrow> int" where
  "entryBytes e = sc_bytes (snd e) + int (length (fst e))"

definition dropStaleCorporaLocked :: "u64 \<Rightarrow> collection \<Rightarrow> collection" where
  "dropStaleCorporaLocked revision ic =
     ic\<lparr>searchCache := filter (\<lambda>e. sc_revision (snd e) = revision) (searchCache ic),
        searchBytes := searchBytes ic -
          sum_list (map entryBytes (filter (\<lambda>e. sc_revision (snd e) \<noteq> revision) (searchCache ic)))\<rparr>"

text \<open>The least recently used entry: the first with the smallest \<open>lastUse\<close>.\<close>

fun eldest :: "(string \<times> searchCorpus) list \<Rightarrow> string \<times> searchCorpus" where
  "eldest [e] = e"
| "eldest (e # es) = (let e' = eldest es in if sc_lastUse (snd e) \<le> sc_lastUse (snd e') then e else e')"
| "eldest [] = ('''', corpusOf 0 [])"

lemma eldest_in: "es \<noteq> [] \<Longrightarrow> eldest es \<in> set es"
  by (induction es rule: eldest.induct) (auto simp: Let_def)

function evictLoop :: "string \<Rightarrow> collection \<Rightarrow> collection" where
  "evictLoop key ic =
     (if (searchBytes ic > searchMaxBytes ic \<or> length (searchCache ic) > maxSearchCorpora) \<and> searchCache ic \<noteq> []
      then let e = eldest (searchCache ic);
               ic' = ic\<lparr>searchBytes := searchBytes ic - entryBytes e,
                        searchCache := filter (\<lambda>x. fst x \<noteq> fst e) (searchCache ic)\<rparr>
           in if fst e = key then ic' else evictLoop key ic'
      else ic)"
  by pat_completeness auto

termination
proof (relation "measure (\<lambda>(_, ic). length (searchCache ic))")
  fix key and ic :: collection and e ic'
  assume a: "(searchBytes ic > searchMaxBytes ic \<or> length (searchCache ic) > maxSearchCorpora) \<and> searchCache ic \<noteq> []"
    "e = eldest (searchCache ic)" "ic' = ic\<lparr>searchBytes := searchBytes ic - entryBytes e,
       searchCache := filter (\<lambda>x. fst x \<noteq> fst e) (searchCache ic)\<rparr>"
  have "length (filter (\<lambda>x. fst x \<noteq> fst e) (searchCache ic)) < length (searchCache ic)"
    using a eldest_in by (intro length_filter_less [of e]) auto
  with a show "((key, ic'), key, ic) \<in> measure (\<lambda>(_, ic). length (searchCache ic))" by simp
qed simp

declare evictLoop.simps [simp del]

definition installCorpusLocked :: "string \<Rightarrow> searchCorpus \<Rightarrow> collection \<Rightarrow> collection" where
  "installCorpusLocked key c ic =
     (let old = (case map_of (searchCache ic) key of None \<Rightarrow> 0 | Some o' \<Rightarrow> entryBytes (key, o'));
          use = searchUse ic + 1;
          c = c\<lparr>sc_lastUse := use\<rparr>
      in evictLoop key (ic\<lparr>searchUse := use, searchCache := AList.update key c (searchCache ic),
           searchBytes := searchBytes ic - old + entryBytes (key, c)\<rparr>))"

text \<open>The two critical sections of \<open>corpusFor\<close>; the build runs between them.\<close>

definition touchCorpus :: "string \<Rightarrow> searchCorpus \<Rightarrow> collection \<Rightarrow> searchCorpus \<times> collection" where
  "touchCorpus key c ic =
     (let c = c\<lparr>sc_lastUse := searchUse ic + 1\<rparr>
      in (c, ic\<lparr>searchUse := searchUse ic + 1, searchCache := AList.update key c (searchCache ic)\<rparr>))"

definition lookupCorpus :: "string \<Rightarrow> collection \<Rightarrow> searchCorpus option \<times> collection" where
  "lookupCorpus key ic =
     (let ic = dropStaleCorporaLocked (searchGen ic) ic
      in case map_of (searchCache ic) key of
           Some c \<Rightarrow>
             if sc_revision c = searchGen ic then (case touchCorpus key c ic of (c, ic) \<Rightarrow> (Some c, ic)) else (None, ic)
         | None \<Rightarrow> (None, ic))"

definition offerCorpus :: "string \<Rightarrow> u64 \<Rightarrow> searchCorpus \<Rightarrow> collection \<Rightarrow> searchCorpus \<times> collection" where
  "offerCorpus key revision c ic =
     (if collection.closed ic \<or> searchGen ic \<noteq> revision \<or> searchMaxBytes ic \<le> 0 then (c, ic)
      else case map_of (searchCache ic) key of
             Some existing \<Rightarrow>
               if sc_revision existing = revision then touchCorpus key existing ic
               else (c, installCorpusLocked key c ic)
           | None \<Rightarrow> (c, installCorpusLocked key c ic))"

definition corpusFor :: "unicode \<Rightarrow> string \<Rightarrow> SearchQuery \<Rightarrow> collection \<Rightarrow> searchCorpus \<times> collection" where
  "corpusFor u key q ic =
     (case lookupCorpus key ic of
        (Some c, ic) \<Rightarrow> (c, ic)
      | (None, ic) \<Rightarrow>
          (let revision = searchGen ic; (c, ic) = buildCorpus u q revision ic
           in offerCorpus key revision c ic))"

section \<open>Ranking\<close>

record SearchMatch =
  sm_Key :: string
  sm_Relation :: string
  sm_Value :: string
  Score :: int

definition compareSearchMatch :: "SearchMatch \<Rightarrow> SearchMatch \<Rightarrow> int" where
  "compareSearchMatch a b =
     (if cmpCompare (Score a) (Score b) \<noteq> 0 then cmpCompare (Score a) (Score b)
      else if cmpCompare (sm_Relation b) (sm_Relation a) \<noteq> 0 then cmpCompare (sm_Relation b) (sm_Relation a)
      else if cmpCompare (sm_Value b) (sm_Value a) \<noteq> 0 then cmpCompare (sm_Value b) (sm_Value a)
      else cmpCompare (sm_Key b) (sm_Key a))"

definition matchOf :: "searchSubject \<Rightarrow> int \<times> nat \<Rightarrow> SearchMatch" where
  "matchOf s r =
     \<lparr>sm_Key = ss_key s, sm_Relation = sf_relation (ss_fields s ! snd r),
      sm_Value = sv_text (sf_value (ss_fields s ! snd r)), Score = fst r\<rparr>"

fun rankLoop ::
    "unicode \<Rightarrow> preparedSearchQuery \<Rightarrow> int \<Rightarrow> searchSubject list \<Rightarrow> SearchMatch list \<Rightarrow> nat
       \<Rightarrow> (SearchMatch list \<times> nat) option" where
  "rankLoop u q cap [] hits tot = Some (hits, tot)"
| "rankLoop u q cap (s # ss) hits tot =
     (case pq_match u q s of
        None \<Rightarrow> None
      | Some None \<Rightarrow> rankLoop u q cap ss hits tot
      | Some (Some r) \<Rightarrow>
          (let m = matchOf s r
           in if cap \<le> 0 then rankLoop u q cap ss hits (tot + 1)
              else if int (length hits) < cap then rankLoop u q cap ss (heapPush compareSearchMatch m hits) (tot + 1)
              else if compareSearchMatch m (hits ! 0) > 0
              then rankLoop u q cap ss (heapPush compareSearchMatch m (heapPop compareSearchMatch hits)) (tot + 1)
              else rankLoop u q cap ss hits (tot + 1)))"

definition rankCorpus ::
    "unicode \<Rightarrow> searchCorpus \<Rightarrow> preparedSearchQuery \<Rightarrow> int \<Rightarrow> int \<Rightarrow> (SearchMatch list \<times> nat \<times> u64) option" where
  "rankCorpus u c q offset limit =
     map_option (\<lambda>(hits, tot).
         let page = sort_by (\<lambda>a b. - compareSearchMatch a b) hits
         in (if offset \<ge> int (length page) then [] else drop (nat offset) page, tot, sc_revision c))
       (rankLoop u q (offset + limit) (sc_subjects c) [] 0)"

definition Search ::
    "unicode \<Rightarrow> SearchQuery \<Rightarrow> collection \<Rightarrow> (SearchMatch list \<times> nat \<times> u64) option \<times> collection" where
  "Search u q ic =
     (let q = normalizeSearchQuery u q; prepared = prepareSearchQuery u q
      in if pq_empty u prepared \<or> Relations q = [] then (Some ([], 0, searchGen ic), ic)
         else let (corpus, ic) = corpusFor u (corpusKey q) q ic
              in (rankCorpus u corpus prepared (sq_Offset q) (sq_Limit q), ic))"

end
