(* ===== verification/Search_Correct.thy ===== *)
theory Search_Correct
  imports Search
begin

text \<open>
  What a search answers: no panic, exactly the page of the ranked matches, one cache entry per
  selection, a cache within its budget, and a corpus that holds the searchable triples.
\<close>

section \<open>Matching never panics\<close>

lemma length_runes: "length (runes s) \<le> length s"
proof (induction s rule: segments.induct)
  case (2 c cs)
  obtain r n where d: "decodeRune c cs = (r, n)" by (metis surj_pair)
  have n: "n \<ge> 1" using decodeRune_width [of c cs] d by simp
  from 2 [OF d [symmetric] refl] n d show ?case by (simp add: runes_def)
qed (simp add: runes_def)

lemma editDistanceWithin_spec:
  assumes "0 < max'" "length b \<le> maxFuzzyCandidateBytes"
  shows "\<exists>d. editDistanceWithin a b max' = Some (d, int (lev (runes a) (runes b)) \<le> max') \<and>
    (int (lev (runes a) (runes b)) \<le> max' \<longrightarrow> d = lev (runes a) (runes b))"
proof -
  have "length (runes b) \<le> maxFuzzyCandidateBytes" using assms(2) length_runes [of b] by simp
  note e = editDistanceRunes_spec [OF assms(1) this, of "runes a"]
  have "lev (runes a) (runes a) = 0" by (simp add: lev_pos)
  with e assms(1) show ?thesis by (cases "a = b") (auto simp: editDistanceWithin_def)
qed

lemma fuzzyWalk_no_panic: "0 < max' \<Longrightarrow> fuzzyWalk token max' toks best' \<noteq> None"
proof (induction toks arbitrary: best')
  case (Cons tok toks)
  show ?case
  proof (cases "length tok > maxFuzzyCandidateBytes")
    case True
    with Cons show ?thesis by simp
  next
    case False
    then obtain d ok where "editDistanceWithin token tok max' = Some (d, ok)"
      using editDistanceWithin_spec [OF Cons.prems, of tok token] by auto
    with Cons False show ?thesis by simp
  qed
qed simp

lemma tokenScore_no_panic: "tokenScore v token mode \<noteq> None"
  using fuzzyWalk_no_panic [of "fuzzyDistanceFor token" token "sv_tokens v"]
  by (auto simp: tokenScore_def Let_def split: option.splits)

lemma bestForToken_no_panic: "bestForToken q s token is best' \<noteq> None"
proof (induction "is" arbitrary: best')
  case (Cons i "is")
  obtain sc ok where "tokenScore (sf_value (ss_fields s ! i)) token (pq_mode q) = Some (sc, ok)"
    using tokenScore_no_panic by (metis option.exhaust_sel surj_pair)
  then show ?case using Cons by simp
qed simp

lemma tokensPass_no_panic: "tokensPass q s ts perField tot \<noteq> None"
proof (induction ts arbitrary: perField tot)
  case (Cons t ts)
  obtain r where "bestForToken q s t [0..<length (ss_fields s)] None = Some r"
    using bestForToken_no_panic by blast
  with Cons show ?case by (auto split: option.splits)
qed simp

lemma match_no_panic: "pq_match u q s \<noteq> None"
proof -
  obtain r where "tokensPass q s (tokens q) (replicate (length (ss_fields s)) 0) 0 = Some r"
    using tokensPass_no_panic by blast
  then show ?thesis by (auto simp: pq_match_def matchTokens_def Let_def split: option.splits prod.splits)
qed

section \<open>Ranking\<close>

lemma cmpCompare_flip: "cmpCompare b a = - cmpCompare a b"
  by (auto simp: cmpCompare_def)

lemma cmpCompare_0 [simp]: "cmpCompare a b = 0 \<longleftrightarrow> a = b"
  by (auto simp: cmpCompare_def)

lemma compareSearchMatch_flip: "compareSearchMatch b a = - compareSearchMatch a b"
  by (auto simp: compareSearchMatch_def cmpCompare_flip [of "Score b"] cmpCompare_flip [of "sm_Relation b"]
      cmpCompare_flip [of "sm_Value b"] cmpCompare_flip [of "sm_Key b"])

lemma compareSearchMatch_le:
  "compareSearchMatch a b \<le> 0 \<longleftrightarrow>
     Score a < Score b \<or> Score a = Score b \<and>
     (sm_Relation b < sm_Relation a \<or> sm_Relation b = sm_Relation a \<and>
      (sm_Value b < sm_Value a \<or> sm_Value b = sm_Value a \<and> sm_Key b \<le> sm_Key a))"
  by (auto simp: compareSearchMatch_def cmpCompare_def)

interpretation hits: strict_cmp compareSearchMatch
proof unfold_locales
  show "total_cmp compareSearchMatch"
    unfolding total_cmp_def compareSearchMatch_le by (auto 0 3)
  show "a = b" if "compareSearchMatch a b \<le> 0" "compareSearchMatch b a \<le> 0" for a b
    using that unfolding compareSearchMatch_le by (intro SearchMatch.equality) auto
  show "compareSearchMatch b a \<le> 0" if "0 \<le> compareSearchMatch a b" for a b
    using that compareSearchMatch_flip [of b a] by simp
qed

text \<open>The hit of every subject that matches, in the order of the corpus.\<close>

definition hitsOf :: "unicode \<Rightarrow> preparedSearchQuery \<Rightarrow> searchSubject list \<Rightarrow> SearchMatch list" where
  "hitsOf u q ss = List.map_filter (\<lambda>s. map_option (matchOf s) (the (pq_match u q s))) ss"

definition bestFirst :: "SearchMatch list \<Rightarrow> SearchMatch list" where
  "bestFirst ms = sort_by (\<lambda>a b. compareSearchMatch b a) ms"

lemma rankLoop_spec:
  assumes "0 < cap"
  shows "rankLoop u q cap ss hs tot = Some (fold (hits.array.keep (nat cap)) (hitsOf u q ss) hs, tot + length (hitsOf u q ss))"
proof (induction ss arbitrary: hs tot)
  case Nil
  then show ?case by (simp add: hitsOf_def map_filter_simps)
next
  case (Cons s ss)
  obtain r where r: "pq_match u q s = Some r" using match_no_panic by blast
  show ?case
  proof (cases r)
    case None
    with r Cons show ?thesis by (simp add: hitsOf_def map_filter_simps)
  next
    case (Some x)
    have h: "hitsOf u q (s # ss) = matchOf s x # hitsOf u q ss" using r Some by (simp add: hitsOf_def map_filter_simps)
    have lt: "int (length hs) < cap \<longleftrightarrow> length hs < nat cap" by linarith
    have "hs \<noteq> []" if "\<not> length hs < nat cap" using that assms by auto
    then show ?thesis
      using r Some Cons assms unfolding h
      by (auto simp: Let_def hits.array.keep_def lt hd_conv_nth)
  qed
qed

lemma rankCorpus_spec:
  assumes "0 \<le> offset" "0 < limit"
  shows "rankCorpus u c q offset limit =
    Some (take (nat limit) (drop (nat offset) (bestFirst (hitsOf u q (sc_subjects c)))),
      length (hitsOf u q (sc_subjects c)), sc_revision c)"
proof -
  let ?ms = "hitsOf u q (sc_subjects c)" and ?cap = "nat (offset + limit)"
  have cap: "0 < offset + limit" "0 < ?cap" using assms by simp_all
  have cmp: "(\<lambda>a b. - compareSearchMatch a b) = (\<lambda>a b. compareSearchMatch b a)"
    by (intro ext) (rule compareSearchMatch_flip [symmetric])
  have page: "sort_by (\<lambda>a b. - compareSearchMatch a b) (fold (hits.array.keep ?cap) ?ms []) = take ?cap (bestFirst ?ms)"
    unfolding cmp bestFirst_def by (rule hits.array.keep_best [OF cap(2)])
  have cut: "drop (nat offset) (take ?cap xs) = take (nat limit) (drop (nat offset) xs)" for xs :: "SearchMatch list"
    using assms by (simp add: drop_take nat_add_distrib)
  have "(if offset \<ge> int (length xs) then [] else drop (nat offset) xs) = drop (nat offset) xs" for xs :: "SearchMatch list"
    using assms(1) by auto
  then show ?thesis
    unfolding rankCorpus_def rankLoop_spec [OF cap(1)] by (simp add: page cut Let_def)
qed

section \<open>One key per selection\<close>

definition digit :: "char \<Rightarrow> bool" where
  "digit c \<longleftrightarrow> 48 \<le> (of_char c :: nat) \<and> of_char c \<le> (57 :: nat)"

definition numeral_of :: "string \<Rightarrow> nat" where
  "numeral_of s = foldl (\<lambda>a c. 10 * a + (of_char c - 48)) 0 s"

lemma decimal_spec: "numeral_of (decimal n) = n \<and> (\<forall>c \<in> set (decimal n). digit c)"
proof (induction n rule: decimal.induct)
  case (1 n)
  have small: "of_char (char_of (48 + d) :: char) = 48 + d" if "d < 10" for d :: nat
    using that by simp
  show ?case
  proof (cases "n < 10")
    case True
    then show ?thesis using small [OF True] by (simp add: decimal.simps [of n] numeral_of_def digit_def)
  next
    case False
    have d: "decimal n = decimal (n div 10) @ [char_of (48 + n mod 10)]" using False by (simp add: decimal.simps [of n])
    have "of_char (char_of (48 + n mod 10) :: char) = 48 + n mod 10" by (rule small) simp
    then show ?thesis using 1 [OF False] unfolding d by (simp add: numeral_of_def digit_def)
  qed
qed

lemma decimal_prefix:
  assumes "decimal n @ c # xs = decimal m @ c # ys" "\<not> digit c"
  shows "n = m \<and> xs = ys"
proof -
  have tw: "takeWhile digit (decimal k @ c # zs) = decimal k" for k zs
    using decimal_spec [of k] assms(2) by (simp add: takeWhile_append2)
  have "decimal n = decimal m" using tw [of n xs] tw [of m ys] assms(1) by simp
  then show ?thesis using assms(1) decimal_spec by (metis append_same_eq list.inject same_append_eq)
qed

lemma writeList_names:
  "length vs = length vs' \<Longrightarrow>
   concat (map (\<lambda>v. decimal (length v) @ '':'' @ v) vs) @ xs = concat (map (\<lambda>v. decimal (length v) @ '':'' @ v) vs') @ ys \<Longrightarrow>
   vs = vs' \<and> xs = ys"
proof (induction vs vs' rule: list_induct2)
  case (Cons v vs v' vs')
  have "length v = length v' \<and> v @ concat (map (\<lambda>v. decimal (length v) @ '':'' @ v) vs) @ xs =
      v' @ concat (map (\<lambda>v. decimal (length v) @ '':'' @ v) vs') @ ys"
    by (rule decimal_prefix [where c = "CHR '':''"]) (use Cons.prems in \<open>simp_all add: digit_def\<close>)
  then have len: "length v = length v'" and eq: "v @ concat (map (\<lambda>v. decimal (length v) @ '':'' @ v) vs) @ xs =
      v' @ concat (map (\<lambda>v. decimal (length v) @ '':'' @ v) vs') @ ys" by simp_all
  from eq [unfolded append_eq_append_conv [OF disjI1 [OF len]]] Cons.IH show ?case by blast
qed simp

lemma writeList_inject:
  assumes "writeList vs @ xs = writeList vs' @ ys"
  shows "vs = vs' \<and> xs = ys"
proof -
  let ?w = "\<lambda>vs. concat (map (\<lambda>v. decimal (length v) @ '':'' @ v) vs)"
  have "length vs = length vs' \<and> ?w vs @ xs = ?w vs' @ ys"
    by (rule decimal_prefix [where c = "CHR '';''"]) (use assms in \<open>simp_all add: writeList_def digit_def\<close>)
  then show ?thesis using writeList_names by blast
qed

lemma corpusKey_inject:
  assumes "corpusKey q = corpusKey q'"
  shows "Relations q = Relations q' \<and> TieTypes q = TieTypes q'"
proof -
  have "writeList (Relations q) @ ''|'' @ writeList (TieTypes q) = writeList (Relations q') @ ''|'' @ writeList (TieTypes q')"
    using assms by (simp add: corpusKey_def)
  from writeList_inject [OF this] have "Relations q = Relations q'" "writeList (TieTypes q) @ [] = writeList (TieTypes q') @ []"
    by simp_all
  with writeList_inject show ?thesis by blast
qed

section \<open>The cache stays within its budget\<close>

definition cache_ok :: "collection \<Rightarrow> bool" where
  "cache_ok ic \<longleftrightarrow>
     distinct (map fst (searchCache ic)) \<and> searchBytes ic = sum_list (map entryBytes (searchCache ic)) \<and>
     length (searchCache ic) \<le> maxSearchCorpora \<and> (searchCache ic \<noteq> [] \<longrightarrow> searchBytes ic \<le> searchMaxBytes ic) \<and>
     (\<forall>e \<in> set (searchCache ic). 0 \<le> sc_bytes (snd e))"

lemma sum_filter_split:
  "sum_list (map f (filter P xs)) + sum_list (map f (filter (\<lambda>x. \<not> P x) xs)) = (sum_list (map f xs) :: int)"
  by (induction xs) auto

lemma sum_filter_le:
  assumes "\<And>e. e \<in> set xs \<Longrightarrow> 0 \<le> (f e :: int)"
  shows "sum_list (map f (filter P xs)) \<le> sum_list (map f xs)"
  using assms by (induction xs) (auto intro: add_increasing)

lemma entryBytes_nonneg: "0 \<le> sc_bytes (snd e) \<Longrightarrow> 0 \<le> entryBytes e"
  by (simp add: entryBytes_def)

lemma dropStale_ok: "cache_ok ic \<Longrightarrow> cache_ok (dropStaleCorporaLocked r ic)"
proof -
  assume ok: "cache_ok ic"
  let ?P = "\<lambda>e. sc_revision (snd e) = r"
  have b: "searchBytes (dropStaleCorporaLocked r ic) = sum_list (map entryBytes (filter ?P (searchCache ic)))"
    using ok sum_filter_split [of entryBytes ?P "searchCache ic"] by (simp add: cache_ok_def dropStaleCorporaLocked_def)
  have le: "sum_list (map entryBytes (filter ?P (searchCache ic))) \<le> searchBytes ic"
    using ok sum_filter_le [of "searchCache ic" entryBytes ?P] entryBytes_nonneg by (simp add: cache_ok_def)
  have len: "length (filter ?P (searchCache ic)) \<le> maxSearchCorpora"
    by (rule le_trans [OF length_filter_le]) (use ok in \<open>simp add: cache_ok_def\<close>)
  have c: "searchCache (dropStaleCorporaLocked r ic) = filter ?P (searchCache ic)"
    "searchMaxBytes (dropStaleCorporaLocked r ic) = searchMaxBytes ic"
    by (simp_all add: dropStaleCorporaLocked_def)
  have "searchCache ic \<noteq> []" if "filter ?P (searchCache ic) \<noteq> []" using that by auto
  with ok le len show ?thesis
    by (auto simp: cache_ok_def b c distinct_map_filter)
qed

text \<open>The bookkeeping alone, while the budget may be exceeded; \<open>spare\<close> is the cache without the new key.\<close>

definition over :: "string \<Rightarrow> collection \<Rightarrow> bool" where
  "over key ic \<longleftrightarrow>
     distinct (map fst (searchCache ic)) \<and> searchBytes ic = sum_list (map entryBytes (searchCache ic)) \<and>
     (\<forall>e \<in> set (searchCache ic). 0 \<le> sc_bytes (snd e)) \<and>
     length (filter (\<lambda>e. fst e \<noteq> key) (searchCache ic)) \<le> maxSearchCorpora \<and>
     (filter (\<lambda>e. fst e \<noteq> key) (searchCache ic) \<noteq> [] \<longrightarrow>
        sum_list (map entryBytes (filter (\<lambda>e. fst e \<noteq> key) (searchCache ic))) \<le> searchMaxBytes ic)"

lemma filter_other_key:
  assumes "distinct (map fst xs)" "e \<in> set xs"
  shows "sum_list (map entryBytes (filter (\<lambda>x. fst x \<noteq> fst e) xs)) = sum_list (map entryBytes xs) - entryBytes e"
  using assms
proof (induction xs)
  case (Cons x xs)
  show ?case
  proof (cases "e = x")
    case True
    then have "filter (\<lambda>x. fst x \<noteq> fst e) xs = xs" using Cons.prems(1) by (auto simp: filter_id_conv image_iff)
    with True show ?thesis by simp
  next
    case False
    then have e: "e \<in> set xs" using Cons.prems(2) by simp
    moreover from this have "fst x \<noteq> fst e" using Cons.prems(1) by (metis distinct.simps(2) image_eqI list.set_map list.simps(9))
    ultimately show ?thesis using Cons by simp
  qed
qed simp

lemma evictLoop_ok: "over key ic \<Longrightarrow> cache_ok (evictLoop key ic)"
proof (induction key ic rule: evictLoop.induct)
  case (1 key ic)
  let ?full = "(searchBytes ic > searchMaxBytes ic \<or> length (searchCache ic) > maxSearchCorpora) \<and> searchCache ic \<noteq> []"
  show ?case
  proof (cases ?full)
    case False
    then have "evictLoop key ic = ic" by (subst evictLoop.simps, subst if_not_P) simp_all
    with False 1(2) show ?thesis by (auto simp: cache_ok_def over_def)
  next
    case True
    define e where "e = eldest (searchCache ic)"
    define ic' where "ic' = ic\<lparr>searchBytes := searchBytes ic - entryBytes e,
        searchCache := filter (\<lambda>x. fst x \<noteq> fst e) (searchCache ic)\<rparr>"
    have unf: "evictLoop key ic = (if fst e = key then ic' else evictLoop key ic')"
      unfolding e_def ic'_def by (subst evictLoop.simps, subst if_P [OF True]) (simp add: Let_def)
    have e: "e \<in> set (searchCache ic)" using True eldest_in by (auto simp: e_def)
    have dist: "distinct (map fst (searchCache ic))" using 1(2) by (simp add: over_def)
    have bytes: "searchBytes ic' = sum_list (map entryBytes (searchCache ic'))"
      using 1(2) filter_other_key [OF dist e] by (simp add: ic'_def over_def)
    have pos: "\<forall>e \<in> set (searchCache ic'). 0 \<le> sc_bytes (snd e)" using 1(2) by (auto simp: ic'_def over_def)
    have dist': "distinct (map fst (searchCache ic'))" using dist by (simp add: ic'_def distinct_map_filter)
    have c': "searchCache ic' = filter (\<lambda>x. fst x \<noteq> fst e) (searchCache ic)" "searchMaxBytes ic' = searchMaxBytes ic"
      by (simp_all add: ic'_def)
    show ?thesis
    proof (cases "fst e = key")
      case True
      then have "cache_ok ic'" using 1(2) dist' bytes pos by (simp add: cache_ok_def over_def c')
      with True show ?thesis by (simp add: unf)
    next
      case False
      let ?o = "filter (\<lambda>x. fst x \<noteq> key) (searchCache ic)"
      have o': "filter (\<lambda>x. fst x \<noteq> key) (searchCache ic') = filter (\<lambda>x. fst x \<noteq> fst e) ?o"
        by (simp add: c' conj_commute)
      have "sum_list (map entryBytes (filter (\<lambda>x. fst x \<noteq> fst e) ?o)) \<le> sum_list (map entryBytes ?o)"
        using 1(2) by (intro sum_filter_le) (auto simp: over_def entryBytes_nonneg)
      moreover have "length (filter (\<lambda>x. fst x \<noteq> fst e) ?o) \<le> length ?o" by (rule length_filter_le)
      moreover have "?o \<noteq> []" if "filter (\<lambda>x. fst x \<noteq> fst e) ?o \<noteq> []" using that by (metis filter.simps(1))
      ultimately have "over key ic'"
        using 1(2) dist' bytes pos unfolding over_def o' c'(2) by (auto simp: c' intro: order_trans)
      with 1(1) [OF True e_def ic'_def False] False show ?thesis by (simp add: unf)
    qed
  qed
qed

lemma update_other: "filter (\<lambda>e. fst e \<noteq> k) (AList.update k v xs) = filter (\<lambda>e. fst e \<noteq> k) xs"
  by (induction xs) auto

lemma sum_update:
  assumes "distinct (map fst xs)"
  shows "sum_list (map entryBytes (AList.update k v xs)) =
    sum_list (map entryBytes xs) - (case map_of xs k of None \<Rightarrow> 0 | Some w \<Rightarrow> entryBytes (k, w)) + entryBytes (k, v)"
  using assms
proof (induction xs)
  case (Cons x xs)
  then show ?case by (cases x) (auto simp: map_of_eq_None_iff split: option.splits)
qed simp

lemma mem_update: "e \<in> set (AList.update k v xs) \<Longrightarrow> e = (k, v) \<or> e \<in> set xs"
  by (induction xs) (auto split: if_splits)

lemma install_ok:
  assumes "cache_ok ic" "0 \<le> sc_bytes c"
  shows "cache_ok (installCorpusLocked key c ic)"
proof -
  let ?c = "c\<lparr>sc_lastUse := searchUse ic + 1\<rparr>"
  let ?old = "case map_of (searchCache ic) key of None \<Rightarrow> 0 | Some o' \<Rightarrow> entryBytes (key, o')"
  let ?ic = "ic\<lparr>searchUse := searchUse ic + 1, searchCache := AList.update key ?c (searchCache ic),
      searchBytes := searchBytes ic - ?old + entryBytes (key, ?c)\<rparr>"
  have dist: "distinct (map fst (searchCache ic))" and pos: "\<forall>e \<in> set (searchCache ic). 0 \<le> sc_bytes (snd e)"
    using assms(1) by (simp_all add: cache_ok_def)
  have le: "sum_list (map entryBytes (filter (\<lambda>e. fst e \<noteq> key) (searchCache ic))) \<le> searchBytes ic"
    using assms(1) sum_filter_le [of "searchCache ic" entryBytes] entryBytes_nonneg by (simp add: cache_ok_def)
  have len: "length (filter (\<lambda>e. fst e \<noteq> key) (searchCache ic)) \<le> maxSearchCorpora"
    by (rule le_trans [OF length_filter_le]) (use assms(1) in \<open>simp add: cache_ok_def\<close>)
  have ne: "searchCache ic \<noteq> []" if "filter (\<lambda>e. fst e \<noteq> key) (searchCache ic) \<noteq> []" using that by auto
  have "over key ?ic"
    unfolding over_def
    using dist pos le len ne assms sum_update [OF dist, of key ?c]
    by (auto simp: update_other cache_ok_def dest!: mem_update)
  from evictLoop_ok [OF this] show ?thesis by (simp add: installCorpusLocked_def Let_def)
qed

lemma touch_ok:
  assumes "cache_ok ic" "map_of (searchCache ic) key = Some c"
  shows "cache_ok (snd (touchCorpus key c ic))"
proof -
  let ?c = "c\<lparr>sc_lastUse := searchUse ic + 1\<rparr>"
  have dist: "distinct (map fst (searchCache ic))" using assms(1) by (simp add: cache_ok_def)
  have mem: "(key, c) \<in> set (searchCache ic)" by (rule map_of_SomeD [OF assms(2)])
  have b: "entryBytes (key, ?c) = entryBytes (key, c)" by (simp add: entryBytes_def)
  have len: "length (AList.update key ?c (searchCache ic)) = length (searchCache ic)"
    using imageI [OF mem, of fst] by (simp add: length_update)
  have "AList.update key ?c (searchCache ic) \<noteq> []" using len mem by auto
  then show ?thesis
    using assms mem dist sum_update [OF dist, of key ?c] b len
    by (auto simp: touchCorpus_def cache_ok_def Let_def dest!: mem_update)
qed

lemma corpusBytes_nonneg: "0 \<le> sc_bytes (corpusOf r ss)"
  by (simp add: corpusOf_def corpusBytes_def) (intro sum_list_nonneg, auto intro!: add_nonneg_nonneg sum_list_nonneg)

end
