(* ===== verification/Corpus_Correct.thy ===== *)
theory Corpus_Correct
  imports Search_Correct
begin

text \<open>
  What the search corpus holds: exactly the searchable triples of the collection, on every path of
  \<open>buildCorpus\<close> (the full scan, the scan filtered by type, and the one narrowed by the reverse index).
\<close>

section \<open>Ids of names\<close>

definition idsFor :: "collection \<Rightarrow> string set \<Rightarrow> u64 \<Rightarrow> string option \<Rightarrow> bool" where
  "idsFor ic names i r \<longleftrightarrow> (case r of None \<Rightarrow> \<not> (\<exists>n \<in> names. \<exists>l. lookupEntry ic n = Some (i, l))
     | Some n \<Rightarrow> n \<in> names \<and> (\<exists>l. lookupEntry ic n = Some (i, l)))"

lemma lookup_same:
  "coll_wf ic \<Longrightarrow> storable v \<Longrightarrow> storable w \<Longrightarrow> lookupEntry ic v = Some (i, l) \<Longrightarrow> lookupEntry ic w = Some (i, l') \<Longrightarrow> v = w"
  using lookupEntry_inject(1) [OF wfD(1)] by blast

lemma resolveIDs_spec:
  assumes "coll_wf ic" "\<forall>n \<in> names \<union> set rs. storable n" "\<And>i. idsFor ic names i (map_of out i)"
    and "resolveIDs rs out ic = (out', ic')"
  shows "quiet ic ic'" and "idsFor ic (names \<union> set rs) i (map_of out' i)"
  using assms
proof (induction rs arbitrary: out ic names)
  case Nil
  { case 1 then show ?case by (simp add: quiet_refl) }
  { case 2 then show ?case by simp }
next
  case (Cons r rs)
  have step: "\<exists>ic1 out1. quiet ic ic1 \<and> resolveIDs rs out1 ic1 = (out', ic') \<and>
      (\<forall>i. idsFor ic1 (insert r names) i (map_of out1 i)) \<and> coll_wf ic1 \<and> (\<forall>n \<in> insert r names \<union> set rs. storable n)"
    if p: "coll_wf ic" "\<forall>n \<in> names \<union> set (r # rs). storable n" "\<And>i. idsFor ic names i (map_of out i)"
      "resolveIDs (r # rs) out ic = (out', ic')" for ic out names
  proof -
    obtain e ic1 where g: "getEntryFromString r ic = (e, ic1)" by (metis surj_pair)
    note q = getEntryFromString_quiet [OF p(1) g]
    note qd = quietD [OF p(1) q(2)]
    let ?out = "case e of None \<Rightarrow> out | Some (i, _) \<Rightarrow> AList.update i r out"
    have "idsFor ic1 (insert r names) i (map_of ?out i)" for i
    proof (cases e)
      case None
      then show ?thesis using p(3) [of i] q(1) qd(8) by (auto simp: idsFor_def split: option.splits)
    next
      case (Some x)
      obtain j l where x: "x = (j, l)" by (metis surj_pair)
      show ?thesis
      proof (cases "i = j")
        case True
        then show ?thesis using Some x q(1) qd(8) by (simp add: idsFor_def)
      next
        case False
        then show ?thesis using Some x q(1) qd(8) p(3) [of i] by (auto simp: idsFor_def split: option.splits)
      qed
    qed
    then show ?thesis using p(2,4) g q(2) qd(1) by (intro exI [of _ ic1] exI [of _ ?out]) auto
  qed
  { case 1
    from step [OF 1] obtain ic1 out1 where s: "quiet ic ic1" "resolveIDs rs out1 ic1 = (out', ic')"
      "\<And>i. idsFor ic1 (insert r names) i (map_of out1 i)" "coll_wf ic1" "\<forall>n \<in> insert r names \<union> set rs. storable n" by blast
    show ?case by (rule quiet_trans [OF s(1) Cons.IH(1) [OF s(4,5,3,2)]]) }
  { case 2
    from step [OF 2] obtain ic1 out1 where s: "quiet ic ic1" "resolveIDs rs out1 ic1 = (out', ic')"
      "\<And>i. idsFor ic1 (insert r names) i (map_of out1 i)" "coll_wf ic1" "\<forall>n \<in> insert r names \<union> set rs. storable n" by blast
    have "lookupEntry ic1 = lookupEntry ic" by (rule quietD(8) [OF 2(1) s(1)])
    then have "idsFor ic1 = idsFor ic" by (intro ext) (simp add: idsFor_def split: option.splits)
    with Cons.IH(2) [OF s(4,5,3,2)] show ?case by simp }
qed

lemma resolveIDs_ids:
  assumes "coll_wf ic" "\<forall>n \<in> set rs. storable n" "resolveIDs rs [] ic = (out, ic')"
  shows "quiet ic ic'" and "map_of out i = Some n \<longleftrightarrow> n \<in> set rs \<and> (\<exists>l. lookupEntry ic n = Some (i, l))"
proof -
  have e: "idsFor ic {} i (map_of [] i)" for i by (simp add: idsFor_def)
  have s: "\<forall>n \<in> {} \<union> set rs. storable n" using assms(2) by simp
  show "quiet ic ic'" by (rule resolveIDs_spec(1) [OF assms(1) s e assms(3)])
  from resolveIDs_spec(2) [OF assms(1) s e assms(3), of i]
  show "map_of out i = Some n \<longleftrightarrow> n \<in> set rs \<and> (\<exists>l. lookupEntry ic n = Some (i, l))"
    using lookup_same [OF assms(1)] assms(2) by (auto simp: idsFor_def split: option.splits)
qed

section \<open>One subject\<close>

type_synonym fieldText = "string \<times> string \<times> string"

definition fieldsIn :: "searchSubject list \<Rightarrow> fieldText set" where
  "fieldsIn ss = {(ss_key s, sf_relation f, sv_text (sf_value f)) | s f. s \<in> set ss \<and> f \<in> set (ss_fields s)}"

definition textOf :: "StringTriple \<Rightarrow> fieldText" where
  "textOf st = (Key st, Value1 st, Value2 st)"

text \<open>A triple of a searched relation with texts that a search can show.\<close>

definition fieldOk :: "SearchQuery \<Rightarrow> StringTriple \<Rightarrow> bool" where
  "fieldOk q st \<longleftrightarrow>
     Value1 st \<in> set (Relations q) \<and> Key st \<noteq> '''' \<and> Value2 st \<noteq> '''' \<and> length (Value2 st) \<le> maxSearchFieldBytes"

definition relIDs_ok :: "collection \<Rightarrow> SearchQuery \<Rightarrow> (u64 \<times> string) list \<Rightarrow> bool" where
  "relIDs_ok ic q relIDs \<longleftrightarrow>
     (\<forall>n \<in> set (Relations q). storable n) \<and>
     (\<forall>i n. map_of relIDs i = Some n \<longleftrightarrow> n \<in> set (Relations q) \<and> (\<exists>l. lookupEntry ic n = Some (i, l)))"

lemma relIDs_relation:
  assumes "coll_wf ic" "relIDs_ok ic q relIDs" "record_at ic p = Some t"
  shows "map_of relIDs (t_Value1 t) =
    (if Value1 (makeStringTriple ic t) \<in> set (Relations q) then Some (Value1 (makeStringTriple ic t)) else None)"
proof -
  let ?r = "Value1 (makeStringTriple ic t)"
  have n: "named ic (t_Value1Level t) (t_Value1 t)"
    using idx_wfD(2) [OF wfD(3) [OF assms(1)] assms(3)] by (simp add: triple_named_def)
  note v = named_value [OF wfD(1) [OF assms(1)] n]
  have r: "storable ?r" "lookupEntry ic ?r = Some (t_Value1 t, t_Value1Level t)"
    using v by (simp_all add: makeStringTriple_def)
  show ?thesis
  proof (cases "map_of relIDs (t_Value1 t)")
    case None
    then have "?r \<notin> set (Relations q)" using assms(2) r(2) unfolding relIDs_ok_def by (metis option.distinct(1))
    with None show ?thesis by simp
  next
    case (Some m)
    then have "m \<in> set (Relations q)" "\<exists>l. lookupEntry ic m = Some (t_Value1 t, l)"
      using assms(2) by (auto simp: relIDs_ok_def)
    then have "m = ?r" using lookup_same [OF assms(1) _ r(1) _ r(2)] assms(2) by (auto simp: relIDs_ok_def)
    with Some \<open>m \<in> _\<close> show ?thesis by simp
  qed
qed

lemma fieldOf_record:
  assumes "coll_wf ic" "relIDs_ok ic q relIDs" "record_at ic p = Some t"
  shows "fieldOf u relIDs ic (fwdKey t) =
    (let st = makeStringTriple ic t
     in if Value2 st = '''' \<or> length (Value2 st) > maxSearchFieldBytes then None
        else Some \<lparr>sf_relation = the (map_of relIDs (t_Value1 t)), sf_value = valueFor u (Value2 st)\<rparr>)"
proof -
  have "named ic (t_Value2Level t) (t_Value2 t)"
    using idx_wfD(2) [OF wfD(3) [OF assms(1)] assms(3)] by (simp add: triple_named_def)
  then have "levelOf ic (t_Value2 t) = Some (t_Value2Level t)"
    using levelOf_idAt(1) named_idAt wfD(1) [OF assms(1)] by blast
  then show ?thesis by (simp add: fieldOf_def fwdKey_def makeStringTriple_def Let_def)
qed

lemma sv_text_valueFor [simp]: "sv_text (valueFor u text) = text"
  by (simp add: valueFor_def Let_def)

lemma set_map_filter: "set (List.map_filter f xs) = {y. \<exists>x \<in> set xs. f x = Some y}"
  by (induction xs) (auto simp: List.map_filter_simps split: option.splits)

lemma set_map_filter_if:
  "set (List.map_filter (\<lambda>(k, c). if P c then f k c else None) xs) = {y. \<exists>(k, c) \<in> set xs. P c \<and> f k c = Some y}"
  by (induction xs) (auto simp: List.map_filter_simps split: option.splits if_splits)

text \<open>The records of a subject that a search of these relations looks at.\<close>

definition subjectRecords :: "collection \<Rightarrow> int \<Rightarrow> u64 \<Rightarrow> Triple set" where
  "subjectRecords ic level k = {t \<in> ran (record_at ic). t_Level t = level \<and> t_Key t = k}"

lemma addSubject_spec:
  assumes wf: "coll_wf ic" and rel: "relIDs_ok ic q relIDs"
  shows "fieldsIn (case addSubject u relIDs ic k level (getAssociations ic level k) of None \<Rightarrow> [] | Some s \<Rightarrow> [s]) =
      textOf ` {st \<in> makeStringTriple ic ` subjectRecords ic level k. fieldOk q st}"
    and "addSubject u relIDs ic k level (getAssociations ic level k) = Some s \<Longrightarrow> ss_key s = getValueString ic level k"
    and "addSubject u relIDs ic k level (getAssociations ic level k) = Some s \<Longrightarrow>
      \<forall>f \<in> set (ss_fields s). sf_value f = valueFor u (sv_text (sf_value f))"
proof -
  let ?cur = "getAssociations ic level k" and ?key = "getValueString ic level k"
  define refs where "refs = filter (\<lambda>ua. map_of relIDs (Relation ua) \<noteq> None) (map fst (as_ForEach ?cur))"
  define fs where "fs = List.map_filter (fieldOf u relIDs ic) refs"
  have refs: "set refs = fwdKey ` {t \<in> subjectRecords ic level k. Value1 (makeStringTriple ic t) \<in> set (Relations q)}"
  proof (intro set_eqI iffI)
    fix ua
    assume "ua \<in> set refs"
    then obtain p where "(ua, p) \<in> set (as_ForEach ?cur)" "map_of relIDs (Relation ua) \<noteq> None"
      by (auto simp: refs_def)
    then obtain t where t: "record_at ic p = Some t" "t_Level t = level" "t_Key t = k" "ua = fwdKey t"
      unfolding forward_entries [OF wf] by blast
    with relIDs_relation [OF wf rel t(1)] \<open>map_of relIDs (Relation ua) \<noteq> None\<close>
    show "ua \<in> fwdKey ` {t \<in> subjectRecords ic level k. Value1 (makeStringTriple ic t) \<in> set (Relations q)}"
      by (auto simp: subjectRecords_def fwdKey_def ran_def split: if_splits)
  next
    fix ua
    assume "ua \<in> fwdKey ` {t \<in> subjectRecords ic level k. Value1 (makeStringTriple ic t) \<in> set (Relations q)}"
    then obtain p t where t: "record_at ic p = Some t" "t_Level t = level" "t_Key t = k" "ua = fwdKey t"
      "Value1 (makeStringTriple ic t) \<in> set (Relations q)" by (auto simp: subjectRecords_def ran_def)
    then have "(ua, p) \<in> set (as_ForEach ?cur)" unfolding forward_entries [OF wf] by blast
    moreover have "map_of relIDs (Relation ua) \<noteq> None"
      using relIDs_relation [OF wf rel t(1)] t(4,5) by (simp add: fwdKey_def)
    ultimately show "ua \<in> set refs" by (force simp: refs_def)
  qed
  have key: "Key (makeStringTriple ic t) = ?key" if "t \<in> subjectRecords ic level k" for t
    using that by (simp add: subjectRecords_def makeStringTriple_def)
  have fields: "f \<in> set fs \<longleftrightarrow> (\<exists>t \<in> subjectRecords ic level k. let st = makeStringTriple ic t in
      Value1 st \<in> set (Relations q) \<and> Value2 st \<noteq> '''' \<and> length (Value2 st) \<le> maxSearchFieldBytes \<and>
      f = \<lparr>sf_relation = Value1 st, sf_value = valueFor u (Value2 st)\<rparr>)" for f
  proof -
    have "f \<in> set fs \<longleftrightarrow> (\<exists>t \<in> subjectRecords ic level k. Value1 (makeStringTriple ic t) \<in> set (Relations q) \<and>
        fieldOf u relIDs ic (fwdKey t) = Some f)"
      unfolding fs_def set_map_filter refs by blast
    also have "\<dots> \<longleftrightarrow> (\<exists>t \<in> subjectRecords ic level k. let st = makeStringTriple ic t in
      Value1 st \<in> set (Relations q) \<and> Value2 st \<noteq> '''' \<and> length (Value2 st) \<le> maxSearchFieldBytes \<and>
      f = \<lparr>sf_relation = Value1 st, sf_value = valueFor u (Value2 st)\<rparr>)"
    proof (rule bex_cong [OF refl])
      fix t
      assume "t \<in> subjectRecords ic level k"
      then obtain p where p: "record_at ic p = Some t" by (auto simp: subjectRecords_def ran_def)
      show "(Value1 (makeStringTriple ic t) \<in> set (Relations q) \<and> fieldOf u relIDs ic (fwdKey t) = Some f) \<longleftrightarrow>
        (let st = makeStringTriple ic t in Value1 st \<in> set (Relations q) \<and> Value2 st \<noteq> '''' \<and>
          length (Value2 st) \<le> maxSearchFieldBytes \<and> f = \<lparr>sf_relation = Value1 st, sf_value = valueFor u (Value2 st)\<rparr>)"
        using relIDs_relation [OF wf rel p] unfolding fieldOf_record [OF wf rel p] Let_def by (auto split: if_splits)
    qed
    finally show ?thesis .
  qed
  have unf: "addSubject u relIDs ic k level ?cur =
      (if refs = [] \<or> ?key = '''' \<or> fs = [] then None else Some \<lparr>ss_key = ?key, ss_fields = fs\<rparr>)"
    by (simp add: addSubject_def refs_def fs_def Let_def)
  have nofs: "fs = []" if "refs = []" using that by (simp add: fs_def map_filter_simps)
  show "ss_key s = ?key" "\<forall>f \<in> set (ss_fields s). sf_value f = valueFor u (sv_text (sf_value f))"
    if "addSubject u relIDs ic k level ?cur = Some s"
    using that fields unfolding unf by (auto simp: Let_def split: if_splits)
  have *: "fieldsIn (case addSubject u relIDs ic k level ?cur of None \<Rightarrow> [] | Some s \<Rightarrow> [s]) =
      (if ?key = '''' then {} else {(?key, sf_relation f, sv_text (sf_value f)) | f. f \<in> set fs})"
    using nofs unfolding unf by (auto simp: fieldsIn_def)
  show "fieldsIn (case addSubject u relIDs ic k level ?cur of None \<Rightarrow> [] | Some s \<Rightarrow> [s]) =
      textOf ` {st \<in> makeStringTriple ic ` subjectRecords ic level k. fieldOk q st}"
  proof (cases "?key = ''''")
    case True
    then show ?thesis unfolding * using key by (auto simp: fieldOk_def)
  next
    case False
    have "{(?key, sf_relation f, sv_text (sf_value f)) | f. f \<in> set fs} =
        textOf ` {st \<in> makeStringTriple ic ` subjectRecords ic level k. fieldOk q st}"
      unfolding fields Let_def fieldOk_def textOf_def using key False by force
    with False show ?thesis unfolding * by simp
  qed
qed

section \<open>Many subjects\<close>

lemma fieldsIn_UN: "fieldsIn ss = (\<Union>s \<in> set ss. fieldsIn [s])"
  by (auto simp: fieldsIn_def)

text \<open>The subjects at level and id satisfying \<open>W\<close>, as the set of their texts.\<close>

lemma fieldsIn_where:
  assumes wf: "coll_wf ic" and rel: "relIDs_ok ic q relIDs"
    and ss: "\<And>s. s \<in> set ss \<longleftrightarrow> (\<exists>l k. W l k \<and> addSubject u relIDs ic k l (getAssociations ic l k) = Some s)"
  shows "fieldsIn ss =
    textOf ` {st \<in> makeStringTriple ic ` {t \<in> ran (record_at ic). W (t_Level t) (t_Key t)}. fieldOk q st}"
proof -
  let ?add = "\<lambda>l k. addSubject u relIDs ic k l (getAssociations ic l k)"
  have opt: "x \<in> fieldsIn (case r of None \<Rightarrow> [] | Some s \<Rightarrow> [s]) \<longleftrightarrow> (\<exists>s. r = Some s \<and> x \<in> fieldsIn [s])" for x r
    by (cases r) (simp_all add: fieldsIn_def)
  have "fieldsIn ss = {x. \<exists>l k. W l k \<and> x \<in> fieldsIn (case ?add l k of None \<Rightarrow> [] | Some s \<Rightarrow> [s])}"
    unfolding opt fieldsIn_UN [of ss] by (intro set_eqI) (unfold UN_iff Bex_def ss mem_Collect_eq, blast)
  also have "\<dots> = {x. \<exists>l k. W l k \<and> x \<in> textOf ` {st \<in> makeStringTriple ic ` subjectRecords ic l k. fieldOk q st}}"
    unfolding addSubject_spec(1) [OF wf rel] ..
  also have "\<dots> = textOf ` {st \<in> makeStringTriple ic ` {t \<in> ran (record_at ic). W (t_Level t) (t_Key t)}. fieldOk q st}"
    by (auto simp: subjectRecords_def)
  finally show ?thesis .
qed

lemma entries_new: "as_ForEach newAssociationSet = []"
  using as.map_of_entries [OF as_inv_new] by simp

lemma scanForward_set:
  assumes wf: "coll_wf ic"
  shows "s \<in> set (scanForward u relIDs wanted ic) \<longleftrightarrow>
    (\<exists>l k. wanted (getAssociations ic l k) \<and> addSubject u relIDs ic k l (getAssociations ic l k) = Some s)"
proof -
  have ok: "sets_ok ic" by (rule idx_wfD(1) [OF wfD(3) [OF wf]])
  have tree: "lt_inv t" if "associationsTree ic l = Some t" for l t using ok that by (auto simp: sets_ok_def)
  have "s \<in> set (scanForward u relIDs wanted ic) \<longleftrightarrow>
      (\<exists>l t k cur. associationsTree ic l = Some t \<and> lt_Get t k = Some cur \<and> wanted cur \<and> addSubject u relIDs ic k l cur = Some s)"
    (is "_ \<longleftrightarrow> ?found")
  proof -
    have "s \<in> set (scanForward u relIDs wanted ic) \<longleftrightarrow> (\<exists>l \<in> set (forestLevels ic). \<exists>(k, cur) \<in> set (lt_ForEach (the (associationsTree ic l))).
        wanted cur \<and> addSubject u relIDs ic k l cur = Some s)"
      unfolding scanForward_def trees_levels treesAt_def by (auto simp: set_map_filter_if)
    also have "\<dots> \<longleftrightarrow> ?found"
      using reverseLevels_spec(3) [of _ ic] lt.entries_iff [OF tree] by fastforce
    finally show ?thesis .
  qed
  also have "\<dots> \<longleftrightarrow> (\<exists>l k. wanted (getAssociations ic l k) \<and> addSubject u relIDs ic k l (getAssociations ic l k) = Some s)"
  proof
    assume "\<exists>l k. wanted (getAssociations ic l k) \<and> addSubject u relIDs ic k l (getAssociations ic l k) = Some s"
    then obtain l k where s: "wanted (getAssociations ic l k)" "addSubject u relIDs ic k l (getAssociations ic l k) = Some s" by blast
    then have "as_ForEach (getAssociations ic l k) \<noteq> []" by (auto simp: addSubject_def)
    then have "\<exists>t cur. associationsTree ic l = Some t \<and> lt_Get t k = Some cur \<and> getAssociations ic l k = cur"
      using entries_new by (auto simp: getAssociations_def split: option.splits)
    with s show ?found by auto
  next
    assume ?found
    then obtain l t k cur where f: "associationsTree ic l = Some t" "lt_Get t k = Some cur" "wanted cur"
      "addSubject u relIDs ic k l cur = Some s" by blast
    then have "getAssociations ic l k = cur" by (simp add: getAssociations_def)
    with f(3,4) show "\<exists>l k. wanted (getAssociations ic l k) \<and> addSubject u relIDs ic k l (getAssociations ic l k) = Some s" by blast
  qed
  finally show ?thesis .
qed

section \<open>Subjects of a type\<close>

text \<open>The subject with this level and id has one of the types, by its records.\<close>

definition typedBy :: "collection \<Rightarrow> string set \<Rightarrow> int \<Rightarrow> u64 \<Rightarrow> bool" where
  "typedBy ic types l k \<longleftrightarrow> (\<exists>p t. record_at ic p = Some t \<and> t_Level t = l \<and> t_Key t = k \<and>
     Value1 (makeStringTriple ic t) = TIE_TYPE \<and> Value2 (makeStringTriple ic t) \<in> types)"

lemma storable_TIE_TYPE: "storable TIE_TYPE"
  by (simp add: TIE_TYPE_def storable_def nul_free_end_def)

lemma relation_TIE_TYPE:
  assumes "coll_wf ic" "record_at ic p = Some t" "lookupEntry ic TIE_TYPE = Some (i, l)"
  shows "Value1 (makeStringTriple ic t) = TIE_TYPE \<longleftrightarrow> t_Value1 t = i"
proof -
  note w = wfD [OF assms(1)]
  have n: "named ic (t_Value1Level t) (t_Value1 t)" using idx_wfD(2) [OF w(3) assms(2)] by (simp add: triple_named_def)
  have "named ic l i" using assms(3) storable_TIE_TYPE by (auto simp: named_def)
  from named_string_iff [OF w(1) storable_TIE_TYPE assms(3) n] named_level [OF w(1) this, of "t_Value1Level t"] n
  show ?thesis by (auto simp: makeStringTriple_def)
qed

lemma typedBy_triples:
  assumes "coll_wf ic" "record_at ic p = Some t"
  shows "typedBy ic types (t_Level t) (t_Key t) \<longleftrightarrow>
    (\<exists>ty \<in> types. \<lparr>Key = Key (makeStringTriple ic t), Value1 = TIE_TYPE, Value2 = ty\<rparr> \<in> triples ic)"
proof -
  note w = wfD [OF assms(1)]
  have same: "Key (makeStringTriple ic u) = Key (makeStringTriple ic t) \<longleftrightarrow> t_Level u = t_Level t \<and> t_Key u = t_Key t"
    if "record_at ic q = Some u" for q u
  proof -
    have "named ic (t_Level u) (t_Key u)" "named ic (t_Level t) (t_Key t)"
      using idx_wfD(2) [OF w(3)] that assms(2) by (auto simp: triple_named_def)
    with record_strings(1) [OF assms(1) that assms(2)] named_level [OF w(1)] show ?thesis by metis
  qed
  show ?thesis unfolding typedBy_def triple_iff using same by blast
qed

lemma hasAnyType_typedBy:
  assumes wf: "coll_wf ic" and tt: "lookupEntry ic TIE_TYPE = Some (i, l')"
    and ids: "\<And>i n. map_of types i = Some n \<longleftrightarrow> n \<in> names \<and> (\<exists>l. lookupEntry ic n = Some (i, l))"
    and st: "\<forall>n \<in> names. storable n"
  shows "hasAnyType (getAssociations ic l k) i (map fst types) \<longleftrightarrow> typedBy ic names l k"
proof -
  note w = wfD [OF wf]
  have val: "j \<in> fst ` set types \<longleftrightarrow> getValueString ic lj j \<in> names" if "named ic lj j" for j lj
  proof -
    note v = named_value [OF w(1) that]
    have "j \<in> fst ` set types \<longleftrightarrow> (\<exists>n. map_of types j = Some n)"
      using map_of_eq_None_iff [of types j] by auto
    also have "\<dots> \<longleftrightarrow> getValueString ic lj j \<in> names"
      unfolding ids using v lookup_same [OF wf] st by metis
    finally show ?thesis .
  qed
  have "hasAnyType (getAssociations ic l k) i (map fst types) \<longleftrightarrow>
      (\<exists>p t. record_at ic p = Some t \<and> t_Level t = l \<and> t_Key t = k \<and> t_Value1 t = i \<and> t_Value2 t \<in> fst ` set types)"
    unfolding hasAnyType_def fwd_def [symmetric] using idx_wfD(3) [OF w(3)] by fastforce
  also have "\<dots> \<longleftrightarrow> typedBy ic names l k"
  proof -
    have "t_Value1 t = i \<and> t_Value2 t \<in> fst ` set types \<longleftrightarrow>
        Value1 (makeStringTriple ic t) = TIE_TYPE \<and> Value2 (makeStringTriple ic t) \<in> names"
      if "record_at ic p = Some t" for p t
      using relation_TIE_TYPE [OF wf that tt] val [of "t_Value2Level t" "t_Value2 t"] idx_wfD(2) [OF w(3) that]
      by (simp add: triple_named_def makeStringTriple_def)
    then show ?thesis unfolding typedBy_def by blast
  qed
  finally show ?thesis .
qed

lemma narrow_fold:
  "set (fold (\<lambda>ua seen. if Relation ua \<noteq> i \<or> AssociateTo ua \<in> set seen then seen else seen @ [AssociateTo ua]) uas seen) =
     set seen \<union> AssociateTo ` {ua \<in> set uas. Relation ua = i}"
  by (induction uas arbitrary: seen) auto

lemma narrow_fold_distinct:
  "distinct seen \<Longrightarrow>
   distinct (fold (\<lambda>ua seen. if Relation ua \<noteq> i \<or> AssociateTo ua \<in> set seen then seen else seen @ [AssociateTo ua]) uas seen)"
  by (induction uas arbitrary: seen) auto

lemma narrowLoop_spec:
  assumes "coll_wf ic" "\<forall>n \<in> set types. storable n" "lookupEntry ic TIE_TYPE = Some (i, l)" "reverseIndexed ic TIE_TYPE"
    and "narrowLoop i types seen ic = (subjects, ic')"
  shows "quiet ic ic' \<and> set subjects = set seen \<union> {k. \<exists>l. typedBy ic (set types) l k} \<and> (distinct seen \<longrightarrow> distinct subjects)"
  using assms
proof (induction types arbitrary: seen ic)
  case Nil
  then show ?case by (auto simp: quiet_refl typedBy_def)
next
  case (Cons ty types)
  obtain s found ic1 where g: "GetReverseAssociations ty ic = ((s, found), ic1)" by (metis surj_pair)
  note r = GetReverseAssociations_quiet [OF Cons.prems(1) g]
  note q = quietD [OF Cons.prems(1) r(1)]
  let ?seen = "fold (\<lambda>ua seen. if Relation ua \<noteq> i \<or> AssociateTo ua \<in> set seen then seen else seen @ [AssociateTo ua])
    (map fst (as_ForEach s)) seen"
  let ?seen1 = "if found then ?seen else seen"
  have loop: "narrowLoop i types ?seen1 ic1 = (subjects, ic')"
    using Cons.prems(5) g by (cases found) simp_all
  have ri: "reverseIndexed ic1 TIE_TYPE"
    using Cons.prems(4) q(11) by (simp add: reverseIndexed_def same_config_def)
  have ih: "quiet ic1 ic' \<and> set subjects = set ?seen1 \<union> {k. \<exists>l. typedBy ic1 (set types) l k} \<and>
      (distinct ?seen1 \<longrightarrow> distinct subjects)"
    by (rule Cons.IH [OF q(1) _ _ ri loop]) (use Cons.prems(2,3) q(8) in simp_all)
  have typed: "typedBy ic1 = typedBy ic" by (intro ext) (simp add: typedBy_def q(5,10))
  have here: "set ?seen1 = set seen \<union> {k. \<exists>l. typedBy ic {ty} l k}"
  proof (cases found)
    case False
    then have "lookupEntry ic ty = None" using r(2) by (cases "lookupEntry ic ty") simp_all
    then have "\<not> typedBy ic {ty} l k" for l k
      using named_value(2) [OF wfD(1) [OF Cons.prems(1)]] idx_wfD(2) [OF wfD(3) [OF Cons.prems(1)]]
      by (force simp: typedBy_def triple_named_def makeStringTriple_def)
    with False show ?thesis by simp
  next
    case True
    then obtain j lj where e: "lookupEntry ic ty = Some (j, lj)" using r(2) by auto
    have sty: "storable ty" using Cons.prems(2) by simp
    have s: "s = getReverseAssociations ic lj j" by (rule r(3) [OF e])
    have keys: "ua \<in> set (map fst (as_ForEach s)) \<longleftrightarrow> (\<exists>p. as_Get s ua = Some p)" for ua
      unfolding s using as.entries_iff [OF assoc_inv(2) [OF Cons.prems(1)]] by force
    have "AssociateTo ` {ua \<in> set (map fst (as_ForEach s)). Relation ua = i} = {k. \<exists>l. typedBy ic {ty} l k}"
    proof -
      have "k \<in> AssociateTo ` {ua \<in> set (map fst (as_ForEach s)). Relation ua = i} \<longleftrightarrow>
          (\<exists>p t. record_at ic p = Some t \<and> t_Key t = k \<and> t_Value1 t = i \<and> Value2 (makeStringTriple ic t) = ty \<and>
             reverseIndexed ic (Value1 (makeStringTriple ic t)))" for k
        unfolding keys unfolding s reverse_get [OF Cons.prems(1) sty e] by (auto simp: revKey_def image_iff) (blast, metis UniqueAssociation.select_convs)
      also have "\<dots> k \<longleftrightarrow> (\<exists>l. typedBy ic {ty} l k)" for k
        using relation_TIE_TYPE [OF Cons.prems(1) _ Cons.prems(3)] Cons.prems(4) unfolding typedBy_def by (metis singleton_iff)
      finally show ?thesis by blast
    qed
    then show ?thesis using True by (simp only: narrow_fold if_True)
  qed
  have "typedBy ic (set (ty # types)) l k \<longleftrightarrow> typedBy ic {ty} l k \<or> typedBy ic (set types) l k" for l k
    by (auto simp: typedBy_def)
  then have "set subjects = set seen \<union> {k. \<exists>l. typedBy ic (set (ty # types)) l k}" using ih here typed by auto
  moreover have "distinct ?seen1" if "distinct seen" by (cases found) (simp_all only: if_True if_False that narrow_fold_distinct)
  ultimately show ?case using ih quiet_trans [OF r(1)] by blast
qed

section \<open>The corpus of a query\<close>

text \<open>What a corpus of \<open>q\<close> is to hold: the searchable triples of the subjects of the asked types.\<close>

definition wantedTriples :: "SearchQuery \<Rightarrow> StringTriple set \<Rightarrow> StringTriple set" where
  "wantedTriples q ts =
     {st \<in> ts. fieldOk q st \<and>
        (TieTypes q = [] \<or> (\<exists>ty \<in> set (TieTypes q). \<lparr>Key = Key st, Value1 = TIE_TYPE, Value2 = ty\<rparr> \<in> ts))}"

lemma wantedTriples_records:
  assumes "coll_wf ic" "TieTypes q \<noteq> []"
  shows "textOf ` {st \<in> makeStringTriple ic ` {t \<in> ran (record_at ic). typedBy ic (set (TieTypes q)) (t_Level t) (t_Key t)}. fieldOk q st} =
    textOf ` wantedTriples q (triples ic)"
proof -
  have "makeStringTriple ic ` {t \<in> ran (record_at ic). typedBy ic (set (TieTypes q)) (t_Level t) (t_Key t)} =
      {st \<in> triples ic. \<exists>ty \<in> set (TieTypes q). \<lparr>Key = Key st, Value1 = TIE_TYPE, Value2 = ty\<rparr> \<in> triples ic}"
  proof (intro set_eqI iffI)
    fix st
    assume "st \<in> makeStringTriple ic ` {t \<in> ran (record_at ic). typedBy ic (set (TieTypes q)) (t_Level t) (t_Key t)}"
    then obtain p t where t: "record_at ic p = Some t" "st = makeStringTriple ic t"
      "typedBy ic (set (TieTypes q)) (t_Level t) (t_Key t)" by (auto simp: ran_def)
    then show "st \<in> {st \<in> triples ic. \<exists>ty \<in> set (TieTypes q). \<lparr>Key = Key st, Value1 = TIE_TYPE, Value2 = ty\<rparr> \<in> triples ic}"
      using typedBy_triples [OF assms(1) t(1)] by (auto simp: triples_iff)
  next
    fix st
    assume st: "st \<in> {st \<in> triples ic. \<exists>ty \<in> set (TieTypes q). \<lparr>Key = Key st, Value1 = TIE_TYPE, Value2 = ty\<rparr> \<in> triples ic}"
    then obtain p t where t: "record_at ic p = Some t" "st = makeStringTriple ic t" by (auto simp: triples_iff)
    with st typedBy_triples [OF assms(1) t(1)]
    show "st \<in> makeStringTriple ic ` {t \<in> ran (record_at ic). typedBy ic (set (TieTypes q)) (t_Level t) (t_Key t)}"
      by (auto simp: ran_def)
  qed
  then show ?thesis using assms(2) by (auto simp: wantedTriples_def)
qed

lemma triple_names_known:
  assumes "coll_wf ic" "st \<in> triples ic"
  shows "\<exists>i l. lookupEntry ic (Value1 st) = Some (i, l)" "\<exists>i l. lookupEntry ic (Value2 st) = Some (i, l)"
  using assms(2) mem_triples [OF assms(1), of st] by auto

lemma corpusOf_simps [simp]:
  "sc_subjects (corpusOf r ss) = ss" "sc_revision (corpusOf r ss) = r"
  by (simp_all add: corpusOf_def)

text \<open>A corpus of no subjects is right when nothing can match.\<close>

lemma wantedTriples_empty:
  assumes wf: "coll_wf ic" and "relIDs_ok ic q relIDs"
    and "relIDs = [] \<or> TieTypes q \<noteq> [] \<and> (lookupEntry ic TIE_TYPE = None \<or> (\<forall>ty \<in> set (TieTypes q). lookupEntry ic ty = None))"
  shows "wantedTriples q (triples ic) = {}"
proof -
  have "False" if st: "st \<in> wantedTriples q (triples ic)" for st
    using assms(3)
  proof
    assume "relIDs = []"
    moreover obtain i l where "lookupEntry ic (Value1 st) = Some (i, l)" "Value1 st \<in> set (Relations q)"
      using triple_names_known(1) [OF wf, of st] st by (auto simp: wantedTriples_def fieldOk_def)
    ultimately show False using assms(2) unfolding relIDs_ok_def by fastforce
  next
    assume n: "TieTypes q \<noteq> [] \<and> (lookupEntry ic TIE_TYPE = None \<or> (\<forall>ty \<in> set (TieTypes q). lookupEntry ic ty = None))"
    then obtain ty where ty: "ty \<in> set (TieTypes q)" "\<lparr>Key = Key st, Value1 = TIE_TYPE, Value2 = ty\<rparr> \<in> triples ic"
      using st by (auto simp: wantedTriples_def)
    from triple_names_known [OF wf ty(2)] n ty(1) show False by auto
  qed
  then show ?thesis by blast
qed

text \<open>The narrowed path lists the subjects of the asked types.\<close>

lemma narrowed_set:
  assumes wf: "coll_wf ic" and ids: "set subjects = {k. \<exists>l. typedBy ic types l k}"
  shows "s \<in> set (List.map_filter (\<lambda>i. case levelOf ic i of None \<Rightarrow> None
      | Some level \<Rightarrow> addSubject u relIDs ic i level (getAssociations ic level i)) subjects) \<longleftrightarrow>
    (\<exists>l k. typedBy ic types l k \<and> addSubject u relIDs ic k l (getAssociations ic l k) = Some s)"
proof -
  have lev: "levelOf ic k = Some l" if "typedBy ic types l k" for l k
    using that idx_wfD(2) [OF wfD(3) [OF wf]] levelOf_idAt(1) [OF wfD(1) [OF wf] named_idAt [OF wfD(1) [OF wf]]]
    by (auto simp: typedBy_def triple_named_def)
  show ?thesis unfolding set_map_filter ids using lev by (fastforce split: option.splits)
qed

lemma relIDs_ok_resolved:
  assumes "coll_wf ic" "\<forall>n \<in> set (Relations q). storable n" "resolveIDs (Relations q) [] ic = (relIDs, ic')"
  shows "quiet ic ic'" and "relIDs_ok ic' q relIDs"
  using resolveIDs_ids [OF assms] quietD(8) [OF assms(1) resolveIDs_ids(1) [OF assms]] assms(2)
  by (simp_all add: relIDs_ok_def)

lemma relIDs_ok_quiet: "coll_wf ic \<Longrightarrow> quiet ic ic' \<Longrightarrow> relIDs_ok ic' q relIDs \<longleftrightarrow> relIDs_ok ic q relIDs"
  using quietD(8) [of ic ic'] by (simp add: relIDs_ok_def)

definition corpus_ok :: "SearchQuery \<Rightarrow> u64 \<Rightarrow> collection \<Rightarrow> searchCorpus \<times> collection \<Rightarrow> bool" where
  "corpus_ok q revision ic r \<longleftrightarrow>
     quiet ic (snd r) \<and> fieldsIn (sc_subjects (fst r)) = textOf ` wantedTriples q (triples ic) \<and>
     sc_revision (fst r) = revision \<and> 0 \<le> sc_bytes (fst r)"

lemma corpus_okI:
  assumes "coll_wf ic" "quiet ic ic'" "fieldsIn ss = textOf ` wantedTriples q (triples ic')"
  shows "corpus_ok q revision ic (corpusOf revision ss, ic')"
  using assms quietD(2) [OF assms(1,2)] corpusBytes_nonneg by (simp add: corpus_ok_def)

lemma corpus_ok_none:
  assumes "coll_wf ic" "quiet ic ic'" "relIDs_ok ic' q relIDs"
    and "relIDs = [] \<or> TieTypes q \<noteq> [] \<and> (lookupEntry ic' TIE_TYPE = None \<or> (\<forall>ty \<in> set (TieTypes q). lookupEntry ic' ty = None))"
  shows "corpus_ok q revision ic (corpusOf revision [], ic')"
  using wantedTriples_empty [OF quietD(1) [OF assms(1,2)] assms(3,4)]
  by (intro corpus_okI [OF assms(1,2)]) (simp add: fieldsIn_def)

lemma corpus_ok_where:
  assumes "coll_wf ic" "quiet ic ic'" "relIDs_ok ic' q relIDs" "TieTypes q \<noteq> []"
    and "\<And>s. s \<in> set ss \<longleftrightarrow> (\<exists>l k. typedBy ic' (set (TieTypes q)) l k \<and> addSubject u relIDs ic' k l (getAssociations ic' l k) = Some s)"
  shows "corpus_ok q revision ic (corpusOf revision ss, ic')"
proof (rule corpus_okI [OF assms(1,2)])
  note wf = quietD(1) [OF assms(1,2)]
  show "fieldsIn ss = textOf ` wantedTriples q (triples ic')"
    by (rule trans [OF fieldsIn_where [OF wf assms(3,5)] wantedTriples_records [OF wf assms(4)]])
qed

lemma buildCorpus_ok:
  assumes wf: "coll_wf ic" and st: "\<forall>n \<in> set (Relations q) \<union> set (TieTypes q). storable n"
  shows "corpus_ok q revision ic (buildCorpus u q revision ic)"
proof -
  obtain relIDs ic1 where r: "resolveIDs (Relations q) [] ic = (relIDs, ic1)" by (metis surj_pair)
  have stR: "\<forall>n \<in> set (Relations q). storable n" and stT: "\<forall>n \<in> set (TieTypes q). storable n" using st by auto
  note q1 = relIDs_ok_resolved [OF wf stR r]
  note wf1 = quietD(1) [OF wf q1(1)]
  obtain e ic2 where g: "getEntryFromString TIE_TYPE ic1 = (e, ic2)" by (metis surj_pair)
  note ge = getEntryFromString_quiet [OF wf1 g]
  note q2 = quiet_trans [OF q1(1) ge(2)]
  have rel2: "relIDs_ok ic2 q relIDs" using q1(2) relIDs_ok_quiet [OF wf1 ge(2)] by simp
  note wf2 = quietD(1) [OF wf q2]
  consider (none) "relIDs = []" | (all) "relIDs \<noteq> []" "TieTypes q = []"
    | (unknown) "relIDs \<noteq> []" "TieTypes q \<noteq> []" "e = None"
    | (typed) i l where "relIDs \<noteq> []" "TieTypes q \<noteq> []" "e = Some (i, l)"
    by (metis option.exhaust surj_pair)
  then show ?thesis
  proof cases
    case none
    then show ?thesis using corpus_ok_none [OF wf q1] r by (simp add: buildCorpus_def)
  next
    case all
    have "fieldsIn (scanForward u relIDs (\<lambda>_. True) ic1) = textOf ` wantedTriples q (triples ic1)"
      using fieldsIn_where [OF wf1 q1(2), of _ "\<lambda>_ _. True"] scanForward_set [OF wf1, of _ u relIDs "\<lambda>_. True"] all(2)
      by (simp add: wantedTriples_def triples_def)
    from corpus_okI [OF wf q1(1) this] all r show ?thesis by (simp add: buildCorpus_def)
  next
    case unknown
    then show ?thesis using corpus_ok_none [OF wf q2 rel2] r g ge(1) quietD(8) [OF wf1 ge(2)] by (simp add: buildCorpus_def)
  next
    case (typed i l)
    have tt: "lookupEntry ic2 TIE_TYPE = Some (i, l)" using ge(1) quietD(8) [OF wf1 ge(2)] typed(3) by simp
    show ?thesis
    proof (cases "reverseIndexed ic2 TIE_TYPE")
      case True
      obtain subjects ic3 where n: "narrowLoop i (TieTypes q) [] ic2 = (subjects, ic3)" by (metis surj_pair)
      note ns = narrowLoop_spec [OF wf2 stT tt True n]
      then have q3: "quiet ic2 ic3" by blast
      note q4 = quiet_trans [OF q2 q3]
      have typed3: "typedBy ic3 = typedBy ic2" using quietD(5,10) [OF wf2 q3] by (intro ext) (simp add: typedBy_def)
      have rel3: "relIDs_ok ic3 q relIDs" using rel2 relIDs_ok_quiet [OF wf2 q3] by simp
      have "set subjects = {k. \<exists>l. typedBy ic3 (set (TieTypes q)) l k}" using ns typed3 by simp
      from corpus_ok_where [OF wf q4 rel3 typed(2) narrowed_set [OF quietD(1) [OF wf q4] this]] typed r g True n
      show ?thesis by (simp add: buildCorpus_def)
    next
      case False
      obtain types ic3 where n: "resolveIDs (TieTypes q) [] ic2 = (types, ic3)" by (metis surj_pair)
      note ti = resolveIDs_ids [OF wf2 stT n]
      note q4 = quiet_trans [OF q2 ti(1)]
      note wf3 = quietD(1) [OF wf q4]
      have look3: "lookupEntry ic3 = lookupEntry ic2" by (rule quietD(8) [OF wf2 ti(1)])
      have rel3: "relIDs_ok ic3 q relIDs" using rel2 relIDs_ok_quiet [OF wf2 ti(1)] by simp
      have ids: "map_of types j = Some m \<longleftrightarrow> m \<in> set (TieTypes q) \<and> (\<exists>l. lookupEntry ic3 m = Some (j, l))" for j m
        using ti(2) look3 by simp
      have tt3: "lookupEntry ic3 TIE_TYPE = Some (i, l)" using tt look3 by simp
      note any = hasAnyType_typedBy [OF wf3 tt3 ids stT]
      show ?thesis
      proof (cases "types = []")
        case True
        then have "\<forall>ty \<in> set (TieTypes q). lookupEntry ic3 ty = None" using ids by (auto intro: ccontr)
        from corpus_ok_none [OF wf q4 rel3] this typed r g False n True show ?thesis by (simp add: buildCorpus_def)
      next
        case False': False
        from corpus_ok_where [OF wf q4 rel3 typed(2) scanForward_set [OF wf3, of _ u relIDs "\<lambda>s. hasAnyType s i (map fst types)", unfolded any]]
          typed r g False n False' show ?thesis by (simp add: buildCorpus_def)
      qed
    qed
  qed
qed

end
