(* ===== verification/Search_Fresh.thy ===== *)
theory Search_Fresh
  imports Corpus_Correct Write_Correct Load_Correct
begin

text \<open>
  The corpus cache never serves a stale answer: a write that changes the triples moves \<open>searchGen\<close> on,
  a cached corpus of the current generation holds what a fresh build would, and the cache stays within
  its budget.
\<close>

section \<open>What does not touch the search state\<close>

definition searchState :: "collection \<Rightarrow> u64 \<times> (string \<times> searchCorpus) list \<times> int \<times> u64 \<times> int" where
  "searchState ic = (searchGen ic, searchCache ic, searchBytes ic, searchUse ic, searchMaxBytes ic)"

named_theorems keeps_search

lemma keeps_index [keeps_search]:
  "searchState (secureLevelInIndex l ic) = searchState ic" "searchState (updLevel l f ic) = searchState ic"
  "searchState (updAssociationsTree l g ic) = searchState ic" "searchState (updReverseAssociationsTree l g ic) = searchState ic"
  "searchState (putHash i bs ic) = searchState ic" "searchState (ic\<lparr>totalEntries := n\<rparr>) = searchState ic"
  "searchState (ic\<lparr>totalAssociations := n\<rparr>) = searchState ic"
  by (auto simp: searchState_def secureLevelInIndex_def updLevel_def updAssociationsTree_def updReverseAssociationsTree_def
      putHash_def split: option.splits)

lemma keeps_storage [keeps_search]:
  "searchState (cacheEvict p ic) = searchState ic" "searchState (snd (allocSlot ic)) = searchState ic"
  "searchState (snd (queueWrite m ic)) = searchState ic" "searchState (snd (arenaStore t ic)) = searchState ic"
  "searchState (arenaFreeSlot p ic) = searchState ic"
  by (auto simp: searchState_def cacheEvict_def allocSlot_def queueWrite_def arenaStore_def arenaFreeSlot_def Let_def setIOErr_def
      split: option.splits list.splits prod.splits if_splits bool.splits)

lemma keeps_disk [keeps_search]:
  "searchState (snd (diskPut r ic)) = searchState ic" "searchState (diskFree p ic) = searchState ic"
  by (simp_all add: diskPut_def diskFree_def split_def Let_def keeps_search)

lemma keeps_intern [keeps_search]:
  "searchState (snd (insertHash bs ic)) = searchState ic" "searchState (insertEntry l i uv ic) = searchState ic"
  "searchState (snd (insertValue l i bs ic)) = searchState ic" "searchState (snd (valueExists l i bs ic)) = searchState ic"
  by (simp_all add: insertHash_def insertEntry_def insertValue_def valueExists_def nextID_def split_def Let_def keeps_search
      split: option.splits)

lemma keeps_insertLoop: "searchState (snd (insertLoop l i b vs ic)) = searchState ic"
proof (induction vs arbitrary: l i b ic)
  case (Cons v vs)
  then show ?case by (simp add: split_def Let_def keeps_search split: option.splits)
qed simp

lemma keeps_getEntryLoop: "searchState (snd (getEntryLoop l i vs ic)) = searchState ic"
proof (induction vs arbitrary: l i ic)
  case (Cons v vs)
  obtain r ic1 where v: "valueExists l i v ic = (r, ic1)" by (metis surj_pair)
  have "searchState ic1 = searchState ic" using keeps_intern(4) [of l i v ic] v by simp
  with Cons v show ?case by (simp split: option.splits)
qed simp

lemma keeps_strings [keeps_search]:
  "searchState (snd (insertLocked v ic)) = searchState ic" "searchState (snd (getEntryFromString v ic)) = searchState ic"
  by (simp_all add: insertLocked_def getEntryFromString_def split_def Let_def keeps_search keeps_insertLoop keeps_getEntryLoop
      split: option.splits)

lemma keeps_assoc [keeps_search]:
  "searchState (secureEntryLevel l ic) = searchState ic" "searchState (insertAssociation l t p ic) = searchState ic"
  "searchState (deleteAssociation l k ua p ic) = searchState ic" "searchState (snd (GetReverseAssociations v ic)) = searchState ic"
  "searchState (snd (storeTriple t ic)) = searchState ic"
  using keeps_strings(2) [of v ic]
  by (simp_all add: secureEntryLevel_def insertAssociation_def deleteAssociation_def GetReverseAssociations_def storeTriple_def
      split_def Let_def keeps_search split: option.splits prod.splits)

lemma searchState_eq: "searchState ic' = searchState ic \<longleftrightarrow> searchGen ic' = searchGen ic \<and> searchCache ic' = searchCache ic \<and>
    searchBytes ic' = searchBytes ic \<and> searchUse ic' = searchUse ic \<and> searchMaxBytes ic' = searchMaxBytes ic"
  by (simp add: searchState_def)

section \<open>Writes move the generation on\<close>

definition cache_fresh :: "collection \<Rightarrow> bool" where
  "cache_fresh ic \<longleftrightarrow>
     (\<forall>(key, c) \<in> set (searchCache ic).
        sc_revision c \<le> searchGen ic \<and>
        (sc_revision c = searchGen ic \<longrightarrow>
           (\<forall>q. corpusKey q = key \<longrightarrow> fieldsIn (sc_subjects c) = textOf ` wantedTriples q (triples ic))))"

text \<open>The search state after a write: unchanged with the triples, or one generation on.\<close>

definition wrote :: "collection \<Rightarrow> collection \<Rightarrow> bool" where
  "wrote ic ic' \<longleftrightarrow>
     searchCache ic' = searchCache ic \<and> searchBytes ic' = searchBytes ic \<and> searchUse ic' = searchUse ic \<and>
     searchMaxBytes ic' = searchMaxBytes ic \<and>
     (searchGen ic' = searchGen ic \<and> triples ic' = triples ic \<or> searchGen ic' = searchGen ic + 1)"

lemma wrote_fresh:
  assumes "wrote ic ic'" "cache_fresh ic" "searchGen ic \<noteq> - 1"
  shows "cache_fresh ic'"
proof (cases "searchGen ic' = searchGen ic \<and> triples ic' = triples ic")
  case True
  then show ?thesis using assms(1,2) by (auto simp: wrote_def cache_fresh_def)
next
  case False
  then have g: "searchGen ic' = searchGen ic + 1" "searchCache ic' = searchCache ic" using assms(1) by (auto simp: wrote_def)
  have "unat (searchGen ic + 1) = unat (searchGen ic) + 1"
    using assms(3) by (simp add: unat_plus_simple [symmetric] unatSuc add.commute eq_neg_iff_add_eq_0)
  then have "r \<le> searchGen ic' \<and> r \<noteq> searchGen ic'" if "r \<le> searchGen ic" for r
    using that g(1) by (auto simp: word_le_nat_alt)
  with assms(2) g show ?thesis by (fastforce simp: cache_fresh_def)
qed

lemma wrote_cache_ok: "wrote ic ic' \<Longrightarrow> cache_ok ic' = cache_ok ic"
  by (auto simp: wrote_def cache_ok_def)

lemma wrote_searchState: "searchState ic' = searchState ic \<Longrightarrow> triples ic' = triples ic \<Longrightarrow> wrote ic ic'"
  by (simp add: searchState_eq wrote_def)

lemma addLocked_wrote:
  assumes "writable ic" "storable3 s r v" "room (need3 s r v) ic" "addLocked s r v ic = (e, ic')"
  shows "wrote ic ic'"
proof -
  obtain k l ic1 v1 l1 ic2 v2 l2 ic3 where i: "insertLocked s ic = ((k, l), ic1)"
    "insertLocked r ic1 = ((v1, l1), ic2)" "insertLocked v ic2 = ((v2, l2), ic3)"
    by (metis prod.collapse)
  have wf: "coll_wf ic" "\<not> readOnly ic" "ioErr ic = None" using assms(1) by (auto simp: writable_def)
  note ins = three_inserts [OF wf(1) assms(2,3) i]
  note g = wf_grows [OF wf(1) ins(1)]
  define t where "t = \<lparr>t_Level = l, t_Key = k, t_Value1Level = l1, t_Value1 = v1, t_Value2Level = l2, t_Value2 = v2\<rparr>"
  note unf = addLocked_unfold [OF wf(2,3) i wfD(2) [OF g(1)] t_def]
  have s3: "searchState ic3 = searchState ic"
    using keeps_strings(1) [of s ic] keeps_strings(1) [of r ic1] keeps_strings(1) [of v ic2] i by simp
  show ?thesis
  proof (cases "fwd ic3 l k v1 v2 = None")
    case False
    then have "ic' = ic3" using unf assms(4) by simp
    then show ?thesis using wrote_searchState [OF s3 g(2)] by simp
  next
    case True
    let ?ic = "insertAssociation l t (fst (storeTriple t ic3)) (snd (storeTriple t ic3))"
    have "ic' = ?ic\<lparr>searchGen := searchGen ?ic + 1\<rparr>"
      using unf assms(4) True by (simp add: split_def Let_def)
    moreover have "searchState ?ic = searchState ic" using s3 by (simp add: keeps_search)
    ultimately show ?thesis by (simp add: searchState_eq wrote_def)
  qed
qed

lemma deleteLocked_search:
  assumes "deleteLocked s r v ic = ((msg, ok), ic')"
  shows "searchState ic' = searchState ic \<and> msg \<noteq> Text '''' \<or> ok \<and> searchState ic' = searchState (ic\<lparr>searchGen := searchGen ic + 1\<rparr>)"
proof -
  obtain e1 ic1 where 1: "getEntryFromString s ic = (e1, ic1)" by (metis surj_pair)
  obtain e2 ic2 where 2: "getEntryFromString r ic1 = (e2, ic2)" by (metis surj_pair)
  obtain e3 ic3 where 3: "getEntryFromString v ic2 = (e3, ic3)" by (metis surj_pair)
  obtain e4 ic4 where 4: "getEntryFromString s ic3 = (e4, ic4)" by (metis surj_pair)
  obtain e5 ic5 where 5: "getEntryFromString s ic4 = (e5, ic5)" by (metis surj_pair)
  have s: "searchState ic1 = searchState ic" "searchState ic2 = searchState ic" "searchState ic3 = searchState ic"
    "searchState ic4 = searchState ic" "searchState ic5 = searchState ic"
    using keeps_strings(2) [of s ic] keeps_strings(2) [of r ic1] keeps_strings(2) [of v ic2] keeps_strings(2) [of s ic3]
      keeps_strings(2) [of s ic4] 1 2 3 4 5 by simp_all
  have upd: "searchState (i\<lparr>searchGen := searchGen i + 1\<rparr>) = searchState (ic\<lparr>searchGen := searchGen ic + 1\<rparr>)"
    if "searchState i = searchState ic" for i
    using that by (simp add: searchState_eq)
  consider (early) "readOnly ic \<or> e1 = None \<or> e2 = None \<or> e3 = None"
    | (lookup) k l v1 l1 v2 l2 where "\<not> readOnly ic" "e1 = Some (k, l)" "e2 = Some (v1, l1)" "e3 = Some (v2, l2)"
    by (metis option.exhaust surj_pair)
  then show ?thesis
  proof cases
    case early
    then show ?thesis
      using assms 1 2 3 s
      by (cases "readOnly ic"; cases e1; cases e2; cases e3)
        (auto simp: deleteLocked_def didNotFindKey_def didNotFindValue_def Let_def)
  next
    case lookup
    let ?ua = "\<lparr>AssociateTo = v2, Relation = v1\<rparr>" and ?rev = "\<lparr>AssociateTo = k, Relation = v1\<rparr>"
    let ?pos = "case e4 of None \<Rightarrow> None | Some (k', lk) \<Rightarrow> map_option (Pair (k', lk)) (as_Get (getAssociations ic4 lk k') ?ua)"
    show ?thesis
    proof (cases ?pos)
      case None
      then show ?thesis
        using assms 1 2 3 4 5 s lookup
        by (cases "as_Get (getReverseAssociations ic4 l2 v2) ?rev = None"; cases e5)
          (auto simp: deleteLocked_def didNotFindKey_def didNotFindValue_def Let_def keeps_search)
    next
      case (Some x)
      obtain k' lk pos where x: "x = ((k', lk), pos)" by (metis surj_pair)
      let ?ic = "updReverseAssociationsTree l2 (updStored v2 (as_Delete ?rev)) (deleteAssociation lk k' ?ua pos ic4)"
      have "((msg, ok), ic') = ((Text '''', True), ?ic\<lparr>searchGen := searchGen ?ic + 1\<rparr>)"
        unfolding assms [symmetric] using 1 2 3 4 lookup Some x by (simp add: deleteLocked_def Let_def)
      then show ?thesis using upd [of ?ic] s(4) by (simp add: keeps_search)
    qed
  qed
qed

lemma deleteLocked_wrote:
  assumes "coll_wf ic" "\<not> readOnly ic" "storable3 s r v" "deleteLocked s r v ic = ((msg, ok), ic')"
  shows "wrote ic ic'"
proof -
  note d = deleteLocked_spec [OF assms]
  show ?thesis
  proof (cases ok)
    case True
    then have "searchState ic' = searchState (ic\<lparr>searchGen := searchGen ic + 1\<rparr>)"
      using deleteLocked_search [OF assms(4)] d(4) by auto
    then show ?thesis by (simp add: searchState_eq wrote_def)
  next
    case False
    then have "triples ic' = triples ic" "searchState ic' = searchState ic"
      using d(2,3) deleteLocked_search [OF assms(4)] by auto
    then show ?thesis by (intro wrote_searchState)
  qed
qed

section \<open>Building leaves the search state alone\<close>

lemma keeps_resolveIDs: "searchState (snd (resolveIDs rs out ic)) = searchState ic"
proof (induction rs arbitrary: out ic)
  case (Cons r rs)
  then show ?case using keeps_strings(2) [of r ic] by (simp add: split_def)
qed simp

lemma keeps_narrowLoop: "searchState (snd (narrowLoop i types seen ic)) = searchState ic"
proof (induction types arbitrary: seen ic)
  case (Cons ty types)
  obtain s found ic1 where g: "GetReverseAssociations ty ic = ((s, found), ic1)" by (metis surj_pair)
  then have "searchState ic1 = searchState ic" using keeps_assoc(4) [of ty ic] by simp
  with Cons g show ?case by (cases found) simp_all
qed simp

lemma keeps_buildCorpus: "searchState (snd (buildCorpus u q revision ic)) = searchState ic"
proof -
  obtain relIDs ic1 where r: "resolveIDs (Relations q) [] ic = (relIDs, ic1)" by (metis surj_pair)
  obtain e ic2 where g: "getEntryFromString TIE_TYPE ic1 = (e, ic2)" by (metis surj_pair)
  have s: "searchState ic1 = searchState ic" "searchState ic2 = searchState ic"
    using keeps_resolveIDs [of "Relations q" "[]" ic] keeps_strings(2) [of TIE_TYPE ic1] r g by simp_all
  show ?thesis
  proof (cases e)
    case None
    then show ?thesis using r g s by (simp add: buildCorpus_def Let_def)
  next
    case (Some x)
    obtain i l where x: "x = (i, l)" by (metis surj_pair)
    show ?thesis
      using r g s Some x keeps_narrowLoop [of i "TieTypes q" "[]" ic2] keeps_resolveIDs [of "TieTypes q" "[]" ic2]
      by (simp add: buildCorpus_def split_def Let_def)
  qed
qed

section \<open>The cache operations\<close>

text \<open>\<open>recached ic ic'\<close>: only the corpus cache and its counters changed.\<close>

definition recached :: "collection \<Rightarrow> collection \<Rightarrow> bool" where
  "recached ic ic' \<longleftrightarrow> view ic' = view ic \<and> searchGen ic' = searchGen ic \<and> searchMaxBytes ic' = searchMaxBytes ic"

lemma recached_upd:
  "recached ic (ic\<lparr>searchCache := c, searchBytes := b\<rparr>)" "recached ic (ic\<lparr>searchBytes := b, searchCache := c\<rparr>)"
  "recached ic (ic\<lparr>searchUse := n, searchCache := c\<rparr>)" "recached ic (ic\<lparr>searchUse := n, searchCache := c, searchBytes := b\<rparr>)"
  by (simp_all add: recached_def view_def)

lemma recached_trans: "recached a b \<Longrightarrow> recached b c \<Longrightarrow> recached a c"
  by (simp add: recached_def)

lemma recached_fresh:
  assumes "recached ic ic'" "cache_fresh ic"
    and "\<And>key c. (key, c) \<in> set (searchCache ic') \<Longrightarrow>
      (\<exists>c'. (key, c') \<in> set (searchCache ic) \<and> sc_revision c' = sc_revision c \<and> sc_subjects c' = sc_subjects c) \<or>
      sc_revision c = searchGen ic \<and> (\<forall>q. corpusKey q = key \<longrightarrow> fieldsIn (sc_subjects c) = textOf ` wantedTriples q (triples ic))"
  shows "cache_fresh ic'"
proof -
  have e: "searchGen ic' = searchGen ic" "triples ic' = triples ic"
    using assms(1) view_cong(2) [of ic' ic] by (simp_all add: recached_def)
  show ?thesis
    using assms(2,3) unfolding cache_fresh_def e by (fastforce dest!: assms(3))
qed

lemma evictLoop_recached: "recached ic (evictLoop key ic) \<and> set (searchCache (evictLoop key ic)) \<subseteq> set (searchCache ic)"
proof (induction key ic rule: evictLoop.induct)
  case (1 key ic)
  let ?full = "(searchBytes ic > searchMaxBytes ic \<or> length (searchCache ic) > maxSearchCorpora) \<and> searchCache ic \<noteq> []"
  let ?e = "eldest (searchCache ic)"
  let ?ic = "ic\<lparr>searchBytes := searchBytes ic - entryBytes ?e, searchCache := filter (\<lambda>x. fst x \<noteq> fst ?e) (searchCache ic)\<rparr>"
  have r: "recached ic ?ic" by (rule recached_upd)
  show ?case
  proof (cases "?full \<and> fst ?e \<noteq> key")
    case True
    from True "1.IH" [OF conjunct1 [OF True] refl refl] r recached_trans show ?thesis
      by (subst (1 2) evictLoop.simps) (auto simp: Let_def)
  next
    case False
    then show ?thesis using r by (subst (1 2) evictLoop.simps) (auto simp: Let_def recached_def view_def)
  qed
qed

lemma install_recached:
  "recached ic (installCorpusLocked key c ic)"
  "(k, c') \<in> set (searchCache (installCorpusLocked key c ic)) \<Longrightarrow>
     (k, c') \<in> set (searchCache ic) \<or> k = key \<and> c' = c\<lparr>sc_lastUse := searchUse ic + 1\<rparr>"
proof -
  let ?c = "c\<lparr>sc_lastUse := searchUse ic + 1\<rparr>"
  let ?old = "case map_of (searchCache ic) key of None \<Rightarrow> 0 | Some o' \<Rightarrow> entryBytes (key, o')"
  let ?ic = "ic\<lparr>searchUse := searchUse ic + 1, searchCache := AList.update key ?c (searchCache ic),
       searchBytes := searchBytes ic - ?old + entryBytes (key, ?c)\<rparr>"
  have e: "installCorpusLocked key c ic = evictLoop key ?ic" by (simp add: installCorpusLocked_def Let_def)
  show "recached ic (installCorpusLocked key c ic)"
    unfolding e using evictLoop_recached [of ?ic key] recached_upd(4) recached_trans by blast
  show "(k, c') \<in> set (searchCache ic) \<or> k = key \<and> c' = ?c" if "(k, c') \<in> set (searchCache (installCorpusLocked key c ic))"
    using that evictLoop_recached [of ?ic key] unfolding e by (auto dest: mem_update)
qed

definition served :: "SearchQuery \<Rightarrow> collection \<Rightarrow> searchCorpus \<times> collection \<Rightarrow> bool" where
  "served q ic r \<longleftrightarrow>
     fieldsIn (sc_subjects (fst r)) = textOf ` wantedTriples q (triples ic) \<and> sc_revision (fst r) = searchGen ic \<and>
     coll_wf (snd r) \<and> triples (snd r) = triples ic \<and> searchGen (snd r) = searchGen ic \<and>
     cache_ok (snd r) \<and> cache_fresh (snd r) \<and> same_config ic (snd r)"

lemma wantedTriples_key: "corpusKey q = corpusKey q' \<Longrightarrow> wantedTriples q = wantedTriples q'"
  using corpusKey_inject [of q q'] by (auto simp: wantedTriples_def fieldOk_def fun_eq_iff)

lemma recached_config: "recached ic ic' \<Longrightarrow> same_config ic ic'"
  unfolding recached_def same_config_def by (metis obs_view)

lemma recached_served:
  assumes "recached ic ic'" "coll_wf ic" "cache_ok ic'" "cache_fresh ic'"
    and "fieldsIn (sc_subjects c) = textOf ` wantedTriples q (triples ic)" "sc_revision c = searchGen ic"
  shows "served q ic (c, ic')"
  using assms view_cong(1,2) [of ic' ic] recached_config [OF assms(1)] by (simp add: served_def recached_def)

lemma touch_served:
  assumes "coll_wf ic" "cache_ok ic" "cache_fresh ic" "map_of (searchCache ic) (corpusKey q) = Some c" "sc_revision c = searchGen ic"
  shows "served q ic (touchCorpus (corpusKey q) c ic)"
proof -
  let ?c = "c\<lparr>sc_lastUse := searchUse ic + 1\<rparr>"
  let ?ic = "ic\<lparr>searchUse := searchUse ic + 1, searchCache := AList.update (corpusKey q) ?c (searchCache ic)\<rparr>"
  have t: "touchCorpus (corpusKey q) c ic = (?c, ?ic)" by (simp add: touchCorpus_def Let_def)
  have mem: "(corpusKey q, c) \<in> set (searchCache ic)" by (rule map_of_SomeD [OF assms(4)])
  have r: "recached ic ?ic" by (rule recached_upd)
  have "cache_fresh ?ic"
  proof (rule recached_fresh [OF r assms(3)])
    fix key c'
    assume "(key, c') \<in> set (searchCache ?ic)"
    then have "(key, c') = (corpusKey q, ?c) \<or> (key, c') \<in> set (searchCache ic)" by (auto dest: mem_update)
    with mem show "(\<exists>c''. (key, c'') \<in> set (searchCache ic) \<and> sc_revision c'' = sc_revision c' \<and> sc_subjects c'' = sc_subjects c') \<or>
        sc_revision c' = searchGen ic \<and> (\<forall>q. corpusKey q = key \<longrightarrow> fieldsIn (sc_subjects c') = textOf ` wantedTriples q (triples ic))"
      by auto
  qed
  moreover have "cache_ok ?ic" using touch_ok [OF assms(2,4)] t by simp
  moreover have "fieldsIn (sc_subjects ?c) = textOf ` wantedTriples q (triples ic)"
    using assms(3,5) mem by (auto simp: cache_fresh_def)
  ultimately show ?thesis unfolding t by (intro recached_served [OF r assms(1)]) (simp_all add: assms(5))
qed

lemma offer_served:
  assumes wf: "coll_wf ic" and ok: "cache_ok ic" "cache_fresh ic"
    and c: "fieldsIn (sc_subjects c) = textOf ` wantedTriples q (triples ic)" "sc_revision c = searchGen ic" "0 \<le> sc_bytes c"
  shows "served q ic (offerCorpus (corpusKey q) (searchGen ic) c ic)"
proof -
  let ?key = "corpusKey q"
  have plain: "served q ic (c, ic)" by (rule recached_served [OF _ wf ok c(1,2)]) (simp add: recached_def)
  note r = install_recached(1) [of ic ?key c] install_recached(2) [where ic = ic and key = ?key and c = c]
  have "cache_fresh (installCorpusLocked ?key c ic)"
  proof (rule recached_fresh [OF r(1) ok(2)])
    fix key c'
    assume "(key, c') \<in> set (searchCache (installCorpusLocked ?key c ic))"
    then consider "(key, c') \<in> set (searchCache ic)" | "key = ?key" "c' = c\<lparr>sc_lastUse := searchUse ic + 1\<rparr>"
      using r(2) by blast
    then show "(\<exists>c''. (key, c'') \<in> set (searchCache ic) \<and> sc_revision c'' = sc_revision c' \<and> sc_subjects c'' = sc_subjects c') \<or>
        sc_revision c' = searchGen ic \<and> (\<forall>q. corpusKey q = key \<longrightarrow> fieldsIn (sc_subjects c') = textOf ` wantedTriples q (triples ic))"
    proof cases
      case 2
      then have "fieldsIn (sc_subjects c') = textOf ` wantedTriples q' (triples ic)" if "corpusKey q' = key" for q'
        using wantedTriples_key [of q' q] that c(1) by simp
      moreover have "sc_revision c' = searchGen ic" using 2 c(2) by simp
      ultimately show ?thesis by blast
    qed blast
  qed
  then have new: "served q ic (c, installCorpusLocked ?key c ic)"
    by (intro recached_served [OF r(1) wf install_ok [OF ok(1) c(3)] _ c(1,2)])
  show ?thesis
    using plain new touch_served [OF wf ok] by (auto simp: offerCorpus_def split: option.splits)
qed

lemma lookup_dropped:
  "lookupCorpus key ic = (let ic = dropStaleCorporaLocked (searchGen ic) ic
     in case map_of (searchCache ic) key of
          Some c \<Rightarrow> (case touchCorpus key c ic of (c, ic) \<Rightarrow> (Some c, ic)) | None \<Rightarrow> (None, ic))"
proof -
  let ?ic = "dropStaleCorporaLocked (searchGen ic) ic"
  have "sc_revision c = searchGen ?ic" if "map_of (searchCache ?ic) key = Some c" for c
    using map_of_SomeD [OF that] by (auto simp: dropStaleCorporaLocked_def)
  then show ?thesis by (auto simp: lookupCorpus_def Let_def split: option.splits)
qed

lemma served_trans:
  assumes "served q ic1 r" "triples ic1 = triples ic" "searchGen ic1 = searchGen ic" "same_config ic ic1"
  shows "served q ic r"
  using assms by (auto simp: served_def intro: same_config_trans)

lemma corpusFor_served:
  assumes wf: "coll_wf ic" and ok: "cache_ok ic" "cache_fresh ic"
    and st: "\<forall>n \<in> set (Relations q) \<union> set (TieTypes q). storable n"
  shows "served q ic (corpusFor u (corpusKey q) q ic)"
proof -
  let ?ic = "dropStaleCorporaLocked (searchGen ic) ic"
  have r: "recached ic ?ic" by (simp add: dropStaleCorporaLocked_def recached_upd)
  have e: "searchGen ?ic = searchGen ic" "triples ?ic = triples ic" "coll_wf ?ic"
    using r view_cong(1,2) [of ?ic ic] wf by (simp_all add: recached_def)
  have f: "cache_fresh ?ic"
    by (rule recached_fresh [OF r ok(2)]) (auto simp: dropStaleCorporaLocked_def)
  note k = dropStale_ok [OF ok(1), of "searchGen ic"]
  show ?thesis
  proof (cases "map_of (searchCache ?ic) (corpusKey q)")
    case (Some c)
    have "sc_revision c = searchGen ?ic" using map_of_SomeD [OF Some] by (auto simp: dropStaleCorporaLocked_def)
    from served_trans [OF touch_served [OF e(3) k f Some this] e(2,1) recached_config [OF r]] Some show ?thesis
      by (simp add: corpusFor_def lookup_dropped Let_def split_def)
  next
    case None
    obtain c ic2 where b: "buildCorpus u q (searchGen ?ic) ?ic = (c, ic2)" by (metis surj_pair)
    have c: "quiet ?ic ic2" "fieldsIn (sc_subjects c) = textOf ` wantedTriples q (triples ?ic)" "sc_revision c = searchGen ?ic" "0 \<le> sc_bytes c"
      using buildCorpus_ok [OF e(3) st, of "searchGen ?ic" u] b by (simp_all add: corpus_ok_def)
    have s: "searchState ic2 = searchState ?ic" using keeps_buildCorpus [of u q "searchGen ?ic" ?ic] b by simp
    have q2: "coll_wf ic2" "triples ic2 = triples ?ic" by (rule quietD [OF e(3) c(1)])+
    have "wrote ?ic ic2" by (rule wrote_searchState [OF s q2(2)])
    then have "cache_ok ic2" "cache_fresh ic2"
      using k f s q2(2) wrote_cache_ok by (auto simp: cache_fresh_def searchState_eq)
    from offer_served [OF q2(1) this, of c q] c(2-4) q2(2) s
    have sv: "served q ic2 (offerCorpus (corpusKey q) (searchGen ?ic) c ic2)" by (simp add: searchState_eq)
    have "same_config ic ic2"
      by (rule same_config_trans [OF recached_config [OF r] quietD(11) [OF e(3) c(1)]])
    moreover have "triples ic2 = triples ic" "searchGen ic2 = searchGen ic"
      using e(1,2) q2(2) s by (simp_all add: searchState_eq)
    ultimately have "served q ic (offerCorpus (corpusKey q) (searchGen ?ic) c ic2)"
      using served_trans [OF sv] by blast
    with b None show ?thesis by (simp add: corpusFor_def lookup_dropped Let_def)
  qed
qed

section \<open>Hits are stored triples\<close>

lemma keepBetter_cases: "keepBetter s i sc best = Some (b, j) \<Longrightarrow> j = i \<or> best = Some (b, j)"
  by (auto simp: keepBetter_def split: if_splits)

lemma fold_index:
  assumes "\<And>i best b j. f i best = Some (b, j) \<Longrightarrow> j = i \<or> best = Some (b, j)" "fold f is best = Some (b, j)"
  shows "j \<in> set is \<or> best = Some (b, j)"
  using assms(2)
proof (induction "is" arbitrary: best)
  case (Cons i "is")
  then show ?case using assms(1) [of i best b j] by fastforce
qed simp

lemma tokensPass_length: "tokensPass q s ts perField tot = Some (Some (pf, tot')) \<Longrightarrow> length pf = length perField"
proof (induction ts arbitrary: perField tot)
  case (Cons t ts)
  then show ?case by (auto split: option.splits)
qed simp

lemma pq_match_index:
  assumes "pq_match u q s = Some (Some (sc, i))"
  shows "i < length (ss_fields s)"
proof (cases "pq_mode q = SearchSubstring")
  case True
  then have m: "matchSubstring u q s = Some (sc, i)" using assms by (simp add: pq_match_def)
  have "i \<in> set [0..<length (ss_fields s)] \<or> None = Some (sc, i)"
    by (rule fold_index [OF _ m [unfolded matchSubstring_def]]) (auto simp: Let_def dest: keepBetter_cases split: if_splits)
  then show ?thesis by simp
next
  case False
  then have "matchTokens q s = Some (Some (sc, i))" using assms by (simp add: pq_match_def)
  then obtain pf tot where p: "tokensPass q s (tokens q) (replicate (length (ss_fields s)) 0) 0 = Some (Some (pf, tot))"
    by (auto simp: matchTokens_def split: option.splits)
  have len: "length pf = length (ss_fields s)" using tokensPass_length [OF p] by simp
  let ?phrase = "if length (tokens q) > 1 then phraseField q s pf else None"
  let ?pf = "case ?phrase of None \<Rightarrow> pf | Some i \<Rightarrow> pf[i := pf ! i + phraseBonus]"
  obtain b where b: "fold (\<lambda>i best. keepBetter s i (?pf ! i) best) [0..<length ?pf] None = Some (b, i)"
    using \<open>matchTokens q s = Some (Some (sc, i))\<close> p
    by (auto simp: matchTokens_def Let_def split: option.splits if_splits)
  have "i \<in> set [0..<length ?pf] \<or> None = Some (b, i)"
    by (rule fold_index [OF _ b]) (rule keepBetter_cases)
  moreover have "length ?pf = length (ss_fields s)" using len by (simp split: option.splits)
  ultimately show ?thesis by simp
qed

definition hitTriple :: "SearchMatch \<Rightarrow> StringTriple" where
  "hitTriple m = \<lparr>Key = sm_Key m, Value1 = sm_Relation m, Value2 = sm_Value m\<rparr>"

lemma hitsOf_fields:
  assumes "m \<in> set (hitsOf u q ss)"
  shows "(sm_Key m, sm_Relation m, sm_Value m) \<in> fieldsIn ss"
proof -
  obtain s r where s: "s \<in> set ss" "the (pq_match u q s) = Some r" "m = matchOf s r"
    using assms by (auto simp: hitsOf_def set_map_filter)
  obtain sc i where r: "r = (sc, i)" by (metis surj_pair)
  have "pq_match u q s = Some (Some (sc, i))" using s(2) r match_no_panic [of u q s] by auto
  from pq_match_index [OF this] s r show ?thesis
    by (auto simp: fieldsIn_def matchOf_def intro!: exI [of _ s] exI [of _ "ss_fields s ! i"])
qed

lemma normalize_bounds:
  "0 \<le> sq_Offset (normalizeSearchQuery u q)" "sq_Offset (normalizeSearchQuery u q) \<le> maxSearchOffset"
  "0 < sq_Limit (normalizeSearchQuery u q)" "sq_Limit (normalizeSearchQuery u q) \<le> MaxSearchLimit"
  by (simp_all add: normalizeSearchQuery_def Let_def search_limits)

lemma length_dedupeLoop: "length out < limit \<Longrightarrow> length (dedupeLoop u limit vs out) \<le> limit"
proof (induction vs arbitrary: out)
  case (Cons v vs)
  show ?case using Cons.IH [of out] Cons.IH [of "out @ [trimSpace u v]"] Cons.prems by (simp add: Let_def)
qed simp

lemma dedupe_spec:
  "length (dedupeNonEmpty u vs limit) \<le> limit"
  "\<forall>v \<in> set (dedupeNonEmpty u vs limit). v \<noteq> '''' \<and> length v \<le> maxSearchNameBytes"
  "distinct (dedupeNonEmpty u vs limit)"
proof -
  show "length (dedupeNonEmpty u vs limit) \<le> limit"
    using length_dedupeLoop [of "[]" limit u vs] by (simp add: dedupeNonEmpty_def)
  have "x \<in> set out \<or> x \<noteq> '''' \<and> length x \<le> maxSearchNameBytes" if "x \<in> set (dedupeLoop u limit vs out)" for x out
    using that
  proof (induction vs arbitrary: out)
    case (Cons v vs)
    define w where "w = trimSpace u v"
    have unf: "dedupeLoop u limit (v # vs) out =
        (if w = '''' \<or> length w > maxSearchNameBytes \<or> w \<in> set out then dedupeLoop u limit vs out
         else if length out + 1 = limit then out @ [w] else dedupeLoop u limit vs (out @ [w]))"
      by (simp add: w_def Let_def)
    from Cons.prems Cons.IH [of out] Cons.IH [of "out @ [w]"] show ?case
      unfolding unf by (auto split: if_splits)
  qed simp
  from this [where out = "[]"] show "\<forall>v \<in> set (dedupeNonEmpty u vs limit). v \<noteq> '''' \<and> length v \<le> maxSearchNameBytes"
    by (auto simp: dedupeNonEmpty_def)
  have "distinct (dedupeLoop u limit vs out)" if "distinct out" for out
    using that
  proof (induction vs arbitrary: out)
    case (Cons v vs)
    show ?case using Cons.IH [of out] Cons.IH [of "out @ [trimSpace u v]"] Cons.prems by (simp add: Let_def)
  qed simp
  then show "distinct (dedupeNonEmpty u vs limit)" by (simp add: dedupeNonEmpty_def)
qed

text \<open>Searchable state: well-formed, with a cache within its budget and up to date.\<close>

definition searchable :: "collection \<Rightarrow> bool" where
  "searchable ic \<longleftrightarrow> coll_wf ic \<and> cache_ok ic \<and> cache_fresh ic"

lemma Search_spec:
  assumes "searchable ic" "\<forall>n \<in> set (Relations (normalizeSearchQuery u q)) \<union> set (TieTypes (normalizeSearchQuery u q)). storable n"
    and "Search u q ic = (r, ic')"
  obtains ss where "searchable ic'" "triples ic' = triples ic" "searchGen ic' = searchGen ic" "same_config ic ic'"
    and "fieldsIn ss \<subseteq> textOf ` wantedTriples (normalizeSearchQuery u q) (triples ic)"
    and "r = (let q' = normalizeSearchQuery u q; ms = hitsOf u (prepareSearchQuery u q') ss
      in Some (take (nat (sq_Limit q')) (drop (nat (sq_Offset q')) (bestFirst ms)), length ms, searchGen ic))"
    and "pq_empty u (prepareSearchQuery u (normalizeSearchQuery u q)) \<or>
      fieldsIn ss = textOf ` wantedTriples (normalizeSearchQuery u q) (triples ic)"
proof -
  let ?q = "normalizeSearchQuery u q"
  let ?p = "prepareSearchQuery u ?q"
  show thesis
  proof (cases "pq_empty u ?p \<or> Relations ?q = []")
    case True
    then have s: "r = Some ([], 0, searchGen ic)" "ic' = ic" using assms(3) by (auto simp: Search_def Let_def)
    have none: "hitsOf u ?p [] = []" "bestFirst [] = []" "fieldsIn [] = {}"
      by (simp_all add: hitsOf_def bestFirst_def fieldsIn_def map_filter_simps)
    have "wantedTriples ?q (triples ic) = {}" if "Relations ?q = []" using that by (auto simp: wantedTriples_def fieldOk_def)
    with True that [of "[]"] s none assms(1) show thesis by (auto simp: Let_def)
  next
    case False
    obtain c ic1 where c: "corpusFor u (corpusKey ?q) ?q ic = (c, ic1)" by (metis surj_pair)
    have sv: "served ?q ic (c, ic1)" using corpusFor_served [of ic ?q u] assms(1,2) c by (simp add: searchable_def)
    have "Search u q ic = (rankCorpus u c ?p (sq_Offset ?q) (sq_Limit ?q), ic1)"
      using False c by (simp add: Search_def Let_def)
    then have "r = rankCorpus u c ?p (sq_Offset ?q) (sq_Limit ?q)" "ic' = ic1" using assms(3) by simp_all
    with that [of "sc_subjects c"] sv rankCorpus_spec [OF normalize_bounds(1,3)] show thesis
      by (simp add: served_def searchable_def Let_def)
  qed
qed

section \<open>Reachable collections\<close>

text \<open>
  The life of a writable collection: user writes, searches, and the writer goroutine taking one queued
  change. The bounds say that ids and generations do not run out.
\<close>

inductive op_step :: "collection \<Rightarrow> collection \<Rightarrow> bool" where
  add: "storable3 s r v \<Longrightarrow> room (need3 s r v) ic \<Longrightarrow> searchGen ic \<noteq> - 1 \<Longrightarrow> op_step ic (snd (Add s r v ic))"
| delete: "storable3 s r v \<Longrightarrow> searchGen ic \<noteq> - 1 \<Longrightarrow> op_step ic (snd (Delete s r v ic))"
| search: "\<forall>n \<in> set (Relations (normalizeSearchQuery u q)) \<union> set (TieTypes (normalizeSearchQuery u q)). storable n \<Longrightarrow>
    op_step ic (snd (Search u q ic))"
| writer: "writeToDisk ic \<Longrightarrow> op_step ic (writerStep ic)"

lemma keeps_writer: "searchState (writerStep ic) = searchState ic"
proof -
  have "searchState (snd (applyFileMod m ic)) = searchState ic" for m ic
    by (auto simp: applyFileMod_def searchState_def freeSlot_def Let_def split: option.splits FileMod.splits prod.splits)
  moreover have "searchState (setIOErr e ic) = searchState ic" for e ic by (simp add: setIOErr_def searchState_def)
  moreover have "searchState (ic\<lparr>dBWriteQueue := rest\<rparr>) = searchState ic" for rest by (simp add: searchState_def)
  ultimately show ?thesis
    by (auto simp: writerStep_def split: list.splits option.splits prod.splits) (metis snd_conv)+
qed

lemma op_step_invariant:
  assumes "op_step ic ic'" "writable ic" "searchable ic"
  shows "writable ic' \<and> searchable ic'"
  using assms
proof (induction rule: op_step.induct)
  case (add s r v ic)
  obtain e ic' where a: "addLocked s r v ic = (e, ic')" by (metis surj_pair)
  note sp = addLocked_spec [OF add.prems(1) add.hyps(1,2) a] and w = addLocked_wrote [OF add.prems(1) add.hyps(1,2) a]
  have "cache_fresh ic'" using wrote_fresh [OF w] add by (simp add: searchable_def)
  with sp(2,4) writable_config [OF add.prems(1)] wrote_cache_ok [OF w] add.prems a show ?case
    by (simp add: searchable_def Add_def)
next
  case (delete s r v ic)
  obtain msg ok ic' where d: "deleteLocked s r v ic = ((msg, ok), ic')" by (metis surj_pair)
  have wf: "coll_wf ic" "\<not> readOnly ic" using delete.prems(1) by (simp_all add: writable_def)
  note sp = deleteLocked_spec [OF wf delete.hyps(1) d] and w = deleteLocked_wrote [OF wf delete.hyps(1) d]
  have "cache_fresh ic'" using wrote_fresh [OF w] delete by (simp add: searchable_def)
  with sp(1,5) writable_config [OF delete.prems(1)] wrote_cache_ok [OF w] delete.prems d show ?case
    by (simp add: searchable_def Delete_def)
next
  case (search u q ic)
  obtain r ic' where s: "Search u q ic = (r, ic')" by (metis surj_pair)
  obtain ss where "searchable ic'" "same_config ic ic'"
    by (rule Search_spec [OF search.prems(2) search.hyps s])
  with s writable_config [OF search.prems(1)] show ?case by (simp add: searchable_def)
next
  case (writer ic)
  have wf: "coll_wf ic" using writer.prems(1) by (simp add: writable_def)
  have q: "quiet ic (writerStep ic)" using writerSteps_quiet [OF wf writer.hyps, of 1] by simp
  have "wrote ic (writerStep ic)" by (rule wrote_searchState [OF keeps_writer quietD(2) [OF wf q]])
  moreover have "cache_fresh (writerStep ic)"
    using keeps_writer [of ic] quietD(2) [OF wf q] writer.prems(2)
    by (simp add: cache_fresh_def searchable_def searchState_eq)
  ultimately show ?case
    using quietD(1,11) [OF wf q] writable_config [OF writer.prems(1)] wrote_cache_ok writer.prems(2)
    by (auto simp: searchable_def)
qed

lemma reachable_invariant:
  "op_step\<^sup>*\<^sup>* ic ic' \<Longrightarrow> writable ic \<Longrightarrow> searchable ic \<Longrightarrow> writable ic' \<and> searchable ic'"
  by (induction rule: rtranclp_induct) (auto dest: op_step_invariant)

lemma searchable_empty: "coll_wf ic \<Longrightarrow> searchCache ic = [] \<Longrightarrow> searchBytes ic = 0 \<Longrightarrow> searchable ic"
  by (simp add: searchable_def cache_ok_def cache_fresh_def)

lemma searchable_new:
  "searchable (newCollection False False rs None mb)"
  "(\<And>p. pol = Some p \<Longrightarrow> policy_ok p) \<Longrightarrow> searchable (newDisk rs pol mb)"
proof -
  show "searchable (newCollection False False rs None mb)"
    using wf_newMemory(1) [of None False rs mb] by (intro searchable_empty) (simp_all add: newCollection_def SetBlobPolicy_def SetReverseRelations_def Let_def)
  show "searchable (newDisk rs pol mb)" if "\<And>p. pol = Some p \<Longrightarrow> policy_ok p"
    using wf_newDisk(1) [of pol rs mb] that
    by (intro searchable_empty)
      (simp_all add: writable_def newDisk_unfold newCollection_def SetBlobPolicy_def SetReverseRelations_def Let_def split: option.splits)
qed

section \<open>Hits of a page\<close>

lemma compareSearchMatch_total: "total_cmp (\<lambda>a b. compareSearchMatch b a)"
  unfolding total_cmp_def compareSearchMatch_le by (auto 0 3)

lemma bestFirst_spec:
  "sorted_wrt (\<lambda>a b. compareSearchMatch b a \<le> 0) (bestFirst ms)" "mset (bestFirst ms) = mset ms"
  using sorted_sort_by [of "\<lambda>a b. compareSearchMatch b a"] compareSearchMatch_total by (auto simp: bestFirst_def)

lemma page_hit: "m \<in> set (take n (drop k (bestFirst ms))) \<Longrightarrow> m \<in> set ms"
  using set_take_subset [of n "drop k (bestFirst ms)"] set_drop_subset [of k "bestFirst ms"]
  by (auto simp: bestFirst_def)

lemma hit_wanted:
  assumes "m \<in> set (hitsOf u p ss)" "fieldsIn ss \<subseteq> textOf ` wantedTriples q ts"
  shows "hitTriple m \<in> wantedTriples q ts"
proof -
  obtain st where st: "st \<in> wantedTriples q ts" "(sm_Key m, sm_Relation m, sm_Value m) = textOf st"
    using hitsOf_fields [OF assms(1)] assms(2) by blast
  then have "hitTriple m = st" by (simp add: hitTriple_def textOf_def)
  with st(1) show ?thesis by simp
qed

section \<open>Normalised queries\<close>

lemma normalize_names:
  fixes u q
  defines "n \<equiv> normalizeSearchQuery u q"
  shows "length (Relations n) \<le> maxSearchRelations" "length (TieTypes n) \<le> maxSearchTypes"
    "distinct (Relations n)" "distinct (TieTypes n)" "sorted (Relations n)" "sorted (TieTypes n)"
    "x \<in> set (Relations n) \<union> set (TieTypes n) \<Longrightarrow> x \<noteq> '''' \<and> length x \<le> maxSearchNameBytes"
    "Mode n \<in> {SearchWords, SearchSubstring, SearchPrefix, SearchFuzzy}"
  using dedupe_spec [of u "Relations q" maxSearchRelations] dedupe_spec [of u "TieTypes q" maxSearchTypes]
  by (auto simp: n_def normalizeSearchQuery_def Let_def)

lemma alist_update_mem: "e \<in> set (AList.update k v xs) \<Longrightarrow> e = (k, v) \<or> e \<in> set xs"
  by (induction xs) (auto split: if_splits)

lemma clampWeights_spec: "(r, w) \<in> set (clampWeights u rels ws) \<Longrightarrow> r \<in> set rels \<and> 10 \<le> w \<and> w \<le> 1000"
proof -
  let ?f = "\<lambda>(relation, w) out. let relation = trimSpace u relation
         in if relation \<notin> set rels \<or> w \<le> 0 then out else AList.update relation (min 1000 (max 10 (w :: int))) out"
  have "\<forall>(r, w) \<in> set (fold ?f ws out). r \<in> set rels \<and> 10 \<le> w \<and> w \<le> 1000"
    if "\<forall>(r, w) \<in> set out. r \<in> set rels \<and> 10 \<le> w \<and> w \<le> 1000" for out
    using that
  proof (induction ws arbitrary: out)
    case (Cons x ws)
    obtain r w where x: "x = (r, w)" by (metis surj_pair)
    have "\<forall>(r, w) \<in> set (?f x out). r \<in> set rels \<and> 10 \<le> w \<and> w \<le> 1000"
      using Cons.prems by (auto simp: x Let_def dest!: alist_update_mem)
    from Cons.IH [OF this] show ?case by simp
  qed simp
  from this [of "[]"] show "(r, w) \<in> set (clampWeights u rels ws) \<Longrightarrow> r \<in> set rels \<and> 10 \<le> w \<and> w \<le> 1000"
    by (fastforce simp: clampWeights_def)
qed

lemma normalize_weights:
  "(r, w) \<in> set (Weights (normalizeSearchQuery u q)) \<Longrightarrow>
     r \<in> set (Relations (normalizeSearchQuery u q)) \<and> 10 \<le> w \<and> w \<le> 1000"
  using clampWeights_spec [of r w u "sort (dedupeNonEmpty u (Relations q) maxSearchRelations)" "Weights q"]
  by (auto simp: normalizeSearchQuery_def Let_def split: if_splits)

end
