(* ===== verification/Smb_Escape.thy ===== *)
theory Smb_Escape
  imports Tie_Prelude
begin

text \<open>
  \<^verbatim>\<open>io/smbfs/escape.go\<close>: the names of the store as file names a Windows client accepts, and back. The shifts
  and masks of a byte's two hexadecimal digits are its quotient and remainder by sixteen.
  Shown: every name survives the round trip, and the escaped form breaks none of the rules of a file name.
\<close>

section \<open>Names\<close>

definition escapeMarker :: char where
  "escapeMarker = CHR ''~''"

definition illegalBytes :: string where
  "illegalBytes = CHR 0x5C # ''/*:'' @ CHR 0x22 # ''<>|?''"

definition reservedNames :: "string list" where
  "reservedNames =
     [''CON'', ''PRN'', ''AUX'', ''NUL'', ''COM1'', ''COM2'', ''COM3'', ''COM4'', ''COM5'', ''COM6'', ''COM7'', ''COM8'', ''COM9'',
      ''LPT1'', ''LPT2'', ''LPT3'', ''LPT4'', ''LPT5'', ''LPT6'', ''LPT7'', ''LPT8'', ''LPT9'']"

definition hexDigits :: string where
  "hexDigits = ''0123456789abcdef''"

definition escapeStr :: "char \<Rightarrow> string" where
  "escapeStr c = [escapeMarker, hexDigits ! (of_char c div 16), hexDigits ! (of_char c mod 16)]"

definition mustEscape :: "char \<Rightarrow> bool" where
  "mustEscape c \<longleftrightarrow> of_char c < (0x20 :: nat) \<or> of_char c = (0x7f :: nat) \<or> c = escapeMarker \<or> c \<in> set illegalBytes"

text \<open>
  \<^verbatim>\<open>strings.ToUpper\<close> as the lookup of a device name uses it: of the runes beyond ASCII only the dotless i and the
  long s have an upper case in ASCII, and no device name has an I or an S.
\<close>

definition toUpperByte :: "char \<Rightarrow> char" where
  "toUpperByte c = (if CHR ''a'' \<le> c \<and> c \<le> CHR ''z'' then char_of (of_char c - 32 :: nat) else c)"

definition isReservedBase :: "string \<Rightarrow> bool" where
  "isReservedBase name \<longleftrightarrow> map toUpperByte (takeWhile (\<lambda>c. c \<noteq> CHR ''.'') name) \<in> set reservedNames"

definition displayByte :: "char \<Rightarrow> string" where
  "displayByte c = (if mustEscape c then escapeStr c else [c])"

definition refusedAtEnd :: "char \<Rightarrow> bool" where
  "refusedAtEnd c \<longleftrightarrow> c = CHR ''.'' \<or> c = CHR '' ''"

function escapeName :: "string \<Rightarrow> string" where
  "escapeName name =
     (let out = concat (map displayByte name)
      in if out = '''' then ''''
         else if refusedAtEnd (last out) then escapeName (butlast name) @ escapeStr (last out)
         else if isReservedBase name then escapeStr (hd name) @ tl out
         else out)"
  by pat_completeness auto
termination
proof (relation "measure length")
  fix name out
  assume "out = concat (map displayByte name)" "out \<noteq> []"
  then have "name \<noteq> []" by auto
  then show "(butlast name, name) \<in> measure length" by (simp add: diff_less)
qed simp

declare escapeName.simps [simp del]

definition hexVal :: "char \<Rightarrow> nat option" where
  "hexVal c =
     (if CHR ''0'' \<le> c \<and> c \<le> CHR ''9'' then Some (of_char c - of_char CHR ''0'')
      else if CHR ''a'' \<le> c \<and> c \<le> CHR ''f'' then Some (of_char c - of_char CHR ''a'' + 10)
      else if CHR ''A'' \<le> c \<and> c \<le> CHR ''F'' then Some (of_char c - of_char CHR ''A'' + 10)
      else None)"

fun unescapeLoop :: "string \<Rightarrow> string" where
  "unescapeLoop (c # h # l # cs) =
     (case (if c = escapeMarker then (hexVal h, hexVal l) else (None, None)) of
        (Some hi, Some lo) \<Rightarrow> char_of (16 * hi + lo) # unescapeLoop cs
      | _ \<Rightarrow> c # unescapeLoop (h # l # cs))"
| "unescapeLoop cs = cs"

definition unescapeName :: "string \<Rightarrow> string" where
  "unescapeName name = (if escapeMarker \<in> set name then unescapeLoop name else name)"

section \<open>The round trip\<close>

lemma hexVal_digit: "n < 16 \<Longrightarrow> hexVal (hexDigits ! n) = Some n"
proof -
  have "\<forall>n \<in> set [0..<16]. hexVal (hexDigits ! n) = Some n" by code_simp
  then show "n < 16 \<Longrightarrow> hexVal (hexDigits ! n) = Some n" by simp
qed

lemma of_char_lt: "of_char c < (256 :: nat)"
proof -
  have "of_char c mod 256 = (of_char c :: nat)" by (metis char_of_char of_char_of)
  then show ?thesis by (metis mod_less_divisor zero_less_numeral)
qed

lemma hexDigit_range: "of_char c div 16 < (16 :: nat)" "of_char c mod 16 < (16 :: nat)"
  using of_char_lt [of c] by (simp_all add: less_mult_imp_div_less)

lemma unescape_escapeStr: "unescapeLoop (escapeStr c @ cs) = c # unescapeLoop cs"
proof -
  note hexDigit_range [of c]
  then show ?thesis by (simp add: escapeStr_def hexVal_digit)
qed

lemma unescape_plain: "c \<noteq> escapeMarker \<Longrightarrow> unescapeLoop (c # cs) = c # unescapeLoop cs"
  by (cases cs rule: unescapeLoop.cases) auto

lemma unescape_byte: "unescapeLoop (displayByte c @ cs) = c # unescapeLoop cs"
  unfolding displayByte_def using unescape_escapeStr unescape_plain by (simp add: mustEscape_def)

lemma unescape_bytes: "unescapeLoop (concat (map displayByte name) @ cs) = name @ unescapeLoop cs"
  by (induction name) (simp_all add: unescape_byte)

lemma hexDigits_plain: "n < 16 \<Longrightarrow> \<not> mustEscape (hexDigits ! n) \<and> \<not> refusedAtEnd (hexDigits ! n)"
proof -
  have "\<forall>n \<in> set [0..<16]. \<not> mustEscape (hexDigits ! n) \<and> \<not> refusedAtEnd (hexDigits ! n)" by code_simp
  then show "n < 16 \<Longrightarrow> \<not> mustEscape (hexDigits ! n) \<and> \<not> refusedAtEnd (hexDigits ! n)" by simp
qed

lemma escapeStr_digits:
  obtains a b where "escapeStr c = [escapeMarker, a, b]" "\<not> mustEscape a" "\<not> mustEscape b" "\<not> refusedAtEnd a" "\<not> refusedAtEnd b"
proof -
  note hexDigits_plain [OF hexDigit_range(1) [of c]] hexDigits_plain [OF hexDigit_range(2) [of c]]
  then show thesis by (intro that [of "hexDigits ! (of_char c div 16)" "hexDigits ! (of_char c mod 16)"])
      (simp_all add: escapeStr_def)
qed

lemma last_out:
  assumes "name \<noteq> []" "refusedAtEnd (last (concat (map displayByte name)))"
  shows "last name = last (concat (map displayByte name))"
proof -
  have split: "name = butlast name @ [last name]" using assms(1) by simp
  have ne: "displayByte (last name) \<noteq> []" by (simp add: displayByte_def escapeStr_def)
  have "last (concat (map displayByte name)) = last (displayByte (last name))"
    using ne by (subst split) (simp add: last_append)
  moreover have "\<not> refusedAtEnd (last (escapeStr (last name)))"
    by (rule escapeStr_digits [of "last name"]) simp
  ultimately show ?thesis using assms(2) by (simp add: displayByte_def split: if_splits)
qed

lemma reserved_plain: "base \<in> set reservedNames \<Longrightarrow> base \<noteq> [] \<and> set base \<subseteq> set ''ACLMNOPRTUX123456789''"
proof -
  have "\<forall>base \<in> set reservedNames. base \<noteq> [] \<and> set base \<subseteq> set ''ACLMNOPRTUX123456789''" by code_simp
  then show "base \<in> set reservedNames \<Longrightarrow> base \<noteq> [] \<and> set base \<subseteq> set ''ACLMNOPRTUX123456789''" by blast
qed

lemma letters_plain: "toUpperByte c \<in> set ''ACLMNOPRTUX123456789'' \<Longrightarrow> \<not> mustEscape c"
proof -
  have "\<forall>c. mustEscape c \<longrightarrow> toUpperByte c \<notin> set ''ACLMNOPRTUX123456789''" by code_simp
  then show "toUpperByte c \<in> set ''ACLMNOPRTUX123456789'' \<Longrightarrow> \<not> mustEscape c" by blast
qed

lemma reserved_base:
  assumes "isReservedBase name"
  shows "name \<noteq> []" "\<not> mustEscape (hd name)" "escapeMarker \<notin> set (takeWhile (\<lambda>c. c \<noteq> CHR ''.'') name)"
proof -
  let ?base = "takeWhile (\<lambda>c. c \<noteq> CHR ''.'') name"
  note r = reserved_plain [OF assms [unfolded isReservedBase_def]]
  have plain: "\<not> mustEscape c" if "c \<in> set ?base" for c
    using r that by (intro letters_plain) (auto simp del: set_simps list.set)
  have "?base \<noteq> []" using r by auto
  then show "name \<noteq> []" by auto
  with \<open>?base \<noteq> []\<close> have "hd name \<in> set ?base" by (cases name) (auto split: if_splits)
  then show "\<not> mustEscape (hd name)" by (rule plain)
  show "escapeMarker \<notin> set ?base" using plain by (auto simp: mustEscape_def)
qed

lemma out_empty: "concat (map displayByte name) = [] \<longleftrightarrow> name = []"
  by (cases name) (simp_all add: displayByte_def escapeStr_def)

lemma escapeName_step:
  assumes "name \<noteq> []"
  shows "refusedAtEnd (last (concat (map displayByte name))) \<Longrightarrow>
      escapeName name = escapeName (butlast name) @ escapeStr (last (concat (map displayByte name)))"
    and "\<not> refusedAtEnd (last (concat (map displayByte name))) \<Longrightarrow>
      escapeName name = (if isReservedBase name then escapeStr (hd name) @ tl (concat (map displayByte name))
        else concat (map displayByte name))"
  using assms out_empty [of name] by (subst escapeName.simps, simp add: Let_def del: concat_eq_Nil_conv)+

lemma unescape_append: "unescapeLoop (escapeName name @ cs) = name @ unescapeLoop cs"
proof (induction name arbitrary: cs rule: escapeName.induct)
  case (1 name)
  let ?out = "concat (map displayByte name)"
  note ne = out_empty [of name]
  consider "name = []" | "name \<noteq> []" "refusedAtEnd (last ?out)" | "name \<noteq> []" "\<not> refusedAtEnd (last ?out)" by blast
  then show ?case
  proof cases
    case 1
    then show ?thesis by (simp add: escapeName.simps)
  next
    case 2
    note escapeName_step(1) [OF 2]
    moreover have "unescapeLoop (escapeName (butlast name) @ xs) = butlast name @ unescapeLoop xs" for xs
      using 1 2 ne by blast
    ultimately have "unescapeLoop (escapeName name @ cs) = butlast name @ last ?out # unescapeLoop cs"
      by (simp add: unescape_escapeStr)
    moreover have "name = butlast name @ [last ?out]" using 2 last_out [OF 2] by (metis append_butlast_last_id)
    ultimately show ?thesis by (metis append_Cons append_Nil append_assoc)
  next
    case 3
    note e = escapeName_step(2) [OF 3]
    show ?thesis
    proof (cases "isReservedBase name")
      case True
      obtain c rest where n: "name = c # rest" using 3(1) by (cases name) auto
      then have "tl ?out = concat (map displayByte rest)" using reserved_base(2) [OF True] by (simp add: displayByte_def)
      then show ?thesis using e True n by (simp add: unescape_escapeStr unescape_bytes)
    qed (simp add: e unescape_bytes)
  qed
qed

lemma unescapeLoop_id: "escapeMarker \<notin> set name \<Longrightarrow> unescapeLoop name = name"
  by (induction name rule: unescapeLoop.induct) auto

lemma unescape_escape: "unescapeName (escapeName name) = name"
proof -
  have "unescapeLoop (escapeName name) = name" using unescape_append [of name "[]"] by simp
  then show ?thesis unfolding unescapeName_def using unescapeLoop_id by metis
qed

section \<open>The rules of a file name\<close>

definition smb_legal :: "string \<Rightarrow> bool" where
  "smb_legal s \<longleftrightarrow> (\<forall>c \<in> set s. c = escapeMarker \<or> \<not> mustEscape c) \<and> (s \<noteq> [] \<longrightarrow> \<not> refusedAtEnd (last s)) \<and> \<not> isReservedBase s"

lemma displayByte_legal: "d \<in> set (displayByte c) \<Longrightarrow> d = escapeMarker \<or> \<not> mustEscape d"
  by (rule escapeStr_digits [of c]) (auto simp: displayByte_def split: if_splits)

lemma base_out:
  "escapeMarker \<notin> set (takeWhile (\<lambda>c. c \<noteq> CHR ''.'') (concat (map displayByte name))) \<Longrightarrow>
   takeWhile (\<lambda>c. c \<noteq> CHR ''.'') (concat (map displayByte name)) = takeWhile (\<lambda>c. c \<noteq> CHR ''.'') name"
  by (induction name) (auto simp: displayByte_def escapeStr_def escapeMarker_def split: if_splits)

lemma reserved_out: "isReservedBase (concat (map displayByte name)) \<Longrightarrow> isReservedBase name"
  using base_out reserved_base(3) unfolding isReservedBase_def by metis

lemma marker_not_reserved: "\<not> isReservedBase (escapeMarker # s)"
  using reserved_base(2) [of "escapeMarker # s"] by (auto simp: mustEscape_def)

lemma reserved_append:
  assumes "\<not> isReservedBase x"
  shows "\<not> isReservedBase (x @ escapeMarker # y)"
proof
  assume r: "isReservedBase (x @ escapeMarker # y)"
  show False
  proof (cases "CHR ''.'' \<in> set x")
    case True
    then have "takeWhile (\<lambda>c. c \<noteq> CHR ''.'') (x @ escapeMarker # y) = takeWhile (\<lambda>c. c \<noteq> CHR ''.'') x" by (rule takeWhile_append1) simp
    then show False using r assms by (simp add: isReservedBase_def)
  next
    case False
    then have "takeWhile (\<lambda>c. c \<noteq> CHR ''.'') (x @ escapeMarker # y) = x @ takeWhile (\<lambda>c. c \<noteq> CHR ''.'') (escapeMarker # y)"
      by (intro takeWhile_append2) auto
    then show False using reserved_base(3) [OF r] by (simp add: escapeMarker_def)
  qed
qed

lemma escapeName_legal: "smb_legal (escapeName name)"
proof (induction name rule: escapeName.induct)
  case (1 name)
  let ?out = "concat (map displayByte name)"
  note ne = out_empty [of name]
  have bytes: "\<forall>c \<in> set ?out. c = escapeMarker \<or> \<not> mustEscape c" using displayByte_legal by fastforce
  consider "name = []" | "name \<noteq> []" "refusedAtEnd (last ?out)" | "name \<noteq> []" "\<not> refusedAtEnd (last ?out)" by blast
  then show ?case
  proof cases
    case 1
    moreover have "\<not> isReservedBase []" using reserved_base(1) by blast
    ultimately show ?thesis by (simp add: escapeName.simps smb_legal_def)
  next
    case 2
    note escapeName_step(1) [OF 2]
    moreover have "smb_legal (escapeName (butlast name))" using 1 2 ne by blast
    moreover obtain a b where "escapeStr (last ?out) = [escapeMarker, a, b]" "\<not> mustEscape a" "\<not> mustEscape b" "\<not> refusedAtEnd b"
      by (rule escapeStr_digits)
    ultimately show ?thesis using reserved_append [of "escapeName (butlast name)" "[a, b]"] by (simp add: smb_legal_def)
  next
    case 3
    note e = escapeName_step(2) [OF 3]
    show ?thesis
    proof (cases "isReservedBase name")
      case True
      obtain a b where s: "escapeStr (hd name) = [escapeMarker, a, b]" "\<not> mustEscape a" "\<not> mustEscape b" "\<not> refusedAtEnd b"
        by (rule escapeStr_digits)
      have "tl ?out \<noteq> [] \<Longrightarrow> last (tl ?out) = last ?out" by (simp add: last_tl del: concat_eq_Nil_conv)
      then show ?thesis using e True s bytes 3(2) marker_not_reserved ne 3(1) list.set_sel(2) [of ?out]
        by (auto simp: smb_legal_def simp del: concat_eq_Nil_conv set_concat)
    next
      case False
      then show ?thesis using e bytes 3 reserved_out [of name] by (auto simp: smb_legal_def)
    qed
  qed
qed

end
