(* ===== verification/Disk_Cache.thy ===== *)
theory Disk_Cache
  imports Tie_Prelude
begin

text \<open>
  \<^verbatim>\<open>internal/diskcache/diskcache.go\<close>: the size-bounded disk cache that the mounts and the file host share. An
  entry pointer is its index in \<open>dc_heap\<close>; an element of the LRU list is the key with the entry that owns
  the element. The producer, the layout and the answers of the operating system are parameters. Critical
  sections are functions on the cache; \<open>dc_step\<close> interleaves them for any number of goroutines.
  Shown: accounting, eviction that always ends within the budget, and no cached object without its file.
\<close>

section \<open>State\<close>

datatype cache_error =
    EmptyDir | CreatingDir string | CreatingFile string | OpeningFile string | CacheClosed | BadKey string
  | ProduceFailed string | NegativeOffset int | EndOfFile | HandleReleased

record cache_entry =
  ce_ready :: bool
  ce_path :: string
  ce_size :: int
  ce_err :: "cache_error option"
  ce_refs :: int

type_synonym cache_layout = "string \<Rightarrow> string \<Rightarrow> cache_error + string"

record Cache =
  dc_dir :: string
  dc_maxSize :: int
  dc_layout :: cache_layout
  dc_entries :: "(string \<times> nat) list"
  dc_order :: "(string \<times> nat) list"    \<comment> \<open>front = least recently used\<close>
  dc_curSize :: int
  dc_closed :: bool
  dc_heap :: "cache_entry list"

text \<open>The record \<open>Options\<close> with the answer of \<^verbatim>\<open>os.MkdirAll\<close>.\<close>

definition dc_New :: "string \<Rightarrow> int \<Rightarrow> cache_layout option \<Rightarrow> bool \<Rightarrow> cache_error + Cache" where
  "dc_New dir maxBytes layout mkdirOk =
     (if dir = '''' then Inl EmptyDir
      else if \<not> mkdirOk then Inl (CreatingDir dir)
      else Inr \<lparr>dc_dir = dir, dc_maxSize = maxBytes,
        dc_layout = (case layout of None \<Rightarrow> \<lambda>dir key. Inr (dir @ ''/'' @ key) | Some l \<Rightarrow> l),
        dc_entries = [], dc_order = [], dc_curSize = 0, dc_closed = False, dc_heap = []\<rparr>)"

abbreviation entryOf :: "Cache \<Rightarrow> nat \<Rightarrow> cache_entry" where
  "entryOf c r \<equiv> dc_heap c ! r"

abbreviation updEntry :: "nat \<Rightarrow> (cache_entry \<Rightarrow> cache_entry) \<Rightarrow> Cache \<Rightarrow> Cache" where
  "updEntry r f c \<equiv> c\<lparr>dc_heap := (dc_heap c)[r := f (entryOf c r)]\<rparr>"

section \<open>Operations\<close>

definition Adopt :: "string \<Rightarrow> string \<Rightarrow> int \<Rightarrow> Cache \<Rightarrow> Cache" where
  "Adopt key path size' c =
     (if dc_closed c \<or> map_of (dc_entries c) key \<noteq> None then c
      else let r = length (dc_heap c)
           in c\<lparr>dc_heap := dc_heap c @ [\<lparr>ce_ready = True, ce_path = path, ce_size = size', ce_err = None, ce_refs = 0\<rparr>],
                dc_entries := AList.update key r (dc_entries c), dc_order := dc_order c @ [(key, r)],
                dc_curSize := dc_curSize c + size'\<rparr>)"

text \<open>The loop of \<open>evictLocked\<close>; \<open>removed\<close> collects the paths handed to \<^verbatim>\<open>os.Remove\<close>.\<close>

partial_function (option) evictLocked :: "string \<Rightarrow> Cache \<Rightarrow> string list \<Rightarrow> (string list \<times> Cache) option" where
  "evictLocked keep c removed =
     (if dc_curSize c \<le> dc_maxSize c then Some (removed, c)
      else case dc_order c of
        [] \<Rightarrow> Some (removed, c)
      | el # rest \<Rightarrow>
          if fst el = keep
          then if rest = [] then Some (removed, c) else evictLocked keep (c\<lparr>dc_order := rest @ [el]\<rparr>) removed
          else case map_of (dc_entries c) (fst el) of
            None \<Rightarrow> evictLocked keep (c\<lparr>dc_order := rest\<rparr>) removed
          | Some r \<Rightarrow>
              evictLocked keep
                (c\<lparr>dc_order := rest, dc_entries := AList.delete (fst el) (dc_entries c),
                   dc_curSize := dc_curSize c - ce_size (entryOf c r)\<rparr>)
                (removed @ [ce_path (entryOf c r)]))"

definition Trim :: "Cache \<Rightarrow> (string list \<times> Cache) option" where
  "Trim c = evictLocked '''' c []"

text \<open>
  The first section of \<open>start\<close>: an entry with the error of a closed cache, the entry that others
  already filled or are filling, or a new one that this goroutine owns (\<open>True\<close>).
\<close>

definition startBegin :: "string \<Rightarrow> Cache \<Rightarrow> nat \<times> bool \<times> Cache" where
  "startBegin key c =
     (if dc_closed c
      then (length (dc_heap c), False,
        c\<lparr>dc_heap := dc_heap c @ [\<lparr>ce_ready = True, ce_path = '''', ce_size = 0, ce_err = Some CacheClosed, ce_refs = 0\<rparr>]\<rparr>)
      else case map_of (dc_entries c) key of
        Some r \<Rightarrow> (r, False, c)
      | None \<Rightarrow>
          (length (dc_heap c), True,
           c\<lparr>dc_heap := dc_heap c @ [\<lparr>ce_ready = False, ce_path = '''', ce_size = 0, ce_err = None, ce_refs = 0\<rparr>],
             dc_entries := AList.update key (length (dc_heap c)) (dc_entries c)\<rparr>))"

text \<open>The last section of \<open>start\<close>, once \<open>produceInto\<close> returned: drop a failed entry, or list the new one and evict.\<close>

definition startDone :: "string \<Rightarrow> nat \<Rightarrow> cache_error + string \<times> int \<Rightarrow> Cache \<Rightarrow> (string list \<times> Cache) option" where
  "startDone key r res c =
     (case res of
        Inl e \<Rightarrow>
          (let c = updEntry r (\<lambda>x. x\<lparr>ce_path := '''', ce_size := 0, ce_err := Some e\<rparr>) c
           in Some ([], if map_of (dc_entries c) key = Some r then c\<lparr>dc_entries := AList.delete key (dc_entries c)\<rparr> else c))
      | Inr (path, n) \<Rightarrow>
          (let c = updEntry r (\<lambda>x. x\<lparr>ce_path := path, ce_size := n, ce_err := None\<rparr>) c
           in evictLocked key (c\<lparr>dc_order := dc_order c @ [(key, r)], dc_curSize := dc_curSize c + n\<rparr>) []))"

definition closeReady :: "nat \<Rightarrow> Cache \<Rightarrow> Cache" where
  "closeReady r c = updEntry r (\<lambda>x. x\<lparr>ce_ready := True\<rparr>) c"

text \<open>\<open>MoveToBack\<close> does nothing for an element that is not in the list.\<close>

definition touch :: "nat \<Rightarrow> Cache \<Rightarrow> Cache" where
  "touch r c =
     c\<lparr>dc_order := filter (\<lambda>el. snd el \<noteq> r) (dc_order c) @ filter (\<lambda>el. snd el = r) (dc_order c)\<rparr>"

definition takeRef :: "nat \<Rightarrow> Cache \<Rightarrow> Cache" where
  "takeRef r c = touch r (updEntry r (\<lambda>x. x\<lparr>ce_refs := ce_refs x + 1\<rparr>) c)"

definition release :: "nat \<Rightarrow> Cache \<Rightarrow> Cache" where
  "release r c = (if ce_refs (entryOf c r) > 0 then updEntry r (\<lambda>x. x\<lparr>ce_refs := ce_refs x - 1\<rparr>) c else c)"

definition dc_Close :: "Cache \<Rightarrow> Cache" where
  "dc_Close c = c\<lparr>dc_closed := True, dc_entries := [], dc_order := [], dc_curSize := 0\<rparr>"

definition Stats :: "Cache \<Rightarrow> int \<times> nat" where
  "Stats c = (dc_curSize c, length (dc_entries c))"

section \<open>The disk\<close>

type_synonym disk = "string \<Rightarrow> byte list option"

definition lastSlash :: "string \<Rightarrow> int" where
  "lastSlash s = int (length s) - 1 - int (length (takeWhile (\<lambda>c. c \<noteq> CHR ''/'') (rev s)))"

text \<open>The outer \<open>None\<close> is the panic of the slice \<^verbatim>\<open>path[:-1]\<close>.\<close>

definition mkdirFor :: "string \<Rightarrow> bool \<Rightarrow> cache_error option option" where
  "mkdirFor path mkdirOk =
     (if lastSlash path < 0 then None
      else let dir = take (nat (lastSlash path)) path
           in Some (if dir = '''' then None else if mkdirOk then None else Some (CreatingDir dir)))"

text \<open>What happens around one call of \<open>produce\<close>: the answers of the system, the bytes written and the producer's error.\<close>

record producer_run =
  mkdirOk :: bool
  createOk :: bool
  written :: "byte list"
  produceErr :: "cache_error option"
  statOk :: bool
  removeOk :: bool

definition writeThrough :: "producer_run \<Rightarrow> cache_error + int" where
  "writeThrough run =
     (case produceErr run of Some e \<Rightarrow> Inl e | None \<Rightarrow> Inr (if statOk run then int (length (written run)) else 0))"

definition produceInto :: "Cache \<Rightarrow> string \<Rightarrow> producer_run \<Rightarrow> disk \<Rightarrow> ((cache_error + string \<times> int) \<times> disk) option" where
  "produceInto c key run d =
     (case dc_layout c (dc_dir c) key of
        Inl e \<Rightarrow> Some (Inl e, d)
      | Inr path \<Rightarrow>
          (case mkdirFor path (mkdirOk run) of
             None \<Rightarrow> None
           | Some (Some e) \<Rightarrow> Some (Inl e, d)
           | Some None \<Rightarrow>
               if \<not> createOk run then Some (Inl (CreatingFile path), d)
               else (case writeThrough run of
                   Inl e \<Rightarrow> Some (Inl e, d(path := if removeOk run then None else Some (written run)))
                 | Inr n \<Rightarrow> Some (Inr (path, n), d(path \<mapsto> written run)))))"

definition unlinkAll :: "string list \<Rightarrow> disk \<Rightarrow> disk" where
  "unlinkAll ps d = (\<lambda>p. if p \<in> set ps then None else d p)"

section \<open>Handles\<close>

record Handle =
  h_e :: nat
  h_size :: int
  h_open :: bool    \<comment> \<open>whether the field \<open>c\<close> is set\<close>
  h_f :: "byte list option"    \<comment> \<open>the contents behind the handle's own descriptor\<close>

text \<open>The end of \<open>Get\<close> and \<open>Peek\<close>: take the reference, then open the file outside the lock.\<close>

definition openHandle :: "nat \<Rightarrow> bool \<Rightarrow> Cache \<Rightarrow> disk \<Rightarrow> (cache_error + Handle) \<times> Cache" where
  "openHandle r openOk c d =
     (let c = takeRef r c; path = ce_path (entryOf c r)
      in case (if openOk then d path else None) of
           None \<Rightarrow> (Inl (OpeningFile path), release r c)
         | Some bs \<Rightarrow> (Inr \<lparr>h_e = r, h_size = ce_size (entryOf c r), h_open = True, h_f = Some bs\<rparr>, c))"

text \<open>A whole \<open>start\<close> with nobody else running; waiting for another's unfinished entry would not return.\<close>

definition start :: "string \<Rightarrow> producer_run \<Rightarrow> Cache \<Rightarrow> disk \<Rightarrow> (nat \<times> Cache \<times> disk) option" where
  "start key run c d =
     (case startBegin key c of
        (r, owner, c) \<Rightarrow>
          if \<not> owner then if ce_ready (entryOf c r) then Some (r, c, d) else None
          else case produceInto c key run d of
            None \<Rightarrow> None
          | Some (res, d) \<Rightarrow>
              (case startDone key r res c of
                 None \<Rightarrow> None
               | Some (removed, c) \<Rightarrow> Some (r, closeReady r c, unlinkAll removed d)))"

definition dc_Get :: "string \<Rightarrow> producer_run \<Rightarrow> bool \<Rightarrow> Cache \<Rightarrow> disk \<Rightarrow> ((cache_error + Handle) \<times> Cache \<times> disk) option" where
  "dc_Get key run openOk c d =
     (case start key run c d of
        None \<Rightarrow> None
      | Some (r, c, d) \<Rightarrow>
          if dc_closed c then Some (Inl CacheClosed, c, d)
          else (case ce_err (entryOf c r) of
              Some e \<Rightarrow> Some (Inl e, c, d)
            | None \<Rightarrow> (case openHandle r openOk c d of (res, c) \<Rightarrow> Some (res, c, d))))"

definition Peek :: "string \<Rightarrow> bool \<Rightarrow> Cache \<Rightarrow> disk \<Rightarrow> Handle option \<times> Cache" where
  "Peek key openOk c d =
     (if dc_closed c then (None, c)
      else case map_of (dc_entries c) key of
        None \<Rightarrow> (None, c)
      | Some r \<Rightarrow>
          if \<not> ce_ready (entryOf c r) \<or> ce_err (entryOf c r) \<noteq> None then (None, c)
          else case openHandle r openOk c d of (Inl _, c) \<Rightarrow> (None, c) | (Inr h, c) \<Rightarrow> (Some h, c))"

definition dc_ReadAt :: "nat \<Rightarrow> int \<Rightarrow> Handle \<Rightarrow> byte list \<times> cache_error option" where
  "dc_ReadAt n off h =
     (if off < 0 then ([], Some (NegativeOffset off))
      else if off \<ge> h_size h then ([], Some EndOfFile)
      else case h_f h of
        None \<Rightarrow> ([], Some HandleReleased)
      | Some bs \<Rightarrow>
          (let got = take n (drop (nat off) bs) in (got, if length got < n then Some EndOfFile else None)))"

definition h_Close :: "Handle \<Rightarrow> Cache \<Rightarrow> Handle \<times> Cache" where
  "h_Close h c = (if \<not> h_open h then (h, c) else (h\<lparr>h_f := None, h_open := False\<rparr>, release (h_e h) c))"

section \<open>Eviction\<close>

definition listedSize :: "Cache \<Rightarrow> int" where
  "listedSize c = sum_list (map (\<lambda>el. ce_size (entryOf c (snd el))) (dc_order c))"

text \<open>What eviction may change: it drops listed entries, with their bytes, and reorders the rest.\<close>

definition evicts :: "string \<Rightarrow> Cache \<Rightarrow> string list \<Rightarrow> Cache \<Rightarrow> bool" where
  "evicts keep c removed c' \<longleftrightarrow>
     (\<exists>gone. mset (dc_order c) = mset (dc_order c') + mset gone \<and> keep \<notin> fst ` set gone \<and>
        (\<forall>k. map_of (dc_entries c') k = (if k \<in> fst ` set gone then None else map_of (dc_entries c) k)) \<and>
        (\<forall>p \<in> set removed. \<exists>el \<in> set gone. \<exists>r. map_of (dc_entries c) (fst el) = Some r \<and> p = ce_path (entryOf c r))) \<and>
     dc_heap c' = dc_heap c \<and> dc_closed c' = dc_closed c \<and> dc_maxSize c' = dc_maxSize c \<and>
     dc_layout c' = dc_layout c \<and> dc_dir c' = dc_dir c \<and>
     (distinct (map fst (dc_entries c)) \<longrightarrow> distinct (map fst (dc_entries c')))"

lemma evicts_refl: "evicts keep c [] c"
  unfolding evicts_def by (intro conjI exI [of _ "[]"]) simp_all

lemma evicts_rotate:
  assumes "dc_order c = el # rest" "evicts keep (c\<lparr>dc_order := rest @ [el]\<rparr>) removed c'"
  shows "evicts keep c removed c'"
  using assms unfolding evicts_def by (simp cong: if_cong split del: if_split)

text \<open>The cache after its first listed element was dropped.\<close>

definition dropFront :: "Cache \<Rightarrow> Cache" where
  "dropFront c =
     (case dc_order c of
        [] \<Rightarrow> c
      | el # rest \<Rightarrow>
          (case map_of (dc_entries c) (fst el) of
             None \<Rightarrow> c\<lparr>dc_order := rest\<rparr>
           | Some r \<Rightarrow> c\<lparr>dc_order := rest, dc_entries := AList.delete (fst el) (dc_entries c),
               dc_curSize := dc_curSize c - ce_size (entryOf c r)\<rparr>))"

definition frontPath :: "Cache \<Rightarrow> string list" where
  "frontPath c =
     (case dc_order c of
        [] \<Rightarrow> []
      | el # rest \<Rightarrow> (case map_of (dc_entries c) (fst el) of None \<Rightarrow> [] | Some r \<Rightarrow> [ce_path (entryOf c r)]))"

lemma evicts_drop:
  assumes o: "dc_order c = el # rest" "fst el \<noteq> keep" and e: "evicts keep (dropFront c) removed c'"
  shows "evicts keep c (frontPath c @ removed) c'"
proof -
  let ?c = "dropFront c"
  have fields: "dc_order ?c = rest" "dc_heap ?c = dc_heap c" "dc_closed ?c = dc_closed c" "dc_maxSize ?c = dc_maxSize c"
    "dc_layout ?c = dc_layout c" "dc_dir ?c = dc_dir c" "map_of (dc_entries ?c) = (map_of (dc_entries c))(fst el := None)"
    "distinct (map fst (dc_entries c)) \<Longrightarrow> distinct (map fst (dc_entries ?c))"
    by (auto simp: dropFront_def o(1) fun_upd_idem split: option.split)
  obtain gone where g: "mset rest = mset (dc_order c') + mset gone" "keep \<notin> fst ` set gone"
      "\<forall>k. map_of (dc_entries c') k = (if k \<in> fst ` set gone then None else map_of (dc_entries ?c) k)"
      "\<forall>p \<in> set removed. \<exists>el \<in> set gone. \<exists>r. map_of (dc_entries ?c) (fst el) = Some r \<and> p = ce_path (entryOf c r)"
    using e unfolding evicts_def fields by blast
  have "\<exists>d \<in> set (el # gone). \<exists>r. map_of (dc_entries c) (fst d) = Some r \<and> p = ce_path (entryOf c r)"
    if p: "p \<in> set (frontPath c @ removed)" for p
  proof (cases "p \<in> set (frontPath c)")
    case True
    then have "\<exists>r. map_of (dc_entries c) (fst el) = Some r \<and> p = ce_path (entryOf c r)"
      using o(1) by (cases "map_of (dc_entries c) (fst el)") (simp_all add: frontPath_def)
    then show ?thesis by simp
  next
    case False
    then obtain d r where "d \<in> set gone" "map_of (dc_entries ?c) (fst d) = Some r" "p = ce_path (entryOf c r)"
      using p g(4) by auto
    then show ?thesis unfolding fields by (auto split: if_splits)
  qed
  moreover have "mset (dc_order c) = mset (dc_order c') + mset (el # gone)" using o(1) g(1) by simp
  moreover have "\<forall>k. map_of (dc_entries c') k = (if k \<in> fst ` set (el # gone) then None else map_of (dc_entries c) k)"
    using g(3) by (simp add: fields)
  moreover have "keep \<notin> fst ` set (el # gone)" using g(2) o(2) by auto
  ultimately have "\<exists>gone. mset (dc_order c) = mset (dc_order c') + mset gone \<and> keep \<notin> fst ` set gone \<and>
      (\<forall>k. map_of (dc_entries c') k = (if k \<in> fst ` set gone then None else map_of (dc_entries c) k)) \<and>
      (\<forall>p \<in> set (frontPath c @ removed). \<exists>el \<in> set gone. \<exists>r. map_of (dc_entries c) (fst el) = Some r \<and> p = ce_path (entryOf c r))"
    by (intro exI [of _ "el # gone"] conjI ballI)
  then show ?thesis using e fields(8) unfolding evicts_def fields(1-7) by argo
qed

text \<open>Within the budget, or nothing left to drop.\<close>

definition trimmed :: "string \<Rightarrow> Cache \<Rightarrow> bool" where
  "trimmed keep c \<longleftrightarrow> dc_curSize c \<le> dc_maxSize c \<or> dc_order c = [] \<or> (\<exists>r. dc_order c = [(keep, r)])"

definition listed_ok :: "Cache \<Rightarrow> bool" where
  "listed_ok c \<longleftrightarrow> (\<forall>(k, r) \<in> set (dc_order c). map_of (dc_entries c) k = Some r)"

lemma dropFront_size:
  assumes "dc_order c = el # rest" "distinct (map fst (dc_order c))" "listed_ok c"
  shows "listed_ok (dropFront c)" "dc_curSize (dropFront c) - listedSize (dropFront c) = dc_curSize c - listedSize c"
proof -
  have m: "map_of (dc_entries c) (fst el) = Some (snd el)" using assms(1,3) by (cases el) (auto simp: listed_ok_def)
  show "listed_ok (dropFront c)"
    using assms by (auto simp: dropFront_def m listed_ok_def rev_image_eqI)
  show "dc_curSize (dropFront c) - listedSize (dropFront c) = dc_curSize c - listedSize c"
    using assms(1) by (simp add: dropFront_def m listedSize_def)
qed

lemma evictLocked_front:
  assumes "dc_curSize c > dc_maxSize c" "dc_order c = el # rest" "fst el \<noteq> keep"
  shows "evictLocked keep c acc = evictLocked keep (dropFront c) (acc @ frontPath c)"
  using assms by (subst evictLocked.simps) (simp add: dropFront_def frontPath_def split: option.split)

lemma evictLocked_stop: "trimmed keep c \<Longrightarrow> evictLocked keep c acc = Some (acc, c)"
  by (subst evictLocked.simps) (auto simp: trimmed_def)

lemma evictLocked_rotate:
  assumes "dc_curSize c > dc_maxSize c" "dc_order c = el # rest" "fst el = keep" "rest \<noteq> []"
  shows "evictLocked keep c acc = evictLocked keep (c\<lparr>dc_order := rest @ [el]\<rparr>) acc"
  using assms by (subst evictLocked.simps) simp

lemma evictLocked_ends:
  assumes "distinct (map fst (dc_order c))"
  shows "\<exists>removed c'. evictLocked keep c acc = Some (acc @ removed, c') \<and> evicts keep c removed c' \<and> trimmed keep c' \<and>
    (listed_ok c \<longrightarrow> listed_ok c' \<and> dc_curSize c' - listedSize c' = dc_curSize c - listedSize c)"
  using assms
proof (induction "2 * length (dc_order c) + (if dc_order c \<noteq> [] \<and> fst (hd (dc_order c)) = keep then 1 else 0)"
    arbitrary: c acc rule: less_induct)
  case less
  consider "trimmed keep c"
    | el rest where "dc_curSize c > dc_maxSize c" "dc_order c = el # rest" "fst el = keep" "rest \<noteq> []"
    | el rest where "dc_curSize c > dc_maxSize c" "dc_order c = el # rest" "fst el \<noteq> keep"
    unfolding trimmed_def by (metis list.exhaust not_le prod.collapse)
  then show ?case
  proof cases
    case 1
    then show ?thesis using evictLocked_stop [OF 1] evicts_refl by (intro exI [of _ "[]"] exI [of _ c]) simp
  next
    case 2
    let ?c = "c\<lparr>dc_order := rest @ [el]\<rparr>"
    have "fst (hd rest) \<noteq> keep" "distinct (map fst (dc_order ?c))" using 2 less.prems by (cases rest; auto)+
    then obtain removed c' where "evictLocked keep ?c acc = Some (acc @ removed, c')" "evicts keep ?c removed c'" "trimmed keep c'"
        "listed_ok ?c \<longrightarrow> listed_ok c' \<and> dc_curSize c' - listedSize c' = dc_curSize ?c - listedSize ?c"
      using less.hyps [of ?c acc] 2 by auto
    moreover have "listed_ok ?c \<longleftrightarrow> listed_ok c" "listedSize ?c = listedSize c" using 2(2) by (auto simp: listed_ok_def listedSize_def)
    ultimately show ?thesis using evictLocked_rotate [OF 2, of acc] evicts_rotate [OF 2(2)] by auto
  next
    case 3
    have d: "dc_order (dropFront c) = rest" using 3(2) by (simp add: dropFront_def split: option.split)
    have lt: "2 * length (dc_order (dropFront c)) + (if dc_order (dropFront c) \<noteq> [] \<and> fst (hd (dc_order (dropFront c))) = keep then 1 else 0)
      < 2 * length (dc_order c) + (if dc_order c \<noteq> [] \<and> fst (hd (dc_order c)) = keep then 1 else (0 :: nat))"
      unfolding d 3(2) by simp
    have "distinct (map fst (dc_order (dropFront c)))" using less.prems unfolding d 3(2) by simp
    from less.hyps [OF lt this, of "acc @ frontPath c"]
    obtain removed c' where r: "evictLocked keep (dropFront c) (acc @ frontPath c) = Some ((acc @ frontPath c) @ removed, c')"
        "evicts keep (dropFront c) removed c'" "trimmed keep c'" "listed_ok (dropFront c) \<longrightarrow>
          listed_ok c' \<and> dc_curSize c' - listedSize c' = dc_curSize (dropFront c) - listedSize (dropFront c)"
      by blast
    then show ?thesis
      using evictLocked_front [OF 3, of acc] evicts_drop [OF 3(2,3) r(2)] dropFront_size [OF 3(2) less.prems]
      by (intro exI [of _ "frontPath c @ removed"] exI [of _ c']) auto
  qed
qed

section \<open>Goroutines\<close>

text \<open>
  The cache with the goroutines inside \<open>start\<close>: those that run \<open>produce\<close>, those that have its result, and those
  past their last section that have yet to close \<open>ready\<close>.
\<close>

record dc_sys =
  cache :: Cache
  cdisk :: disk
  producing :: "(string \<times> nat) list"
  produced :: "((string \<times> nat) \<times> (cache_error + string \<times> int)) list"
  toClose :: "nat list"

definition newSys :: "Cache \<Rightarrow> disk \<Rightarrow> dc_sys" where
  "newSys c d = \<lparr>cache = c, cdisk = d, producing = [], produced = [], toClose = []\<rparr>"

inductive dc_step :: "dc_sys \<Rightarrow> dc_sys \<Rightarrow> bool" where
  adopt: "dc_layout (cache s) (dc_dir (cache s)) key = Inr path \<Longrightarrow> cdisk s path \<noteq> None \<Longrightarrow>
    dc_step s (s\<lparr>cache := Adopt key path n (cache s)\<rparr>)"
| start: "startBegin key (cache s) = (r, owner, c) \<Longrightarrow>
    dc_step s (s\<lparr>cache := c, producing := if owner then (key, r) # producing s else producing s\<rparr>)"
| produce: "(key, r) \<in> set (producing s) \<Longrightarrow> produceInto (cache s) key run (cdisk s) = Some (res, d) \<Longrightarrow>
    dc_step s (s\<lparr>cdisk := d, producing := remove1 (key, r) (producing s), produced := ((key, r), res) # produced s\<rparr>)"
| finish: "((key, r), res) \<in> set (produced s) \<Longrightarrow> startDone key r res (cache s) = Some (removed, c) \<Longrightarrow>
    set unlinked \<subseteq> set removed \<Longrightarrow>
    dc_step s (s\<lparr>cache := c, cdisk := unlinkAll unlinked (cdisk s), produced := remove1 ((key, r), res) (produced s),
      toClose := r # toClose s\<rparr>)"
| ready: "r \<in> set (toClose s) \<Longrightarrow>
    dc_step s (s\<lparr>cache := closeReady r (cache s), toClose := remove1 r (toClose s)\<rparr>)"
| take: "r < length (dc_heap (cache s)) \<Longrightarrow> ce_ready (entryOf (cache s) r) \<Longrightarrow> ce_err (entryOf (cache s) r) = None \<Longrightarrow>
    \<not> dc_closed (cache s) \<Longrightarrow> dc_step s (s\<lparr>cache := takeRef r (cache s)\<rparr>)"
| release: "r < length (dc_heap (cache s)) \<Longrightarrow> dc_step s (s\<lparr>cache := release r (cache s)\<rparr>)"
| trim: "Trim (cache s) = Some (removed, c) \<Longrightarrow> set unlinked \<subseteq> set removed \<Longrightarrow>
    dc_step s (s\<lparr>cache := c, cdisk := unlinkAll unlinked (cdisk s)\<rparr>)"
| close: "dc_step s (s\<lparr>cache := dc_Close (cache s)\<rparr>)"

section \<open>The invariant\<close>

definition inj_layout :: "Cache \<Rightarrow> bool" where
  "inj_layout c \<longleftrightarrow> (\<forall>k k' p. dc_layout c (dc_dir c) k = Inr p \<and> dc_layout c (dc_dir c) k' = Inr p \<longrightarrow> k = k')"

abbreviation pathOfKey :: "Cache \<Rightarrow> string \<Rightarrow> string \<Rightarrow> bool" where
  "pathOfKey c k p \<equiv> dc_layout c (dc_dir c) k = Inr p"

text \<open>Keys and entries are listed or filled by one goroutine, never both.\<close>

definition owners_ok :: "Cache \<Rightarrow> (string \<times> nat) list \<Rightarrow> bool" where
  "owners_ok c own \<longleftrightarrow>
     distinct (map fst (dc_order c @ own)) \<and> distinct (map snd (dc_order c @ own)) \<and>
     (\<forall>r \<in> snd ` set (dc_order c @ own). r < length (dc_heap c)) \<and> distinct (map fst (dc_entries c)) \<and>
     (dc_closed c \<longrightarrow> dc_entries c = [])"

text \<open>The map, the list and the byte count of an open cache agree.\<close>

definition counted :: "Cache \<Rightarrow> (string \<times> nat) list \<Rightarrow> bool" where
  "counted c own \<longleftrightarrow>
     dc_curSize c = listedSize c \<and>
     (\<forall>k r. map_of (dc_entries c) k = Some r \<longleftrightarrow> (k, r) \<in> set (dc_order c) \<union> set own)"

definition filed :: "Cache \<Rightarrow> disk \<Rightarrow> bool" where
  "filed c d \<longleftrightarrow> (\<forall>(k, r) \<in> set (dc_order c).
     ce_err (entryOf c r) = None \<and> pathOfKey c k (ce_path (entryOf c r)) \<and> d (ce_path (entryOf c r)) \<noteq> None)"

definition results_ok :: "Cache \<Rightarrow> disk \<Rightarrow> ((string \<times> nat) \<times> (cache_error + string \<times> int)) list \<Rightarrow> bool" where
  "results_ok c d ps \<longleftrightarrow> (\<forall>((k, r), res) \<in> set ps. \<forall>p n. res = Inr (p, n) \<longrightarrow> pathOfKey c k p \<and> d p \<noteq> None)"

abbreviation ownersOf :: "dc_sys \<Rightarrow> (string \<times> nat) list" where
  "ownersOf s \<equiv> producing s @ map fst (produced s)"

definition dc_inv :: "dc_sys \<Rightarrow> bool" where
  "dc_inv s \<longleftrightarrow> owners_ok (cache s) (ownersOf s) \<and>
     (\<not> dc_closed (cache s) \<longrightarrow>
        counted (cache s) (ownersOf s) \<and> filed (cache s) (cdisk s) \<and> results_ok (cache s) (cdisk s) (produced s))"

lemma counted_listed: "counted c own \<Longrightarrow> listed_ok c"
  by (auto simp: counted_def listed_ok_def)

lemma counted_mset:
  assumes "set own = set own'" "counted c own"
  shows "counted c own'"
  using assms by (simp add: counted_def)

lemma owners_mset:
  assumes "mset own = mset own'" "owners_ok c own"
  shows "owners_ok c own'"
proof -
  have m: "mset (map fst (dc_order c @ own)) = mset (map fst (dc_order c @ own'))"
    "mset (map snd (dc_order c @ own)) = mset (map snd (dc_order c @ own'))" "set own = set own'"
    using assms(1) mset_eq_setD [OF assms(1)] by simp_all
  show ?thesis
    using assms(2) mset_eq_imp_distinct_iff [OF m(1)] mset_eq_imp_distinct_iff [OF m(2)] m(3) unfolding owners_ok_def by simp
qed

lemma owners_okD:
  assumes "owners_ok c own"
  shows "(k, r) \<in> set (dc_order c) \<Longrightarrow> r < length (dc_heap c)" "(k, r) \<in> set own \<Longrightarrow> r < length (dc_heap c)"
    "(k, r) \<in> set own \<Longrightarrow> (k', r) \<notin> set (dc_order c)" "(k, r) \<in> set own \<Longrightarrow> (k, r') \<notin> set (dc_order c)"
    "(k, r) \<in> set (dc_order c) \<Longrightarrow> (k, r') \<in> set (dc_order c) \<Longrightarrow> r = r'"
    "(k, r) \<in> set own \<Longrightarrow> (k, r') \<in> set own \<Longrightarrow> r = r'"
proof -
  have d: "distinct (map fst (dc_order c))" "distinct (map fst own)" "fst ` set (dc_order c) \<inter> fst ` set own = {}"
    "snd ` set (dc_order c) \<inter> snd ` set own = {}" "\<forall>r \<in> snd ` set (dc_order c @ own). r < length (dc_heap c)"
    using assms by (simp_all add: owners_ok_def)
  show "(k, r) \<in> set (dc_order c) \<Longrightarrow> r < length (dc_heap c)" "(k, r) \<in> set own \<Longrightarrow> r < length (dc_heap c)" using d(5) by force+
  show "(k, r) \<in> set own \<Longrightarrow> (k', r) \<notin> set (dc_order c)" using d(4) by force
  show "(k, r) \<in> set own \<Longrightarrow> (k, r') \<notin> set (dc_order c)" using d(3) by force
  show "(k, r) \<in> set (dc_order c) \<Longrightarrow> (k, r') \<in> set (dc_order c) \<Longrightarrow> r = r'" by (rule eq_key_imp_eq_value [OF d(1)])
  show "(k, r) \<in> set own \<Longrightarrow> (k, r') \<in> set own \<Longrightarrow> r = r'" by (rule eq_key_imp_eq_value [OF d(2)])
qed

lemma listedSize_cong:
  assumes "dc_order c' = dc_order c" "\<forall>el \<in> set (dc_order c). ce_size (entryOf c' (snd el)) = ce_size (entryOf c (snd el))"
  shows "listedSize c' = listedSize c"
  unfolding listedSize_def assms(1) using assms(2) by (intro arg_cong [of _ _ sum_list] map_cong) simp_all

lemma new_owner:
  fixes e :: cache_entry
  assumes o: "owners_ok c own" and n: "counted c own" "\<not> dc_closed c" "map_of (dc_entries c) key = None"
  defines "r \<equiv> length (dc_heap c)"
  defines "c' \<equiv> c\<lparr>dc_heap := dc_heap c @ [e], dc_entries := AList.update key r (dc_entries c)\<rparr>"
  shows "owners_ok c' ((key, r) # own)" "counted c' ((key, r) # own)" "filed c d \<Longrightarrow> filed c' d"
proof -
  have fresh: "r \<notin> snd ` set (dc_order c @ own)" using owners_okD(1,2) [OF o] by (force simp: r_def)
  have key: "key \<notin> fst ` set (dc_order c @ own)" using n(1,3) by (force simp: counted_def)
  have nth: "entryOf c' r' = entryOf c r'" if "r' < length (dc_heap c)" for r' using that by (simp add: c'_def nth_append)
  have lt: "\<forall>el \<in> set (dc_order c). snd el < length (dc_heap c)" using owners_okD(1) [OF o] by auto
  show "owners_ok c' ((key, r) # own)"
    using o fresh key n(2) by (auto simp: owners_ok_def c'_def r_def less_Suc_eq)
  have "listedSize c' = listedSize c" using nth lt by (intro listedSize_cong) (auto simp: c'_def)
  then show "counted c' ((key, r) # own)"
    using n(1) key n(3) unfolding counted_def by (auto simp: c'_def split: if_splits intro: rev_image_eqI)
  show "filed c' d" if "filed c d"
    using that nth lt unfolding filed_def by (fastforce simp: c'_def)
qed

lemma list_entry:
  fixes path :: string and n :: int
  assumes o: "owners_ok c own" "(key, r) \<in> set own"
  defines "c' \<equiv> (updEntry r (\<lambda>x. x\<lparr>ce_path := path, ce_size := n, ce_err := None\<rparr>) c)
      \<lparr>dc_order := dc_order c @ [(key, r)], dc_curSize := dc_curSize c + n\<rparr>"
  shows "owners_ok c' (remove1 (key, r) own)" "counted c own \<Longrightarrow> counted c' (remove1 (key, r) own)"
    "filed c d \<Longrightarrow> pathOfKey c key path \<Longrightarrow> d path \<noteq> None \<Longrightarrow> filed c' d"
proof -
  have m: "mset own = add_mset (key, r) (mset (remove1 (key, r) own))" using o(2) by simp
  have r: "r < length (dc_heap c)" "r \<notin> snd ` set (dc_order c)" using owners_okD(2,3) [OF o] by auto
  have nth: "entryOf c' r' = entryOf c r'" if "r' \<noteq> r" for r' using that by (simp add: c'_def)
  have at: "ce_size (entryOf c' r) = n" "ce_path (entryOf c' r) = path" "ce_err (entryOf c' r) = None" using r(1) by (simp_all add: c'_def)
  have "owners_ok c ((key, r) # remove1 (key, r) own)" using m by (intro owners_mset [OF _ o(1)]) simp
  then show "owners_ok c' (remove1 (key, r) own)" by (auto simp: owners_ok_def c'_def)
  have "map (\<lambda>el. ce_size (entryOf c' (snd el))) (dc_order c) = map (\<lambda>el. ce_size (entryOf c (snd el))) (dc_order c)"
    using r(2) by (intro map_cong) (auto intro!: arg_cong [of _ _ ce_size] nth)
  moreover have "dc_order c' = dc_order c @ [(key, r)]" by (simp add: c'_def)
  ultimately have "listedSize c' = listedSize c + n" using at(1) by (simp add: listedSize_def cong: map_cong)
  moreover have "set own = insert (key, r) (set (remove1 (key, r) own))" using m by (metis set_mset_add_mset_insert set_mset_mset)
  ultimately show "counted c' (remove1 (key, r) own)" if "counted c own" using that by (auto simp: counted_def c'_def)
  show "filed c' d" if f: "filed c d" "pathOfKey c key path" "d path \<noteq> None"
  proof -
    have "ce_err (entryOf c' q) = None \<and> pathOfKey c' k (ce_path (entryOf c' q)) \<and> d (ce_path (entryOf c' q)) \<noteq> None"
      if "(k, q) \<in> set (dc_order c')" for k q
    proof (cases "(k, q) \<in> set (dc_order c)")
      case True
      then have "q \<noteq> r" using r(2) by force
      then show ?thesis using True f(1) nth [of q] by (auto simp: filed_def c'_def)
    next
      case False
      then have "k = key" "q = r" using that by (auto simp: c'_def)
      then show ?thesis using at f(2,3) by (simp add: c'_def)
    qed
    then show ?thesis by (auto simp: filed_def)
  qed
qed

lemma owners_same:
  assumes "owners_ok c own" "dc_order c' = dc_order c" "length (dc_heap c') = length (dc_heap c)" "dc_closed c' = dc_closed c"
    "distinct (map fst (dc_entries c)) \<Longrightarrow> distinct (map fst (dc_entries c'))" "dc_entries c = [] \<Longrightarrow> dc_entries c' = []"
  shows "owners_ok c' own"
  using assms(1,5,6) unfolding owners_ok_def assms(2-4) by simp

lemma owners_tail: "owners_ok c (x # own) \<Longrightarrow> owners_ok c own"
  by (simp add: owners_ok_def)

lemma filedD:
  assumes "filed c d" "(k, r) \<in> set (dc_order c)"
  shows "ce_err (entryOf c r) = None" "pathOfKey c k (ce_path (entryOf c r))" "d (ce_path (entryOf c r)) \<noteq> None"
  using assms by (auto simp: filed_def)

text \<open>A failed entry leaves the map; it was never listed.\<close>

lemma drop_owner:
  fixes f :: "cache_entry \<Rightarrow> cache_entry"
  assumes o: "owners_ok c own" "(key, r) \<in> set own"
  defines "c0 \<equiv> updEntry r f c"
  defines "c' \<equiv> if map_of (dc_entries c0) key = Some r then c0\<lparr>dc_entries := AList.delete key (dc_entries c0)\<rparr> else c0"
  shows "owners_ok c' (remove1 (key, r) own)" "counted c own \<Longrightarrow> counted c' (remove1 (key, r) own)" "filed c d \<Longrightarrow> filed c' d"
proof -
  have fields: "dc_order c' = dc_order c" "length (dc_heap c') = length (dc_heap c)" "dc_closed c' = dc_closed c" "dc_curSize c' = dc_curSize c"
    "dc_layout c' = dc_layout c" "dc_dir c' = dc_dir c" by (simp_all add: c'_def c0_def)
  have nth: "entryOf c' r' = entryOf c r'" if "r' \<noteq> r" for r' using that by (simp add: c'_def c0_def)
  have m: "mset own = add_mset (key, r) (mset (remove1 (key, r) own))" using o(2) by simp
  have o': "owners_ok c ((key, r) # remove1 (key, r) own)" using m by (intro owners_mset [OF _ o(1)]) simp
  have "distinct (map fst ((key, r) # remove1 (key, r) own))" using o' unfolding owners_ok_def by simp
  then have notin: "(key, q) \<notin> set (remove1 (key, r) own)" for q using image_eqI [of key fst "(key, q)"] by auto
  have entries: "distinct (map fst (dc_entries c)) \<Longrightarrow> distinct (map fst (dc_entries c'))" "dc_entries c = [] \<Longrightarrow> dc_entries c' = []"
    by (simp_all add: c'_def c0_def)
  show "owners_ok c' (remove1 (key, r) own)"
    by (rule owners_same [OF owners_tail [OF o'] fields(1-3) entries])
  have listed: "(k, q) \<in> set (dc_order c) \<Longrightarrow> q \<noteq> r" for k q using owners_okD(3) [OF o(1,2)] by blast
  then have "listedSize c' = listedSize c" using nth by (intro listedSize_cong fields) auto
  then show "counted c' (remove1 (key, r) own)" if n: "counted c own"
  proof -
    have "map_of (dc_entries c) key = Some r" using n o(2) by (simp add: counted_def)
    then have del: "map_of (dc_entries c') = (map_of (dc_entries c))(key := None)" by (simp add: c'_def c0_def)
    have old: "map_of (dc_entries c) k = Some q \<longleftrightarrow> (k, q) \<in> set (dc_order c) \<or> (k, q) \<in> set own" for k q
      using n by (simp add: counted_def)
    have "map_of (dc_entries c') k = Some q \<longleftrightarrow> (k, q) \<in> set (dc_order c) \<union> set (remove1 (key, r) own)" for k q
    proof (cases "k = key")
      case True
      then show ?thesis using notin [of q] owners_okD(4) [OF o(1,2), of q] unfolding del by simp
    next
      case False
      then have "map_of (dc_entries c') k = map_of (dc_entries c) k" unfolding del by simp
      then show ?thesis using old [of k q] False by simp
    qed
    then show ?thesis using n \<open>listedSize c' = listedSize c\<close> unfolding counted_def fields by simp
  qed
  show "filed c' d" if "filed c d" using that listed nth unfolding filed_def fields by fastforce
qed

lemma evicts_keeps:
  assumes e: "evicts keep c removed c'" and o: "owners_ok c own"
  shows "owners_ok c' own" "dc_closed c' = dc_closed c"
    and "counted c own \<Longrightarrow> listed_ok c' \<Longrightarrow> dc_curSize c' = listedSize c' \<Longrightarrow> counted c' own"
    and "counted c own \<Longrightarrow> filed c d \<Longrightarrow> inj_layout c \<Longrightarrow> set unlinked \<subseteq> set removed \<Longrightarrow> filed c' (unlinkAll unlinked d)"
proof -
  obtain gone where g: "mset (dc_order c) = mset (dc_order c') + mset gone" "keep \<notin> fst ` set gone"
      "\<forall>k. map_of (dc_entries c') k = (if k \<in> fst ` set gone then None else map_of (dc_entries c) k)"
      "\<forall>p \<in> set removed. \<exists>el \<in> set gone. \<exists>r. map_of (dc_entries c) (fst el) = Some r \<and> p = ce_path (entryOf c r)"
    using e unfolding evicts_def by blast
  have fields: "dc_heap c' = dc_heap c" "dc_closed c' = dc_closed c" "dc_layout c' = dc_layout c" "dc_dir c' = dc_dir c"
    "distinct (map fst (dc_entries c)) \<Longrightarrow> distinct (map fst (dc_entries c'))"
    using e unfolding evicts_def by simp_all
  have m: "mset (dc_order c @ own) = mset ((dc_order c' @ own) @ gone)" using g(1) by simp
  have "distinct (map fst ((dc_order c' @ own) @ gone))" "distinct (map snd ((dc_order c' @ own) @ gone))"
    using o mset_eq_imp_distinct_iff [of "map fst (dc_order c @ own)" "map fst ((dc_order c' @ own) @ gone)"]
      mset_eq_imp_distinct_iff [of "map snd (dc_order c @ own)" "map snd ((dc_order c' @ own) @ gone)"] m
    unfolding owners_ok_def by (metis mset_map)+
  note d = this
  have sub: "set (dc_order c) = set (dc_order c') \<union> set gone" using g(1) by (metis mset_append set_append mset_eq_setD)
  have closed: "dc_closed c \<Longrightarrow> dc_entries c' = []"
    using g(3) o by (metis (no_types) map_of_eq_None_iff map_of.simps(1) owners_ok_def empty_iff image_is_empty equals0I set_empty)
  show "dc_closed c' = dc_closed c" by (rule fields)
  show "owners_ok c' own" using o d closed sub unfolding owners_ok_def by (auto simp: fields)
  have away: "(k, q) \<in> set (dc_order c') \<union> set own \<Longrightarrow> k \<notin> fst ` set gone" for k q using d(1) by (force simp: image_iff)
  show "counted c' own" if "counted c own" "listed_ok c'" "dc_curSize c' = listedSize c'"
    using that(1,3) g(3) away sub unfolding counted_def by (auto split: if_splits) (metis fst_conv image_eqI)
  show "filed c' (unlinkAll unlinked d')" if n: "counted c own" and f: "filed c d'" "inj_layout c" "set unlinked \<subseteq> set removed" for d'
  proof -
    have "ce_path (entryOf c q) \<notin> set removed" if "(k, q) \<in> set (dc_order c')" for k q
    proof
      assume "ce_path (entryOf c q) \<in> set removed"
      then obtain k' r' where r: "(k', r') \<in> set gone" "map_of (dc_entries c) k' = Some r'" "ce_path (entryOf c q) = ce_path (entryOf c r')"
        using g(4) n sub unfolding counted_def by fastforce
      then have "pathOfKey c k' (ce_path (entryOf c q))" "pathOfKey c k (ce_path (entryOf c q))"
        using filedD(2) [OF f(1), of k' r'] filedD(2) [OF f(1), of k q] that sub by auto
      then have "k' = k" using f(2) unfolding inj_layout_def by blast
      then show False using away [of k q] that r(1) by force
    qed
    then show ?thesis using f(1,3) sub unfolding filed_def by (fastforce simp: fields unlinkAll_def)
  qed
qed

lemma results_okD:
  assumes "results_ok c d ps" "((k, r), Inr (p, n)) \<in> set ps"
  shows "pathOfKey c k p" "d p \<noteq> None"
  using assms by (auto simp: results_ok_def)

lemma evicts_results:
  assumes e: "evicts keep c removed c'" and o: "owners_ok c own" and n: "counted c own" and f: "filed c d" "inj_layout c"
    and u: "set unlinked \<subseteq> set removed" and ps: "results_ok c d ps" "fst ` set ps \<subseteq> set own"
  shows "results_ok c' (unlinkAll unlinked d) ps"
proof -
  obtain gone where g: "mset (dc_order c) = mset (dc_order c') + mset gone"
      "\<forall>p \<in> set removed. \<exists>el \<in> set gone. \<exists>r. map_of (dc_entries c) (fst el) = Some r \<and> p = ce_path (entryOf c r)"
    using e unfolding evicts_def by blast
  have sub: "set gone \<subseteq> set (dc_order c)" using g(1) by (metis mset_append mset_eq_setD set_append sup.cobounded2)
  have fields: "dc_layout c' = dc_layout c" "dc_dir c' = dc_dir c" using e by (simp_all add: evicts_def)
  have "p \<notin> set removed" if "((k, r), Inr (p, n')) \<in> set ps" for k r p n'
  proof
    assume "p \<in> set removed"
    then obtain k' r' q where q: "(k', q) \<in> set (dc_order c)" "map_of (dc_entries c) k' = Some r'" "p = ce_path (entryOf c r')"
      using g(2) sub by force
    moreover have "map_of (dc_entries c) k' = Some q" using n q(1) by (simp add: counted_def)
    ultimately have r: "(k', r') \<in> set (dc_order c)" "p = ce_path (entryOf c r')" by simp_all
    then have "k' = k" using filedD(2) [OF f(1) r(1)] results_okD(1) [OF ps(1) that] f(2) unfolding inj_layout_def by blast
    then show False using owners_okD(4) [OF o, of k r r'] r(1) ps(2) that by force
  qed
  then show ?thesis using ps(1) u unfolding results_ok_def fields by (fastforce simp: unlinkAll_def)
qed

lemma produceInto_disk:
  assumes "produceInto c key run d = Some (res, d')"
  shows "\<not> pathOfKey c key p \<Longrightarrow> d' p = d p" "res = Inr (q, n) \<Longrightarrow> pathOfKey c key q \<and> d' q \<noteq> None"
  using assms by (auto simp: produceInto_def split: sum.splits option.splits if_splits)

text \<open>The same cache up to recency, references and readiness.\<close>

definition similar :: "Cache \<Rightarrow> Cache \<Rightarrow> bool" where
  "similar c c' \<longleftrightarrow> mset (dc_order c') = mset (dc_order c) \<and> dc_entries c' = dc_entries c \<and> dc_closed c' = dc_closed c \<and>
     dc_curSize c' = dc_curSize c \<and> dc_layout c' = dc_layout c \<and> dc_dir c' = dc_dir c \<and> length (dc_heap c) \<le> length (dc_heap c') \<and>
     (\<forall>r < length (dc_heap c). ce_size (entryOf c' r) = ce_size (entryOf c r) \<and> ce_path (entryOf c' r) = ce_path (entryOf c r) \<and>
        ce_err (entryOf c' r) = ce_err (entryOf c r))"

lemma similar_keeps:
  assumes "similar c c'" and o: "owners_ok c own"
  shows "owners_ok c' own" "counted c own \<Longrightarrow> counted c' own" "filed c d \<Longrightarrow> filed c' d" "results_ok c d ps \<Longrightarrow> results_ok c' d ps"
proof -
  have c: "mset (dc_order c') = mset (dc_order c)" "dc_entries c' = dc_entries c" "dc_closed c' = dc_closed c"
     "dc_curSize c' = dc_curSize c" "dc_layout c' = dc_layout c" "dc_dir c' = dc_dir c" "length (dc_heap c) \<le> length (dc_heap c')"
    using assms(1) by (simp_all add: similar_def)
  have h: "ce_size (entryOf c' r) = ce_size (entryOf c r)" "ce_path (entryOf c' r) = ce_path (entryOf c r)"
      "ce_err (entryOf c' r) = ce_err (entryOf c r)" if "r < length (dc_heap c)" for r
    using assms(1) that by (simp_all add: similar_def)
  have s: "set (dc_order c') = set (dc_order c)" using c(1) by (rule mset_eq_setD)
  have m: "mset (map fst (dc_order c' @ own)) = mset (map fst (dc_order c @ own))"
    "mset (map snd (dc_order c' @ own)) = mset (map snd (dc_order c @ own))" using c(1) by simp_all
  have "r < length (dc_heap c')" if r: "r \<in> snd ` set (dc_order c' @ own)" for r
  proof -
    obtain k where "(k, r) \<in> set (dc_order c) \<or> (k, r) \<in> set own" using r unfolding set_append s by force
    then have "r < length (dc_heap c)" using owners_okD(1,2) [OF o, of k r] by blast
    then show ?thesis using c(7) by simp
  qed
  moreover have "distinct (map fst (dc_order c' @ own))" "distinct (map snd (dc_order c' @ own))"
    using o mset_eq_imp_distinct_iff [OF m(1)] mset_eq_imp_distinct_iff [OF m(2)] unfolding owners_ok_def by blast+
  ultimately show "owners_ok c' own" using o unfolding owners_ok_def c(2,3) by blast
  have "listedSize c' = sum_mset (image_mset (\<lambda>el. ce_size (entryOf c' (snd el))) (mset (dc_order c)))"
    unfolding listedSize_def sum_mset_sum_list [symmetric] mset_map c(1) ..
  also have "\<dots> = listedSize c"
    unfolding listedSize_def sum_mset_sum_list [symmetric] mset_map
    using h(1) owners_okD(1) [OF o] by (intro arg_cong [of _ _ sum_mset] image_mset_cong) auto
  finally show "counted c' own" if "counted c own" using that unfolding counted_def c(2,4) s by simp
  show "filed c' d" if "filed c d"
  proof -
    have "ce_err (entryOf c' r) = None \<and> pathOfKey c' k (ce_path (entryOf c' r)) \<and> d (ce_path (entryOf c' r)) \<noteq> None"
      if k: "(k, r) \<in> set (dc_order c')" for k r
      using k filedD [OF \<open>filed c d\<close>, of k r] h [OF owners_okD(1) [OF o, of k r]] unfolding s c(5,6) by simp
    then show ?thesis by (auto simp: filed_def)
  qed
  show "results_ok c' d ps" if "results_ok c d ps" using that unfolding results_ok_def c(5,6) .
qed

lemma similar_trans:
  assumes "similar a b" "similar b c"
  shows "similar a c"
proof -
  have "length (dc_heap a) \<le> length (dc_heap b)" "length (dc_heap b) \<le> length (dc_heap c)" using assms by (simp_all add: similar_def)
  then show ?thesis using assms by (simp add: similar_def)
qed

lemma similar_updEntry:
  assumes "\<And>x. ce_size (f x) = ce_size x" "\<And>x. ce_path (f x) = ce_path x" "\<And>x. ce_err (f x) = ce_err x"
  shows "similar c (updEntry r f c)"
proof -
  have "ce_size ((dc_heap c)[r := f (entryOf c r)] ! q) = ce_size (entryOf c q)" "ce_path ((dc_heap c)[r := f (entryOf c r)] ! q) = ce_path (entryOf c q)"
    "ce_err ((dc_heap c)[r := f (entryOf c r)] ! q) = ce_err (entryOf c q)" if "q < length (dc_heap c)" for q
    using that assms by (cases "q = r"; simp)+
  then show ?thesis by (simp add: similar_def)
qed

lemma similar_release: "similar c (release r c)"
proof (cases "ce_refs (entryOf c r) > 0")
  case True
  then show ?thesis unfolding release_def by (simp add: similar_updEntry)
qed (simp add: release_def similar_def)

lemma similar_closeReady: "similar c (closeReady r c)"
  unfolding closeReady_def by (rule similar_updEntry) simp_all

lemma similar_takeRef: "similar c (takeRef r c)"
proof -
  have "mset (dc_order (touch r c')) = mset (dc_order c')" for c'
    by (simp add: touch_def)
  then have "similar c' (touch r c')" for c' by (simp add: similar_def) (simp add: touch_def)
  moreover have "similar c (updEntry r (\<lambda>x. x\<lparr>ce_refs := ce_refs x + 1\<rparr>) c)" by (rule similar_updEntry) simp_all
  ultimately show ?thesis unfolding takeRef_def by (blast intro: similar_trans)
qed

lemma Adopt_list:
  assumes "\<not> dc_closed c" "map_of (dc_entries c) key = None"
  defines "r \<equiv> length (dc_heap c)"
  defines "c1 \<equiv> c\<lparr>dc_heap := dc_heap c @ [\<lparr>ce_ready = True, ce_path = '''', ce_size = 0, ce_err = None, ce_refs = 0\<rparr>],
    dc_entries := AList.update key r (dc_entries c)\<rparr>"
  shows "Adopt key path n c = (updEntry r (\<lambda>x. x\<lparr>ce_path := path, ce_size := n, ce_err := None\<rparr>) c1)
      \<lparr>dc_order := dc_order c1 @ [(key, r)], dc_curSize := dc_curSize c1 + n\<rparr>"
  using assms(1,2) by (simp add: Adopt_def c1_def r_def Let_def)

lemma startDone_keeps:
  assumes o: "owners_ok c own" "(key, r) \<in> set own" and s: "startDone key r res c = Some (removed, c')"
    and m: "mset own = add_mset (key, r) (mset own')" and u: "set unlinked \<subseteq> set removed"
  shows "owners_ok c' own'" "dc_closed c' = dc_closed c"
    and "counted c own \<Longrightarrow> counted c' own'"
    and "counted c own \<Longrightarrow> filed c d \<Longrightarrow> inj_layout c \<Longrightarrow> results_ok c d (((key, r), res) # ps) \<Longrightarrow> fst ` set ps \<subseteq> set own' \<Longrightarrow>
      filed c' (unlinkAll unlinked d) \<and> results_ok c' (unlinkAll unlinked d) ps"
proof -
  have own': "mset (remove1 (key, r) own) = mset own'" using m by simp
  note to = owners_mset [OF own'] and tc = counted_mset [OF mset_eq_setD [OF own']]
  let ?goal = "owners_ok c' own' \<and> dc_closed c' = dc_closed c \<and> (counted c own \<longrightarrow> counted c' own') \<and>
    (counted c own \<longrightarrow> filed c d \<longrightarrow> inj_layout c \<longrightarrow> results_ok c d (((key, r), res) # ps) \<longrightarrow> fst ` set ps \<subseteq> set own' \<longrightarrow>
      filed c' (unlinkAll unlinked d) \<and> results_ok c' (unlinkAll unlinked d) ps)"
  have ?goal
  proof (cases res)
    case (Inl e)
    let ?f = "\<lambda>x. x\<lparr>ce_path := [], ce_size := 0, ce_err := Some e\<rparr>"
    have c': "c' = (if map_of (dc_entries (updEntry r ?f c)) key = Some r
        then (updEntry r ?f c)\<lparr>dc_entries := AList.delete key (dc_entries (updEntry r ?f c))\<rparr> else updEntry r ?f c)" "removed = []"
      using s by (simp_all add: startDone_def Inl Let_def)
    have f: "dc_closed c' = dc_closed c" "dc_layout c' = dc_layout c" "dc_dir c' = dc_dir c" "unlinkAll unlinked d = d"
      using u by (simp_all add: c' unlinkAll_def)
    note k = drop_owner [OF o, where f = ?f, folded c'(1)]
    have "results_ok c' d ps" if "results_ok c d (((key, r), res) # ps)" using that by (simp add: results_ok_def f)
    then show ?thesis using to [OF k(1)] tc [OF k(2)] k(3) [of d] by (simp add: f)
  next
    case (Inr q)
    obtain path n where q: "q = (path, n)" by fastforce
    let ?c = "(updEntry r (\<lambda>x. x\<lparr>ce_path := path, ce_size := n, ce_err := None\<rparr>) c)
      \<lparr>dc_order := dc_order c @ [(key, r)], dc_curSize := dc_curSize c + n\<rparr>"
    note k = list_entry [OF o, where path = path and n = n]
    have ok: "owners_ok ?c own'" by (rule to [OF k(1)])
    have "distinct (map fst (dc_order ?c))" using ok by (simp add: owners_ok_def)
    then obtain removed' c'' where e: "evictLocked key ?c [] = Some ([] @ removed', c'')" "evicts key ?c removed' c''"
        "listed_ok ?c \<longrightarrow> listed_ok c'' \<and> dc_curSize c'' - listedSize c'' = dc_curSize ?c - listedSize ?c"
      using evictLocked_ends [of ?c key "[]"] by blast
    have c: "c'' = c'" "removed' = removed" using s e(1) by (simp_all add: startDone_def Inr q Let_def)
    note ek = evicts_keeps [OF e(2) [unfolded c] ok]
    have cnt: "counted ?c own'" "counted c' own'" if "counted c own"
    proof -
      show cc: "counted ?c own'" by (rule tc [OF k(2) [OF that]])
      then show "counted c' own'" using e(3) counted_listed [OF cc] by (intro ek(3)) (simp_all add: c counted_def)
    qed
    have "filed c' (unlinkAll unlinked d) \<and> results_ok c' (unlinkAll unlinked d) ps"
      if h: "counted c own" "filed c d" "inj_layout c" "results_ok c d (((key, r), res) # ps)" "fst ` set ps \<subseteq> set own'"
    proof -
      have p: "pathOfKey c key path" "d path \<noteq> None" using results_okD [OF h(4), of key r path n] by (simp_all add: Inr q)
      have f: "filed ?c d" by (rule k(3) [OF h(2) p])
      have i: "inj_layout ?c" "results_ok ?c d ps" using h(3,4) by (simp_all add: inj_layout_def results_ok_def)
      show ?thesis
        using ek(4) [OF cnt(1) [OF h(1)] f i(1) u] evicts_results [OF e(2) [unfolded c] ok cnt(1) [OF h(1)] f i(1) u i(2) h(5)] by blast
    qed
    then show ?thesis using ek(1,2) cnt(2) by simp
  qed
  then show "owners_ok c' own'" "dc_closed c' = dc_closed c" "counted c own \<Longrightarrow> counted c' own'"
    "counted c own \<Longrightarrow> filed c d \<Longrightarrow> inj_layout c \<Longrightarrow> results_ok c d (((key, r), res) # ps) \<Longrightarrow> fst ` set ps \<subseteq> set own' \<Longrightarrow>
      filed c' (unlinkAll unlinked d) \<and> results_ok c' (unlinkAll unlinked d) ps" by blast+
qed

section \<open>Every reachable state\<close>

lemma dc_invI:
  assumes "owners_ok (cache s) (ownersOf s)"
    "\<not> dc_closed (cache s) \<Longrightarrow> counted (cache s) (ownersOf s) \<and> filed (cache s) (cdisk s) \<and> results_ok (cache s) (cdisk s) (produced s)"
  shows "dc_inv s"
  using assms by (simp add: dc_inv_def)

lemma dc_invD:
  assumes "dc_inv s"
  shows "owners_ok (cache s) (ownersOf s)"
    "\<not> dc_closed (cache s) \<Longrightarrow> counted (cache s) (ownersOf s)" "\<not> dc_closed (cache s) \<Longrightarrow> filed (cache s) (cdisk s)"
    "\<not> dc_closed (cache s) \<Longrightarrow> results_ok (cache s) (cdisk s) (produced s)"
  using assms by (simp_all add: dc_inv_def)

lemma inv_similar:
  assumes "dc_inv s" "similar (cache s) c"
  shows "dc_inv (s\<lparr>cache := c, toClose := x\<rparr>)"
proof -
  have "dc_closed c = dc_closed (cache s)" using assms(2) by (simp add: similar_def)
  then show ?thesis
    using similar_keeps [OF assms(2) dc_invD(1) [OF assms(1)]] dc_invD(2-4) [OF assms(1)] by (intro dc_invI) simp_all
qed

lemma inv_adopt:
  assumes i: "dc_inv s" and p: "pathOfKey (cache s) key path" "cdisk s path \<noteq> None"
  shows "dc_inv (s\<lparr>cache := Adopt key path n (cache s)\<rparr>)"
proof (cases "dc_closed (cache s) \<or> map_of (dc_entries (cache s)) key \<noteq> None")
  case True
  then show ?thesis using i by (simp add: Adopt_def)
next
  case False
  let ?c = "cache s" and ?r = "length (dc_heap (cache s))" and ?own = "ownersOf s"
  let ?e = "\<lparr>ce_ready = True, ce_path = [], ce_size = 0, ce_err = None, ce_refs = 0\<rparr>"
  let ?c1 = "?c\<lparr>dc_heap := dc_heap ?c @ [?e], dc_entries := AList.update key ?r (dc_entries ?c)\<rparr>"
  have op: "\<not> dc_closed ?c" "map_of (dc_entries ?c) key = None" using False by simp_all
  note d = dc_invD [OF i]
  note n = new_owner [OF d(1) d(2) [OF op(1)] op, where e = ?e]
  have mem: "(key, ?r) \<in> set ((key, ?r) # ?own)" by simp
  note l = list_entry [OF n(1) mem, where path = path and n = n, folded Adopt_list [OF op]]
  have f: "filed (Adopt key path n ?c) (cdisk s)" by (rule l(3) [OF n(3) [OF d(3) [OF op(1)]]]) (simp_all add: p)
  have "results_ok (Adopt key path n ?c) (cdisk s) (produced s)"
    using d(4) [OF op(1)] op by (simp add: Adopt_def results_ok_def Let_def)
  then show ?thesis using l(1) l(2) [OF n(2)] f by (intro dc_invI) simp_all
qed

lemma inv_start:
  assumes i: "dc_inv s" and b: "startBegin key (cache s) = (r, owner, c)"
  shows "dc_inv (s\<lparr>cache := c, producing := if owner then (key, r) # producing s else producing s\<rparr>)"
proof -
  let ?c = "cache s"
  note d = dc_invD [OF i]
  consider "dc_closed ?c" | "\<not> dc_closed ?c" "map_of (dc_entries ?c) key \<noteq> None" | "\<not> dc_closed ?c" "map_of (dc_entries ?c) key = None" by blast
  then show ?thesis
  proof cases
    case 1
    then have c: "\<not> owner" "c = ?c\<lparr>dc_heap := dc_heap ?c @ [\<lparr>ce_ready = True, ce_path = [], ce_size = 0, ce_err = Some CacheClosed, ce_refs = 0\<rparr>]\<rparr>"
      using b by (auto simp: startBegin_def)
    have "similar ?c c" by (simp add: c(2) similar_def nth_append)
    from similar_keeps(1) [OF this d(1)] show ?thesis using c 1 by (intro dc_invI) simp_all
  next
    case 2
    then show ?thesis using i b by (auto simp: startBegin_def)
  next
    case 3
    let ?e = "\<lparr>ce_ready = False, ce_path = [], ce_size = 0, ce_err = None, ce_refs = 0\<rparr>"
    have c: "owner" "r = length (dc_heap ?c)" "c = ?c\<lparr>dc_heap := dc_heap ?c @ [?e], dc_entries := AList.update key (length (dc_heap ?c)) (dc_entries ?c)\<rparr>"
      using b 3 by (auto simp: startBegin_def)
    note n = new_owner [OF d(1) d(2) [OF 3(1)] 3, where e = ?e, folded c(3)]
    have "results_ok c (cdisk s) (produced s)" using d(4) [OF 3(1)] by (simp add: c(3) results_ok_def)
    then show ?thesis using n(1,2) n(3) [OF d(3) [OF 3(1)]] c(1,2) by (intro dc_invI) simp_all
  qed
qed

lemma inv_produce:
  assumes i: "dc_inv s" "inj_layout (cache s)" and k: "(key, r) \<in> set (producing s)"
    and p: "produceInto (cache s) key run (cdisk s) = Some (res, d)"
  shows "dc_inv (s\<lparr>cdisk := d, producing := remove1 (key, r) (producing s), produced := ((key, r), res) # produced s\<rparr>)"
proof -
  let ?own = "remove1 (key, r) (producing s) @ (key, r) # map fst (produced s)"
  note v = dc_invD [OF i(1)] and w = produceInto_disk [OF p]
  have m: "mset (ownersOf s) = mset ?own" using k by simp
  have other: "d q = cdisk s q" if "pathOfKey (cache s) k' q" "k' \<noteq> key" for k' q
    using that i(2) by (intro w(1)) (auto simp: inj_layout_def)
  have mine: "(key, r) \<in> set (ownersOf s)" using k by simp
  have "filed (cache s) d" if "filed (cache s) (cdisk s)"
  proof -
    have "d (ce_path (entryOf (cache s) q)) \<noteq> None" if q: "(k', q) \<in> set (dc_order (cache s))" for k' q
    proof -
      have "k' \<noteq> key" using owners_okD(4) [OF v(1) mine] q by blast
      then show ?thesis using other [OF filedD(2) [OF \<open>filed (cache s) (cdisk s)\<close> q]] filedD(3) [OF \<open>filed (cache s) (cdisk s)\<close> q] by simp
    qed
    then show ?thesis using that by (auto simp: filed_def)
  qed
  moreover have "results_ok (cache s) d (((key, r), res) # produced s)" if res: "results_ok (cache s) (cdisk s) (produced s)"
  proof -
    have "distinct (map fst (producing s) @ map fst (map fst (produced s)))" using v(1) by (simp add: owners_ok_def)
    then have "set (map fst (producing s)) \<inter> set (map fst (map fst (produced s))) = {}" unfolding distinct_append by blast
    moreover have "key \<in> set (map fst (producing s))" using k by force
    moreover have "k' \<in> set (map fst (map fst (produced s)))" if "((k', q), x) \<in> set (produced s)" for k' q x using that by force
    ultimately have "k' \<noteq> key" if "((k', q), x) \<in> set (produced s)" for k' q x using that by blast
    then have "pathOfKey (cache s) k' q \<and> d q \<noteq> None" if "((k', r'), Inr (q, n)) \<in> set (produced s)" for k' r' q n
      using results_okD [OF res that] other that by metis
    then show ?thesis using w(2) by (auto simp: results_ok_def)
  qed
  ultimately show ?thesis
    using owners_mset [OF m v(1)] counted_mset [OF mset_eq_setD [OF m]] v(2-4) by (intro dc_invI) simp_all
qed

lemma remove1_own:
  assumes "((key, r), res) \<in> set ps"
  shows "mset (own @ map fst ps) = add_mset (key, r) (mset (own @ map fst (remove1 ((key, r), res) ps)))"
proof -
  have "mset ps = add_mset ((key, r), res) (mset (remove1 ((key, r), res) ps))" using assms by simp
  then have "image_mset fst (mset ps) = add_mset (key, r) (image_mset fst (mset (remove1 ((key, r), res) ps)))"
    by (metis fst_conv image_mset_add_mset)
  then show ?thesis by simp
qed

lemma inv_finish:
  assumes i: "dc_inv s" "inj_layout (cache s)" and k: "((key, r), res) \<in> set (produced s)"
    and f: "startDone key r res (cache s) = Some (removed, c)" and u: "set unlinked \<subseteq> set removed"
  shows "dc_inv (s\<lparr>cache := c, cdisk := unlinkAll unlinked (cdisk s), produced := remove1 ((key, r), res) (produced s), toClose := x\<rparr>)"
proof -
  let ?ps = "remove1 ((key, r), res) (produced s)"
  note v = dc_invD [OF i(1)]
  have mine: "(key, r) \<in> set (ownersOf s)" using k by force
  note g = startDone_keeps [OF v(1) mine f remove1_own [OF k, of "producing s"] u]
  have "results_ok (cache s) (cdisk s) (((key, r), res) # ?ps)" if "results_ok (cache s) (cdisk s) (produced s)"
  proof -
    have "set (((key, r), res) # ?ps) \<subseteq> set (produced s)" using k set_remove1_subset [of "((key, r), res)" "produced s"] by simp
    then show ?thesis using that unfolding results_ok_def by blast
  qed
  then have "filed c (unlinkAll unlinked (cdisk s)) \<and> results_ok c (unlinkAll unlinked (cdisk s)) ?ps" if "\<not> dc_closed (cache s)"
    using v(2-4) [OF that] i(2) by (intro g(4)) auto
  then show ?thesis using g(1-3) v(2) by (intro dc_invI) simp_all
qed

lemma inv_trim:
  assumes i: "dc_inv s" "inj_layout (cache s)" and t: "Trim (cache s) = Some (removed, c)" and u: "set unlinked \<subseteq> set removed"
  shows "dc_inv (s\<lparr>cache := c, cdisk := unlinkAll unlinked (cdisk s)\<rparr>)"
proof -
  note v = dc_invD [OF i(1)]
  have "distinct (map fst (dc_order (cache s)))" using v(1) by (simp add: owners_ok_def)
  from evictLocked_ends [OF this, of "[]" "[]"] t
  have e: "evicts [] (cache s) removed c" "listed_ok (cache s) \<longrightarrow> listed_ok c \<and> dc_curSize c - listedSize c = dc_curSize (cache s) - listedSize (cache s)"
    by (auto simp: Trim_def)
  note g = evicts_keeps [OF e(1) v(1)]
  have "counted c (ownersOf s) \<and> filed c (unlinkAll unlinked (cdisk s)) \<and> results_ok c (unlinkAll unlinked (cdisk s)) (produced s)"
    if "\<not> dc_closed (cache s)"
  proof -
    note n = v(2) [OF that] and fl = v(3) [OF that] and rs = v(4) [OF that]
    have "counted c (ownersOf s)" using e(2) counted_listed [OF n] n by (intro g(3) [OF n]) (simp_all add: counted_def)
    moreover have "fst ` set (produced s) \<subseteq> set (ownersOf s)" by auto
    ultimately show ?thesis using g(4) [OF n fl i(2) u] evicts_results [OF e(1) v(1) n fl i(2) u rs] by blast
  qed
  then show ?thesis using g(1,2) by (intro dc_invI) simp_all
qed

lemma inv_close: "dc_inv s \<Longrightarrow> dc_inv (s\<lparr>cache := dc_Close (cache s)\<rparr>)"
  by (simp add: dc_inv_def owners_ok_def dc_Close_def)

definition same_options :: "Cache \<Rightarrow> Cache \<Rightarrow> bool" where
  "same_options c c' \<longleftrightarrow> dc_layout c' = dc_layout c \<and> dc_dir c' = dc_dir c \<and> dc_maxSize c' = dc_maxSize c"

lemma evict_options:
  assumes "evictLocked keep c acc = Some (removed, c')" "distinct (map fst (dc_order c))"
  shows "same_options c c'"
  using evictLocked_ends [OF assms(2), of keep acc] assms(1) by (auto simp: evicts_def same_options_def)

lemma startDone_options:
  assumes "startDone key r res c = Some (removed, c')" "owners_ok c own" "(key, r) \<in> set own"
  shows "same_options c c'"
proof (cases res)
  case (Inl e)
  then show ?thesis using assms(1) by (auto simp: startDone_def Let_def same_options_def)
next
  case (Inr q)
  obtain path n where q: "q = (path, n)" by fastforce
  note k = list_entry(1) [OF assms(2,3), where path = path and n = n]
  from assms(1) Inr q show ?thesis
    using evict_options [of key _ "[]" removed c'] k by (force simp: startDone_def Let_def same_options_def owners_ok_def)
qed

lemma step_options:
  assumes "dc_step s s'" "dc_inv s"
  shows "same_options (cache s) (cache s')"
  using assms(1)
proof (cases rule: dc_step.cases)
  case (finish key r res removed c unlinked)
  have "(key, r) \<in> set (ownersOf s)" using finish(2) by force
  from startDone_options [OF finish(3) dc_invD(1) [OF assms(2)] this] show ?thesis by (simp add: finish(1))
next
  case (trim removed c unlinked)
  have "distinct (map fst (dc_order (cache s)))" using dc_invD(1) [OF assms(2)] by (simp add: owners_ok_def)
  from evict_options [OF trim(2) [unfolded Trim_def] this] show ?thesis by (simp add: trim(1))
qed (auto simp: same_options_def Adopt_def startBegin_def closeReady_def takeRef_def touch_def release_def dc_Close_def Let_def split: if_splits option.splits)

lemma step_inv:
  assumes "dc_step s s'" "dc_inv s" "inj_layout (cache s)"
  shows "dc_inv s'"
  using assms
proof (cases rule: dc_step.cases)
  case (ready r)
  then show ?thesis using inv_similar [OF assms(2) similar_closeReady] by simp
next
  case (take r)
  then show ?thesis using inv_similar [OF assms(2) similar_takeRef, where x = "toClose s"] by simp
next
  case (release r)
  then show ?thesis using inv_similar [OF assms(2) similar_release, where x = "toClose s"] by simp
next
  case close
  then show ?thesis using inv_close [OF assms(2)] by simp
qed (use inv_adopt [OF assms(2)] inv_start [OF assms(2)] inv_produce [OF assms(2,3)] inv_finish [OF assms(2,3)] inv_trim [OF assms(2,3)] in auto)

lemma reachable_inv:
  assumes "dc_New dir m layout ok = Inr c" "inj_layout c" "dc_step\<^sup>*\<^sup>* (newSys c d) s"
  shows "dc_inv s \<and> same_options c (cache s)"
  using assms(3)
proof (induction rule: rtranclp_induct)
  case base
  have "c = \<lparr>dc_dir = dir, dc_maxSize = m, dc_layout = dc_layout c, dc_entries = [], dc_order = [], dc_curSize = 0, dc_closed = False, dc_heap = []\<rparr>"
    using assms(1) by (auto simp: dc_New_def split: if_splits)
  then have e: "dc_entries c = []" "dc_order c = []" "dc_curSize c = 0" "\<not> dc_closed c" by (metis Cache.select_convs)+
  then show ?case
    by (simp add: dc_inv_def newSys_def owners_ok_def counted_def listedSize_def filed_def results_ok_def same_options_def)
next
  case (step s s')
  then have "inj_layout (cache s)" using assms(2) by (simp add: inj_layout_def same_options_def)
  then show ?case using step step_inv [OF step(2)] step_options [OF step(2)] by (auto simp: same_options_def)
qed

section \<open>What a caller gets\<close>

lemma stats_count:
  assumes "owners_ok c own" "counted c own"
  shows "Stats c = (listedSize c, length (dc_order c) + length own)"
proof -
  have d: "distinct (map fst (dc_entries c))" "distinct (map fst (dc_order c @ own))" using assms(1) by (simp_all add: owners_ok_def)
  have "set (dc_entries c) = set (dc_order c @ own)"
    using assms(2) d(1) unfolding counted_def by (auto simp: map_of_eq_Some_iff)
  then have "card (set (dc_entries c)) = card (set (dc_order c @ own))" by simp
  then have "length (dc_entries c) = length (dc_order c @ own)"
    using d distinct_card [of "dc_entries c"] distinct_card [of "dc_order c @ own"] unfolding distinct_map by metis
  then show ?thesis using assms(2) by (simp add: Stats_def counted_def)
qed

lemma evict_budget:
  assumes "owners_ok c own" "\<not> dc_closed c \<Longrightarrow> counted c own"
  shows "\<exists>removed c'. evictLocked keep c [] = Some (removed, c') \<and>
    (\<not> dc_closed c \<longrightarrow> dc_curSize c' \<le> max 0 (dc_maxSize c) \<or> (\<exists>r. dc_order c' = [(keep, r)]))"
proof -
  have "distinct (map fst (dc_order c))" using assms(1) by (simp add: owners_ok_def)
  from evictLocked_ends [OF this, of keep "[]"] obtain removed c' where e: "evictLocked keep c [] = Some (removed, c')" "evicts keep c removed c'"
      "trimmed keep c'" "listed_ok c \<longrightarrow> dc_curSize c' - listedSize c' = dc_curSize c - listedSize c" by auto
  have "dc_curSize c' \<le> max 0 (dc_maxSize c) \<or> (\<exists>r. dc_order c' = [(keep, r)])" if "\<not> dc_closed c"
  proof -
    have "dc_curSize c' = listedSize c'" using e(4) counted_listed [OF assms(2) [OF that]] assms(2) [OF that] by (simp add: counted_def)
    moreover have "dc_maxSize c' = dc_maxSize c" using e(2) by (simp add: evicts_def)
    ultimately show ?thesis using e(3) unfolding trimmed_def by (auto simp: listedSize_def)
  qed
  then show ?thesis using e(1) by blast
qed

lemma start_present:
  assumes "start key run c d = Some (r, c', d')" "ce_err (entryOf c' r) = None" "\<not> dc_closed c'" and o: "owners_ok c []" "counted c []"
  shows "map_of (dc_entries c') key = Some r" "ce_ready (entryOf c' r)" "r < length (dc_heap c')"
proof -
  obtain r1 owner c1 where b: "startBegin key c = (r1, owner, c1)" by (metis prod_cases3)
  have "map_of (dc_entries c') key = Some r \<and> ce_ready (entryOf c' r) \<and> r < length (dc_heap c')"
  proof (cases owner)
    case False
    then have s: "r = r1" "c' = c1" "ce_ready (entryOf c1 r)" using assms(1) b by (simp_all add: start_def split: if_splits)
    then have "\<not> dc_closed c" using b assms(3) by (auto simp: startBegin_def split: if_splits option.splits)
    then have c1: "c1 = c" "map_of (dc_entries c) key = Some r" using b False s(1) by (auto simp: startBegin_def split: option.splits)
    have "(key, r) \<in> set (dc_order c)" using o(2) c1(2) by (simp add: counted_def)
    then show ?thesis using owners_okD(1) [OF o(1)] s c1 by auto
  next
    case True
    then have op: "\<not> dc_closed c" "map_of (dc_entries c) key = None" using b by (auto simp: startBegin_def split: if_splits option.splits)
    let ?e = "\<lparr>ce_ready = False, ce_path = [], ce_size = 0, ce_err = None, ce_refs = 0\<rparr>"
    have c1: "r1 = length (dc_heap c)" "c1 = c\<lparr>dc_heap := dc_heap c @ [?e], dc_entries := AList.update key (length (dc_heap c)) (dc_entries c)\<rparr>"
      using b op by (auto simp: startBegin_def)
    obtain res d1 removed c2 where p: "produceInto c1 key run d = Some (res, d1)" "startDone key r1 res c1 = Some (removed, c2)" "r = r1" "c' = closeReady r1 c2"
      using assms(1) b True by (auto simp: start_def split: option.splits)
    note n = new_owner(1) [OF o op, where e = ?e, folded c1(2)]
    have r1: "r1 < length (dc_heap c1)" by (simp add: c1)
    show ?thesis
    proof (cases res)
      case (Inl e)
      then have "ce_err (entryOf c2 r1) = Some e" "r1 < length (dc_heap c2)" using p(2) r1 by (auto simp: startDone_def Let_def split: if_splits)
      then show ?thesis using assms(2) p(3,4) by (simp add: closeReady_def)
    next
      case (Inr q)
      obtain path m where q: "q = (path, m)" by fastforce
      let ?c = "(updEntry r1 (\<lambda>x. x\<lparr>ce_path := path, ce_size := m, ce_err := None\<rparr>) c1)
        \<lparr>dc_order := dc_order c1 @ [(key, r1)], dc_curSize := dc_curSize c1 + m\<rparr>"
      have mem: "(key, r1) \<in> set [(key, length (dc_heap c))]" by (simp add: c1(1))
      have "distinct (map fst (dc_order ?c))" using list_entry(1) [OF n mem, where path = path and n = m] by (simp add: owners_ok_def)
      from evictLocked_ends [OF this, of key "[]"] p(2) have e: "evicts key ?c removed c2"
        by (auto simp: startDone_def Inr q Let_def)
      then have "map_of (dc_entries c2) key = map_of (dc_entries ?c) key" "dc_heap c2 = dc_heap ?c" by (auto simp: evicts_def)
      then show ?thesis using r1 p(3,4) by (simp add: closeReady_def c1)
    qed
  qed
  then show "map_of (dc_entries c') key = Some r" "ce_ready (entryOf c' r)" "r < length (dc_heap c')" by simp_all
qed

lemma Get_again:
  assumes g: "dc_Get key run True c d = Some (Inr h, c', d')" and o: "owners_ok c []" "counted c []"
  shows "\<exists>h' c''. dc_Get key run' True c' d' = Some (Inr h', c'', d') \<and> h_f h' = h_f h \<and> h_e h' = h_e h"
proof -
  obtain r c1 where s: "start key run c d = Some (r, c1, d')" "\<not> dc_closed c1" "ce_err (entryOf c1 r) = None" "openHandle r True c1 d' = (Inr h, c')"
    using g by (auto simp: dc_Get_def split: option.splits if_splits prod.splits)
  note p = start_present [OF s(1,3,2) o]
  obtain bs where h: "d' (ce_path (entryOf c1 r)) = Some bs" "h_f h = Some bs" "h_e h = r" "c' = takeRef r c1"
    using s(4) p(3) by (auto simp: openHandle_def takeRef_def touch_def Let_def split: option.splits)
  have c': "map_of (dc_entries c') key = Some r" "\<not> dc_closed c'" "ce_ready (entryOf c' r)" "ce_err (entryOf c' r) = None"
    "ce_path (entryOf c' r) = ce_path (entryOf c1 r)" "r < length (dc_heap c')"
    using p s(2,3) by (simp_all add: h(4) takeRef_def touch_def)
  then have "start key run' c' d' = Some (r, c', d')" by (simp add: start_def startBegin_def)
  moreover have "\<exists>h' c''. openHandle r True c' d' = (Inr h', c'') \<and> h_f h' = Some bs \<and> h_e h' = r"
    using c'(5,6) h(1) by (simp add: openHandle_def takeRef_def touch_def Let_def)
  ultimately show ?thesis using c'(2,4) h(2,3) by (auto simp: dc_Get_def)
qed

text \<open>Eviction does not look at references: an entry that a reader holds leaves the cache like any other.\<close>

lemma evict_ignores_refs:
  assumes "ce_size (entryOf c r) > dc_maxSize c" "dc_order c = [(key, r)]" "dc_entries c = [(key, r)]" "dc_curSize c = ce_size (entryOf c r)"
    "key \<noteq> ''''" "0 \<le> dc_maxSize c"
  shows "\<exists>c'. Trim c = Some ([ce_path (entryOf c r)], c') \<and> Stats c' = (0, 0)"
  using assms unfolding Trim_def
  by (subst evictLocked.simps) (simp, subst evictLocked.simps, simp add: Stats_def)

end
