(* ===== verification/Spec2Isabelle.thy ===== *)
theory Spec2Isabelle
  imports Page_Correct Single_Flight Check_Correct Search_Fresh Smb_Escape Disk_Cache
begin

text \<open>
  Tie (\<^verbatim>\<open>github.com/uidbz/tie\<close>) is a triple store with services around it. This library models
  the store itself, the package \<^verbatim>\<open>src/tiedb\<close>, operation by operation, with two libraries beside it, and proves what
  its users rely on.

  \<^bold>\<open>The program and its theories.\<close> A collection holds triples (subject, relation, value) of strings.
  Every string is interned as a numbered path of 24-byte chunks; a triple of numbers is a 50-byte record
  at a position (an arena index in memory mode, a file offset in disk mode); a forward index
  (subject to value and relation) and a reverse index (value to subject and relation) map
  entries to positions. A handle opens, closes and drops collections by key.

  \<^item> \<open>Tie_Prelude\<close>: machine types, byte strings, Go maps, sorting, and the locale \<open>kv_store\<close>, the contract of a
    keyed store. \<open>Locked_Tree\<close> (\<^verbatim>\<open>lockedtree.go\<close>) and \<open>Association_Set\<close> (\<^verbatim>\<open>associationset.go\<close>) interpret it on
    the sharded map and on the tiered set; both theories follow the representations of the code.
  \<^item> \<open>Triple_Cache\<close> (\<^verbatim>\<open>triplecache.go\<close>): the LRU of decoded records.
  \<^item> \<open>Record_Format\<close> (\<^verbatim>\<open>datastructures.go\<close>, the decoders of \<^verbatim>\<open>filehandling.go\<close>): the record codec.
    \<open>Collection_State\<close>: the struct \<open>Collection\<close> as the record \<open>collection\<close>.
  \<^item> \<open>Intern\<close> (\<^verbatim>\<open>intern.go\<close>); \<open>Intern_Correct\<close> and \<open>Intern_Insert\<close> show that the value trie is well formed, that a
    value is found again under its number and that numbers never change their value.
  \<^item> \<open>File_Store\<close> (\<^verbatim>\<open>slots.go\<close>, the write queue, the writer goroutine and the reads); \<open>Record_Store\<close> states the
    storage contract as the locale \<open>record_store\<close> and interprets it on the arena and on the disk slots.
  \<^item> \<open>Assoc_Index\<close> (\<^verbatim>\<open>assoc.go\<close>); \<open>Index_Correct\<close> defines the invariant \<open>coll_wf\<close> and the abstraction \<open>triples\<close>, the
    set of string triples, and shows that the writes refine insertion and removal.
  \<^item> \<open>Batch\<close> (\<^verbatim>\<open>assoc.go\<close>, \<^verbatim>\<open>apply.go\<close>, \<^verbatim>\<open>mkdir.go\<close>); \<open>Write_Correct\<close> and \<open>Batch_Correct\<close>: composite writes on that
    set, batches that are applied whole or not at all, one owner per directory.
  \<^item> \<open>Sort_Page\<close> (\<^verbatim>\<open>sort.go\<close>) and \<open>Query\<close> (\<^verbatim>\<open>query.go\<close>, \<^verbatim>\<open>cotags.go\<close>); \<open>Query_Correct\<close>, \<open>Query_Algebra\<close> and
    \<open>Page_Correct\<close>: lookups and tag queries as set algebra, the pages, and where paging panics or loses rows.
  \<^item> \<open>Check_Index\<close> (\<^verbatim>\<open>checkindex.go\<close>); \<open>Check_Correct\<close>: no false alarm, and a repair restores the reverse index.
  \<^item> \<open>Load_DB\<close> (\<^verbatim>\<open>filehandling.go\<close>, \<open>initialize\<close>) and \<open>Tie_Tree\<close> (\<^verbatim>\<open>tietree.go\<close>, \<^verbatim>\<open>collection.go\<close>, \<^verbatim>\<open>lock_unix.go\<close>);
    \<open>Load_Correct\<close> and \<open>Handle_Correct\<close>: a file loads back to the triples it was written from, after a close, a
    sync or a torn tail; \<open>Single_Flight\<close>: concurrent opens and drops as a step relation.
  \<^item> \<open>Edit_Distance\<close>, \<open>Search_Match\<close> (\<^verbatim>\<open>search_match.go\<close>), \<open>Array_Heap\<close> (\<^verbatim>\<open>container/heap\<close>, the locale \<open>bounded_best\<close>)
    and \<open>Search\<close> (\<^verbatim>\<open>search.go\<close>); \<open>Search_Correct\<close>, \<open>Corpus_Correct\<close> and \<open>Search_Fresh\<close>: scores, ranking, what a corpus
    holds, and a cache that is never stale in any reachable state.
  \<^item> \<open>Smb_Escape\<close> (\<^verbatim>\<open>io/smbfs/escape.go\<close>): file names for Windows clients, reversible and legal. \<open>Disk_Cache\<close>
    (\<^verbatim>\<open>internal/diskcache\<close>): the disk cache of the mounts and the file host, its critical sections interleaved by \<open>dc_step\<close>;
    accounting, eviction, and what a second \<open>Get\<close> returns. Neither depends on the store.

  \<^bold>\<open>How the code is read.\<close> An operation takes the collection and returns it updated with its result,
  errors as values, and \<open>None\<close> for a Go panic. An operation that the code runs under \<open>changeMutex\<close> is one
  step; a read of the code may run beside a write, and the model reads one state. The writer
  goroutine is a step function on the queue, so that every interleaving of writes and writer steps is a
  sequence of operations; \<open>op_step\<close> and \<open>handle_step\<close> are step relations over them. Machine words wrap; \<open>int\<close>
  is unbounded except where the code can reach its bound (\<open>int_add\<close> of a page's end).

  \<^bold>\<open>Parameters.\<close> The Unicode tables and the text normalisation (\<open>unicode\<close>), the float parser of numeric sort (\<open>pf\<close>),
  the files, locks and failures of the operating system (\<open>world\<close>), the order in which the load workers take the
  records (\<open>schedule\<close>), the outcomes of two-way \<open>select\<close>s (\<open>selects\<close>), and the producers and the layout of the disk cache. A property that needs something of one of
  them says so in a hypothesis, and its witness has an instance.

  \<^bold>\<open>Bounds.\<close> \<open>room n ic\<close> says that \<open>n\<close> more entries do not overflow the 64-bit counter; \<open>storable\<close> that a string
  does not end in a zero byte and is shorter than \<open>2 ^ 62\<close> bytes. Loops are structural recursions or have
  a termination proof; the eviction loop of the disk cache, which would not end on a list with one key twice, is a
  partial function shown to return in every reachable state. The development uses no fuel.

  \<^bold>\<open>Not modelled.\<close> In \<^verbatim>\<open>tiedb\<close>: logging, the debug printers, garbage-collector tuning and the ticker of the periodic sync.
  Outside it: the JSON carriers of \<^verbatim>\<open>api\<close>, the HTTP service and its clients (\<^verbatim>\<open>webservice\<close>, \<^verbatim>\<open>client\<close>, \<^verbatim>\<open>auth\<close>,
  \<^verbatim>\<open>runclient\<close>, \<^verbatim>\<open>python\<close>), whose effects are requests to a server; the other mounts and transfer
  libraries of \<^verbatim>\<open>io\<close>, the job runner and its scheduler (\<^verbatim>\<open>runner\<close>), which drive containers and remote machines, and the media parsers of \<^verbatim>\<open>metadata\<close>, adapters over other libraries and formats; and the
  command-line tools.
\<close>

section \<open>Writes refine operations on a set of triples\<close>

text \<open>
  C1. \<open>Add\<close> on a healthy, writable collection succeeds, keeps the invariants, and makes the set of
  stored triples grow by exactly the given triple.
\<close>

theorem Add_refines_insert:
  assumes "writable ic" "storable3 s r v" "room (need3 s r v) ic"
  shows "fst (Add s r v ic) = None \<and> writable (snd (Add s r v ic)) \<and>
    triples (snd (Add s r v ic)) = insert \<lparr>Key = s, Value1 = r, Value2 = v\<rparr> (triples ic)"
proof -
  obtain e ic' where a: "addLocked s r v ic = (e, ic')" by (metis surj_pair)
  from addLocked_spec [OF assms a] assms(1) a show ?thesis
    by (simp add: Add_def writable_def same_config_def)
qed

theorem Add_refines_insert_witness:
  "let ic = newCollection False False None None 0 in
     fst (Add ''song'' ''tag'' ''live'' ic) = None \<and>
     triples (snd (Add ''song'' ''tag'' ''live'' ic)) = {\<lparr>Key = ''song'', Value1 = ''tag'', Value2 = ''live''\<rparr>}"
proof -
  let ?ic = "newCollection False False None None 0"
  have "storable3 ''song'' ''tag'' ''live''" by (simp add: storable3_def storable_short)
  moreover have "room (need3 ''song'' ''tag'' ''live'') ?ic" by (simp add: need3_def need_def room_newMemory)
  ultimately show ?thesis
    using Add_refines_insert [of ?ic "''song''" "''tag''" "''live''"] writable_newMemory [of None 0]
      wf_newMemory(2) [of None False None 0] by (simp add: Let_def)
qed

text \<open>
  C2. \<open>Delete\<close> removes exactly the given triple, reports success exactly when it was stored, and
  names what was missing otherwise: the subject when no value of that name was ever interned, the
  value under its relation when the subject exists.
\<close>

theorem Delete_refines_remove:
  assumes "writable ic" "storable3 s r v" "Delete s r v ic = ((msg, ok), ic')"
  shows "writable ic' \<and> triples ic' = triples ic - {trip s r v} \<and> (ok \<longleftrightarrow> trip s r v \<in> triples ic) \<and>
    msg = (if ok then Text '''' else if lookupEntry ic s = None then didNotFindKey s else didNotFindValue r v)"
proof -
  have w: "coll_wf ic" "\<not> readOnly ic" using assms(1) by (simp_all add: writable_def)
  note d = deleteLocked_trip [OF w assms(2) assms(3) [unfolded Delete_def]]
  show ?thesis using d writable_config [OF assms(1) d(1,5)] by auto
qed

theorem Delete_refines_remove_witness:
  "triples (snd (Delete ''b'' ''tag'' ''x'' twoTagged)) = {stA} \<and> snd (fst (Delete ''b'' ''tag'' ''x'' twoTagged))"
proof -
  obtain msg ok ic' where d: "Delete ''b'' ''tag'' ''x'' twoTagged = ((msg, ok), ic')" by (metis surj_pair)
  from Delete_refines_remove [OF twoTagged_facts(1) storable_examples(2) d] show ?thesis
    unfolding d twoTagged_facts(2) trip_def by auto
qed

text \<open>
  C3. A batch is all or nothing. When every op passes validation against the triples at the start,
  \<open>Apply\<close> applies all of them in order and the set of triples is the fold of their effects; when one
  does not, it reports an error, counts zero ops and leaves the triples as they were.
\<close>

theorem Apply_all_or_nothing:
  assumes "writable ic" "\<forall>op \<in> set ops. op_ok op" "room (sum_list (map op_need ops)) ic"
    and "Apply ops ic = ((n, e), ic')"
  shows "writable ic' \<and>
    (if \<forall>op \<in> set ops. op_valid (triples ic) op
     then n = length ops \<and> e = None \<and> triples ic' = fold op_effect ops (triples ic)
     else n = 0 \<and> e \<noteq> None \<and> triples ic' = triples ic)"
  using Apply_spec [OF assms] by auto

definition exampleOps :: "Op list" where
  "exampleOps =
     [\<lparr>Kind = OpUpdate, op_Key = ''b'', op_Relation = ''tag'', Values = [''x''], NewValue = ''y''\<rparr>,
      \<lparr>Kind = OpDelete, op_Key = ''a'', op_Relation = ''tag'', Values = [''x''], NewValue = ''''\<rparr>]"

theorem Apply_all_or_nothing_witness:
  "fst (Apply exampleOps twoTagged) = (2, None) \<and> triples (snd (Apply exampleOps twoTagged)) = {trip ''b'' ''tag'' ''y''}"
proof -
  obtain n e ic' where a: "Apply exampleOps twoTagged = ((n, e), ic')" by (metis surj_pair)
  have ok: "\<forall>op \<in> set exampleOps. op_ok op"
    by (simp add: exampleOps_def op_ok_def storable_short) (simp add: storable_def nul_free_end_def)
  have room: "room (sum_list (map op_need exampleOps)) twoTagged"
    by (rule twoTagged_room) (simp add: exampleOps_def op_need_def first_def need3_def need_def)
  have "\<forall>op \<in> set exampleOps. op_valid (triples twoTagged) op"
    by (simp add: exampleOps_def op_valid_def op_kinds first_def twoTagged_facts(2) trip_def)
  moreover have "fold op_effect exampleOps (triples twoTagged) = {trip ''b'' ''tag'' ''y''}"
    by (auto simp: exampleOps_def op_effect_def op_kinds first_def twoTagged_facts(2) trip_def Let_def)
  ultimately show ?thesis
    using Apply_all_or_nothing [OF twoTagged_facts(1) ok room a] a by (auto simp: exampleOps_def)
qed

section \<open>Reads\<close>

text \<open>
  C4. \<open>Get\<close> returns exactly the values the subject holds under the relation, each once and in
  order, and \<open>None\<close> exactly when there is none; the collection is left as it was.
\<close>

theorem Get_returns_values:
  assumes "coll_wf ic" "storable s" "storable r" "r \<noteq> ''''" "Get s r ic = (res, ic')"
  shows "quiet ic ic' \<and> triples ic' = triples ic \<and>
    (case res of
       None \<Rightarrow> valuesOf ic s r = {}
     | Some vs \<Rightarrow> vs \<noteq> [] \<and> set vs = valuesOf ic s r \<and> distinct vs \<and> sorted vs)"
proof -
  note g = Get_spec [OF assms]
  have "vs \<noteq> []" if "res = Some vs" for vs
    using g(2) g(3) [OF that] that by auto
  with g quietD(2) [OF assms(1) g(1)] show ?thesis by (auto split: option.splits)
qed

theorem Get_returns_values_witness: "fst (Get ''b'' ''tag'' twoTagged) = Some [''x'']"
proof -
  have wf: "coll_wf twoTagged" using twoTagged_facts(1) by (simp add: writable_def)
  obtain res ic' where g: "Get ''b'' ''tag'' twoTagged = (res, ic')" by (metis surj_pair)
  have v: "valuesOf twoTagged ''b'' ''tag'' = {''x''}" by (simp add: valuesOf_def twoTagged_facts(2))
  have "storable ''b''" by (simp add: storable_short)
  from Get_returns_values [OF wf this storable_examples(4) _ g] v obtain vs where
    "res = Some vs" "set vs = {''x''}" "distinct vs" by (auto split: option.splits)
  then show ?thesis using g distinct_singleton [of vs "''x''"] by simp
qed

text \<open>
  C5. \<open>GetReverse\<close> returns exactly the subjects that hold the value under the relation, each once
  and in order, for the relations the collection indexes in reverse; for any other relation it finds
  none.
\<close>

theorem GetReverse_returns_subjects:
  assumes "coll_wf ic" "storable v" "storable r" "r \<noteq> ''''" "GetReverse v r ic = (res, ic')"
  shows "quiet ic ic' \<and>
    (case res of
       None \<Rightarrow> subjectsOf ic v r = {}
     | Some ks \<Rightarrow> set ks = subjectsOf ic v r \<and> distinct ks \<and> sorted ks)"
  using GetReverse_spec [OF assms] by (auto split: option.splits)

theorem GetReverse_returns_subjects_witness:
  "\<exists>ks. fst (GetReverse ''x'' ''tag'' twoTagged) = Some ks \<and> set ks = {''a'', ''b''}"
proof -
  have wf: "coll_wf twoTagged" using twoTagged_facts(1) by (simp add: writable_def)
  obtain res ic' where g: "GetReverse ''x'' ''tag'' twoTagged = (res, ic')" by (metis surj_pair)
  have "subjectsOf twoTagged ''x'' ''tag'' = {''a'', ''b''}"
    by (auto simp: subjectsOf_def twoTagged_facts(2,7) reverseIndexed_def)
  then show ?thesis
    using GetReverse_returns_subjects [OF wf storable_examples(3,4) _ g] g by (auto split: option.splits)
qed

text \<open>
  C6. A tag query answers its set algebra. For a reverse query over \<open>Include\<close> terms, \<open>QueryTags\<close>
  without a limit returns exactly the triples that match: the first term by value, every other
  \<open>Include\<close> term carried by the same subject under the same relation, no \<open>Exclude\<close> term carried, the
  subject in \<open>Scope\<close>, holding \<open>HasRelation\<close> and lacking \<open>MissingRelation\<close>. It never panics.
\<close>

theorem QueryTags_matches:
  assumes wf: "coll_wf ic" and q: "Reverse q" "Include q \<noteq> []" "query_storable q" "Filter q = ''''"
    "SortOpts q = unlimited"
    and res: "QueryTags pf q ic = (res, ic')"
  shows "\<exists>sts n found. res = Some (sts, n, found) \<and> n = length sts \<and> distinct sts \<and>
    set sts = {st \<in> triples ic. query_matches ic q st} \<and>
    (found \<longleftrightarrow> lookupEntry ic (hd (Include q)) \<noteq> None)"
proof -
  obtain r ic1 where rq: "resolveQuery q ic = (r, ic1)" by (metis surj_pair)
  note rs = resolveQuery_spec [OF wf q(1-3) rq]
  show ?thesis
  proof (cases r)
    case (Matches cur)
    note sel = rs(3) [OF Matches]
    note qd = quietD [OF wf rs(1)]
    note se = selects_entries [OF wf sel]
    note str = entries_strings [OF wf se(1,2)]
    have "sound ic1 (as_ForEach cur)" using se(3) sound_quiet [OF wf rs(1)] by simp
    from SortAll_any [OF qd(1) this, of pf] obtain ic2 where
      s: "Sort pf cur '''' unlimited ic1 =
        (Some (sort_by compareTriples (map (strOf ic1) (as_ForEach cur)), length (as_ForEach cur)), ic2)" by blast
    have eq: "strOf ic1 = strOf ic" by (rule strOf_quiet [OF wf rs(1)])
    have all: "set (map (strOf ic) (as_ForEach cur)) = {st \<in> triples ic. query_matches ic q st}"
      unfolding str(1) by (auto simp: triples_def)
    have "res = Some (sort_by compareTriples (map (strOf ic) (as_ForEach cur)), length (as_ForEach cur), True)"
      using res rq Matches s q(4,5) eq by (simp add: QueryTags_def GetPage_def)
    with all str(2) rs(5) Matches show ?thesis by auto
  qed (use res rq rs(2,4,5) in \<open>auto simp: QueryTags_def\<close>)
qed

theorem QueryTags_matches_witness:
  "\<exists>sts. fst (QueryTags (\<lambda>_. None) (queryFor ''x'' unlimited) twoTagged) = Some (sts, 2, True) \<and> set sts = {stA, stB}"
proof -
  let ?q = "queryFor ''x'' unlimited"
  have wf: "coll_wf twoTagged" using twoTagged_facts(1) by (simp add: writable_def)
  obtain res ic' where g: "QueryTags (\<lambda>_. None) ?q twoTagged = (res, ic')" by (metis surj_pair)
  have s: "query_storable ?q" by (simp add: storable_def nul_free_end_def)
  have m: "{st \<in> triples twoTagged. query_matches twoTagged ?q st} = {stA, stB}"
    by (auto simp: twoTagged_facts(2,7) reverseIndexed_def)
  obtain sts found where r: "res = Some (sts, length sts, found)" "distinct sts" "set sts = {stA, stB}"
    "found \<longleftrightarrow> lookupEntry twoTagged ''x'' \<noteq> None"
    using QueryTags_matches [OF wf _ _ s _ _ g] m by auto
  from two_elements [OF r(2,3)] have "length sts = 2" by auto
  with r g twoTagged_facts(5) show ?thesis by auto
qed

section \<open>Composite writes\<close>

text \<open>
  C7. \<open>Update\<close> replaces a value and does nothing when the old one is missing; \<open>UpdateAdd\<close> adds the
  new value either way. The result says which, and carries the message of the failed delete.
\<close>

theorem Update_replaces:
  assumes "writable ic" "storable s" "storable r" "storable v" "storable v'" "room (need3 s r v') ic"
    and "Update s r v v' ic = ((m, ok), ic')" and "UpdateAdd s r v v' ic = ((m', ok'), ic'')"
  shows "writable ic' \<and> writable ic'' \<and> ok' \<and> (ok \<longleftrightarrow> trip s r v \<in> triples ic) \<and>
    triples ic' = (if ok then insert (trip s r v') (triples ic - {trip s r v}) else triples ic) \<and>
    triples ic'' = insert (trip s r v') (triples ic - {trip s r v}) \<and>
    m = (if ok then Text '''' else if lookupEntry ic s = None then didNotFindKey s else didNotFindValue r v)"
proof -
  have w: "coll_wf ic" "\<not> readOnly ic" and st: "storable3 s r v"
    using assms by (simp_all add: writable_def storable3_def)
  obtain d b ic1 where d: "deleteLocked s r v ic = ((d, b), ic1)" by (metis surj_pair)
  obtain e ic2 where a: "addLocked s r v' ic1 = (e, ic2)" by (metis surj_pair)
  note ds = deleteLocked_trip [OF w st d]
  note rs = replace_spec [OF assms(1-6) d a]
  have w1: "writable ic1" by (rule writable_config [OF assms(1) ds(1,5)])
  have "ic'' = ic2 \<and> ok'" using assms(8) w(2) d a rs(1) by (simp add: UpdateAdd_def)
  moreover have "ok = b \<and> ic' = (if b then ic2 else ic1) \<and> m = (if b then Text '''' else d)"
    using assms(7) w(2) d a rs(1) by (cases b) (auto simp: Update_def)
  ultimately show ?thesis using rs ds(2,3) w1 by auto
qed

theorem Update_replaces_witness:
  "triples (snd (Update ''b'' ''tag'' ''x'' ''y'' twoTagged)) = {stA, trip ''b'' ''tag'' ''y''}"
proof -
  obtain m ok ic' where u: "Update ''b'' ''tag'' ''x'' ''y'' twoTagged = ((m, ok), ic')" by (metis surj_pair)
  obtain m' ok' ic'' where ua: "UpdateAdd ''b'' ''tag'' ''x'' ''y'' twoTagged = ((m', ok'), ic'')" by (metis surj_pair)
  have st: "storable ''b''" "storable ''tag''" "storable ''x''" "storable ''y''" by (simp_all add: storable_short)
  have "room (need3 ''b'' ''tag'' ''y'') twoTagged" by (rule twoTagged_room) (simp add: need3_def need_def)
  from Update_replaces [OF twoTagged_facts(1) st this u ua] show ?thesis
    unfolding u twoTagged_facts(2) by (auto simp: trip_def)
qed

text \<open>
  C8. \<open>SetValues\<close> makes the given values the values of the relation and touches nothing else;
  \<open>SimpleUpdate\<close> does so with one value, and for a relation without values only when asked to.
\<close>

theorem SetValues_replaces:
  assumes "writable ic" "storable s" "storable r" "r \<noteq> ''''" "\<forall>u \<in> set vs. storable u" "storable v"
    and "room (needEach s r vs) ic" "room (need3 s r v) ic"
    and "SimpleUpdate s r v addOnFail ic = ((m, ok), ic')"
  shows "writable (SetValues s r vs ic) \<and> writable ic' \<and>
    triples (SetValues s r vs ic) = otherThan s r (triples ic) \<union> trip s r ` set vs \<and>
    (ok \<longleftrightarrow> addOnFail \<or> otherThan s r (triples ic) \<noteq> triples ic) \<and>
    triples ic' = (if ok then otherThan s r (triples ic) \<union> {trip s r v} else triples ic)"
  using setValuesLocked_spec [OF assms(1-3,5,7)] SimpleUpdate_spec [OF assms(1-3,6,8,9)] assms(4)
  by (simp add: SetValues_def)

theorem SetValues_replaces_witness:
  "triples (SetValues ''b'' ''tag'' [''y'', ''z''] twoTagged) = {stA, trip ''b'' ''tag'' ''y'', trip ''b'' ''tag'' ''z''}"
proof -
  have st: "storable ''b''" "storable ''tag''" "\<forall>u \<in> set [''y'', ''z'']. storable u" "storable ''y''"
    by (simp_all add: storable_short)
  have room: "room (needEach ''b'' ''tag'' [''y'', ''z'']) twoTagged" "room (need3 ''b'' ''tag'' ''y'') twoTagged"
    by (rule twoTagged_room, simp add: needEach_def need3_def need_def)+
  obtain m ok ic' where u: "SimpleUpdate ''b'' ''tag'' ''y'' False twoTagged = ((m, ok), ic')" by (metis surj_pair)
  have o: "otherThan ''b'' ''tag'' (triples twoTagged) = {stA}"
    by (auto simp: otherThan_def twoTagged_facts(2))
  from SetValues_replaces [OF twoTagged_facts(1) st(1,2) _ st(3,4) room u] show ?thesis
    unfolding o by auto
qed




section \<open>Refused writes\<close>



section \<open>Storage\<close>

text \<open>
  C11. Interning round trip. Inserting a value gives it an id under which it is read back, under
  which a later lookup finds it, and which no other storable value has; the values interned before
  keep theirs.
\<close>

theorem insertLocked_roundtrip:
  assumes "coll_wf ic" "storable v" "room (need v) ic" "insertLocked v ic = ((i, l), ic')"
  shows "getValueString ic' l i = v \<and> fst (getEntryFromString v ic') = Some (i, l) \<and>
    (\<forall>w j k. storable w \<and> lookupEntry ic' w = Some (j, k) \<and> w \<noteq> v \<longrightarrow> j \<noteq> i) \<and>
    (\<forall>w e. lookupEntry ic w = Some e \<longrightarrow> lookupEntry ic' w = Some e)"
proof -
  note w = wfD [OF assms(1)]
  note ins = insertLocked_spec [OF w(1,2) assms(2-4)]
  note wf' = grows_wf(1) [OF ins(1)]
  obtain e ic'' where g: "getEntryFromString v ic' = (e, ic'')" by (metis surj_pair)
  have "coll_wf ic'" by (rule wf_grows(1) [OF assms(1) ins(1)])
  from getEntryFromString_quiet(1) [OF this g] ins(2) g
  have "fst (getEntryFromString v ic') = Some (i, l)" by simp
  moreover have "j \<noteq> i" if "storable u" "lookupEntry ic' u = Some (j, k)" "u \<noteq> v" for u j k
    using that ins(2) lookupEntry_inject(1) [OF wf' that(1) assms(2)] by auto
  ultimately show ?thesis
    using lookupEntry_value [OF wf' assms(2) ins(2)] lookupEntry_grows [OF w(1) ins(1)] by blast
qed

theorem insertLocked_roundtrip_witness:
  "let ((i, l), ic') = insertLocked ''song'' (newCollection False False None None 0) in getValueString ic' l i = ''song''"
proof -
  let ?new = "newCollection False False None None 0"
  obtain i l ic' where ins: "insertLocked ''song'' ?new = ((i, l), ic')" by (metis surj_pair)
  have "coll_wf ?new" using writable_newMemory by (simp add: writable_def)
  moreover have "room (need ''song'') ?new" by (simp add: need_def room_newMemory)
  ultimately show ?thesis
    using insertLocked_roundtrip [of ?new "''song''" i l ic'] ins by (simp add: storable_short)
qed





text \<open>
  C14. The indexes are maps. On the sharded \<open>lockedTree\<close> and on the three representations of an
  \<open>AssociationSet\<close>, a put and a delete change exactly the one key, enumeration visits every entry
  once, the size is the number of keys, and every operation keeps the representation invariant
  (each key in its own shard, no key twice, at most \<open>shardThreshold\<close> entries before sharding).
\<close>

theorem index_refines_map:
  assumes "lt_inv t" "as_inv s"
  shows "lt_inv (lt_Put k v t) \<and> lt_inv (lt_Delete k t) \<and>
    lt_Get (lt_Put k v t) = (lt_Get t)(k \<mapsto> v) \<and> lt_Get (lt_Delete k t) = (lt_Get t)(k := None) \<and>
    map_of (lt_ForEach t) = lt_Get t \<and> distinct (map fst (lt_ForEach t)) \<and> lt_Size t = card (dom (lt_Get t)) \<and>
    as_inv (as_Put ua p s) \<and> as_inv (as_Delete ua s) \<and>
    as_Get (as_Put ua p s) = (as_Get s)(ua \<mapsto> p) \<and> as_Get (as_Delete ua s) = (as_Get s)(ua := None) \<and>
    map_of (as_ForEach s) = as_Get s \<and> distinct (map fst (as_ForEach s)) \<and> as_Size s = card (dom (as_Get s))"
  using lt.map_of_entries [OF assms(1)] lt.distinct_entries [OF assms(1)] lt.size_of_card [OF assms(1)]
    as.map_of_entries [OF assms(2)] as.distinct_entries [OF assms(2)] as.size_of_card [OF assms(2)]
  by (simp add: assms as.get_put as.get_del as.inv_put as.inv_del)

theorem index_refines_map_witness:
  "as_Get (as_Put \<lparr>AssociateTo = 1, Relation = 2\<rparr> 50 newAssociationSet) =
     [\<lparr>AssociateTo = 1, Relation = 2\<rparr> \<mapsto> 50]"
  using index_refines_map [of "newLockedTree uint64Hash :: (u64, int) lockedTree" newAssociationSet] by simp

text \<open>
  C15. The set algebra of queries. \<open>intersect\<close> keeps the entries whose key is in the other set,
  \<open>intersectByAssociate\<close> those whose subject occurs in it under any relation, \<open>exclude\<close> those whose
  key does not occur in it; positions are those of the receiver.
\<close>

theorem association_algebra:
  assumes "as_inv s" "as_inv other"
  shows "as_Get (intersect s other) k = (if as_Get other k \<noteq> None then as_Get s k else None) \<and>
    as_Get (exclude s other) k = (if as_Get other k = None then as_Get s k else None) \<and>
    as_Get (intersectByAssociate s other) k =
      (if \<exists>k'. AssociateTo k' = AssociateTo k \<and> as_Get other k' \<noteq> None then as_Get s k else None) \<and>
    (HasRelation s r \<longleftrightarrow> (\<exists>k. Relation k = r \<and> as_Get s k \<noteq> None))"
  by (intro conjI as_Get_intersect as_Get_exclude as_Get_intersectByAssociate HasRelation_iff assms)

theorem association_algebra_witness:
  "let s = as_Put \<lparr>AssociateTo = 1, Relation = 2\<rparr> 50 (as_Put \<lparr>AssociateTo = 3, Relation = 2\<rparr> 100 newAssociationSet);
       other = as_Put \<lparr>AssociateTo = 1, Relation = 9\<rparr> 150 newAssociationSet
   in as_Get (intersectByAssociate s other) \<lparr>AssociateTo = 3, Relation = 2\<rparr> = None"
proof -
  let ?s = "as_Put \<lparr>AssociateTo = 1, Relation = 2\<rparr> 50 (as_Put \<lparr>AssociateTo = 3, Relation = 2\<rparr> 100 newAssociationSet)"
    and ?other = "as_Put \<lparr>AssociateTo = 1, Relation = 9\<rparr> 150 newAssociationSet"
  have inv: "as_inv ?s" "as_inv ?other" by (simp_all add: as.inv_put)
  have "as_Get ?other = [\<lparr>AssociateTo = 1, Relation = 9\<rparr> \<mapsto> 150]" by (simp add: as.get_put)
  with association_algebra [OF inv, of "\<lparr>AssociateTo = 3, Relation = 2\<rparr>" 2] show ?thesis
    by (simp add: Let_def split: if_splits)
qed



section \<open>Pages\<close>

definition pageOpts :: "int \<Rightarrow> int \<Rightarrow> SortOptions" where
  "pageOpts off n = \<lparr>Offset = off, Limit = n, SortBy = '''', SortByValue = '''',
     SortByValueNumeric = False, Descending = False\<rparr>"

text \<open>
  C17. A page of a query in the default order holds only matches, none twice, as many as the limit
  and the offset leave, and comes with the number of all matches. The request does not panic as long
  as \<open>Offset + Limit\<close> fits an \<open>int\<close>.
\<close>

theorem QueryTags_page:
  assumes wf: "coll_wf ic" and q: "Reverse q" "Include q \<noteq> []" "query_storable q" "Filter q = ''''"
    and o: "default_order (SortOpts q)" "Offset (SortOpts q) + Limit (SortOpts q) < 2 ^ 63"
    and found: "st0 \<in> triples ic" "query_matches ic q st0" and res: "QueryTags pf q ic = (res, ic')"
  shows "\<exists>sts n. res = Some (sts, n, True) \<and> n = card {st \<in> triples ic. query_matches ic q st} \<and>
    distinct sts \<and> set sts \<subseteq> {st \<in> triples ic. query_matches ic q st} \<and>
    length sts = min (nat (Limit (SortOpts q))) (n - nat (Offset (SortOpts q)))"
proof -
  obtain cur where sel: "selects ic cur (query_matches ic q)" and
    r: "res = Some (page_of (SortOpts q) ic (as_ForEach cur), length (as_ForEach cur), True)"
    by (rule QueryTags_paged [OF assms])
  note se = selects_entries [OF wf sel]
  note str = entries_strings [OF wf se(1,2)]
  have all: "set (map (strOf ic) (as_ForEach cur)) = {st \<in> triples ic. query_matches ic q st}"
    unfolding str(1) by (auto simp: triples_def)
  have n: "length (as_ForEach cur) = card {st \<in> triples ic. query_matches ic q st}"
    using distinct_card [OF str(2)] unfolding all by simp
  note p = page_of_spec [OF o(1) str(2)]
  from r n p(1) p(2) [unfolded all] p(3) show ?thesis by blast
qed

theorem QueryTags_page_witness:
  "\<exists>st. fst (QueryTags (\<lambda>_. None) (queryFor ''x'' (pageOpts 0 1)) twoTagged) = Some ([st], 2, True)"
proof -
  let ?q = "queryFor ''x'' (pageOpts 0 1)"
  have wf: "coll_wf twoTagged" using twoTagged_facts(1) by (simp add: writable_def)
  obtain res ic' where g: "QueryTags (\<lambda>_. None) ?q twoTagged = (res, ic')" by (metis surj_pair)
  have s: "query_storable ?q" by (simp add: storable_def nul_free_end_def)
  have o: "default_order (SortOpts ?q)" "Offset (SortOpts ?q) + Limit (SortOpts ?q) < 2 ^ 63"
    by (simp_all add: default_order_def pageOpts_def)
  have m: "{st \<in> triples twoTagged. query_matches twoTagged ?q st} = {stA, stB}"
    by (auto simp: twoTagged_facts(2,7) reverseIndexed_def)
  then have st: "stA \<in> triples twoTagged" "query_matches twoTagged ?q stA" by blast+
  have "card {stA, stB} = 2" by simp
  then obtain sts where "res = Some (sts, 2, True)" "length sts = 1"
    using QueryTags_page [OF wf _ _ s _ o st g] unfolding m by (auto simp: pageOpts_def)
  with g show ?thesis by (auto simp: length_Suc_conv)
qed

text \<open>
  C18. Pages of one query need not fit together. With two subjects tagged in reverse alphabetical
  order, the page at offset 0 and the page at offset 1 of limit 1 are the same triple and the other
  match is on neither: a page that is not the last is cut in the order of the entry ids, the last
  one in the order of the strings.
\<close>

theorem pages_repeat_and_skip:
  "fst (QueryTags pf (queryFor ''x'' (pageOpts 0 1)) twoTagged) = Some ([stB], 2, True) \<and>
   fst (QueryTags pf (queryFor ''x'' (pageOpts 1 1)) twoTagged) = Some ([stB], 2, True) \<and>
   {st \<in> triples twoTagged. query_matches twoTagged (queryFor ''x'' unlimited) st} = {stA, stB}"
proof -
  have wf: "coll_wf twoTagged" using twoTagged_facts(1) by (simp add: writable_def)
  have all: "query_matches twoTagged (queryFor ''x'' o') st" if "st \<in> triples twoTagged" for st o'
    using that by (auto simp: twoTagged_facts(2,7) reverseIndexed_def)
  have st: "stA \<in> triples twoTagged" by (simp add: twoTagged_facts(2))
  have "fst (QueryTags pf (queryFor ''x'' (pageOpts off 1)) twoTagged) = Some ([stB], 2, True)" if "off \<in> {0, 1}" for off
  proof -
    let ?q = "queryFor ''x'' (pageOpts off 1)"
    obtain res ic' where g: "QueryTags pf ?q twoTagged = (res, ic')" by (metis surj_pair)
    have s: "query_storable ?q" by (simp add: storable_def nul_free_end_def)
    have o: "default_order (SortOpts ?q)" "Offset (SortOpts ?q) + Limit (SortOpts ?q) < 2 ^ 63"
      using that by (auto simp: default_order_def pageOpts_def)
    obtain cur where sel: "selects twoTagged cur (query_matches twoTagged ?q)" and
      r: "res = Some (page_of (SortOpts ?q) twoTagged (as_ForEach cur), length (as_ForEach cur), True)"
      by (rule QueryTags_paged [OF wf _ _ s _ o st all [OF st] g]) simp_all
    note tp = twoTagged_pages [OF sel all, of "pageOpts off 1"]
    show ?thesis using that r g tp by (auto simp: pageOpts_def)
  qed
  then show ?thesis using all by (auto simp: twoTagged_facts(2))
qed

text \<open>
  C19. A page request whose end does not fit an \<open>int\<close> panics: with \<open>Offset\<close> within the matches and
  \<open>Offset + Limit\<close> past \<open>2 ^ 63 - 1\<close>, the sum wraps to a negative bound of the slice.
\<close>

theorem page_overflow_panics:
  assumes "default_order o'" "Offset o' < 2 ^ 63" "Limit o' < 2 ^ 63" "2 ^ 63 \<le> Offset o' + Limit o'"
    and "Offset o' \<le> int (length (as_ForEach tree))" "coll_wf ic"
  shows "fst (Sort pf tree '''' o' ic) = None"
proof -
  have fl: "filterFor ic '''' = Some None" by (simp add: filterFor_def)
  from Sort_paged [OF assms(1) fl assms(6), of pf tree] obtain ic1 where
    "Sort pf tree '''' o' ic =
      (case sortPaged tree None o' ic1 of (Some page, ic2) \<Rightarrow> (page, ic2) | (None, ic2) \<Rightarrow> (None, ic2))" by blast
  then show ?thesis using sortPaged_overflow [OF assms(1-4), of None tree ic1] assms(5) by (simp add: matching_def)
qed

theorem page_overflow_panics_witness:
  "fst (Sort (\<lambda>_. None) (as_Put \<lparr>AssociateTo = 1, Relation = 2\<rparr> 0 newAssociationSet) ''''
     (pageOpts 1 (2 ^ 63 - 1)) twoTagged) = None"
proof -
  let ?s = "as_Put \<lparr>AssociateTo = 1, Relation = 2\<rparr> 0 newAssociationSet"
  have wf: "coll_wf twoTagged" using twoTagged_facts(1) by (simp add: writable_def)
  have "length (as_ForEach ?s) = 1" by code_simp
  then show ?thesis
    using page_overflow_panics [of "pageOpts 1 (2 ^ 63 - 1)" ?s twoTagged "\<lambda>_. None"] wf
    by (simp add: default_order_def pageOpts_def)
qed

section \<open>Enumeration and the writer\<close>

text \<open>
  C20. \<open>ForEachTriple\<close> hands out every stored triple exactly once and nothing else, so a backup
  written from it is complete.
\<close>

theorem ForEachTriple_complete:
  assumes "coll_wf ic" "ForEachTriple ic = (sts, ic')"
  shows "set sts = triples ic \<and> distinct sts \<and> length sts = card (triples ic) \<and> triples ic' = triples ic"
  using ForEachTriple_spec [OF assms] quietD(2) [OF assms(1)] distinct_card [of sts] by auto

theorem ForEachTriple_complete_witness: "length (fst (ForEachTriple twoTagged)) = 2"
proof -
  have wf: "coll_wf twoTagged" using twoTagged_facts(1) by (simp add: writable_def)
  obtain sts ic' where f: "ForEachTriple twoTagged = (sts, ic')" by (metis surj_pair)
  have "card (triples twoTagged) = 2" by (simp add: twoTagged_facts(2))
  with ForEachTriple_complete [OF wf f] f show ?thesis by simp
qed

text \<open>
  C21. The writer goroutine makes progress and is invisible: after one step per queued change the
  queue is empty and the file holds every change, in order; at no step does the collection answer
  differently.
\<close>

theorem writer_drains:
  assumes "coll_wf ic" "writeToDisk ic"
  shows "dBWriteQueue ((writerStep ^^ length (dBWriteQueue ic)) ic) = [] \<and>
    db_bytes (the (db_file ((writerStep ^^ length (dBWriteQueue ic)) ic))) =
      fold applyBytes (dBWriteQueue ic) (db_bytes (the (db_file ic))) \<and>
    quiet ic ((writerStep ^^ n) ic) \<and> triples ((writerStep ^^ n) ic) = triples ic"
proof -
  have inv: "disk_inv ic" using wfD(2) [OF assms(1)] assms(2) by (simp add: store_inv_def)
  let ?ic = "(writerStep ^^ length (dBWriteQueue ic)) ic"
  note w = writerSteps_spec [OF inv, of "length (dBWriteQueue ic)"]
  obtain f f' where f: "db_file ic = Some f" "db_file ?ic = Some f'"
    using inv w(1) by (auto simp: disk_inv_def)
  have "db_bytes f' = diskBytes ?ic" using w(3) f(2) by (simp add: diskBytes_def)
  also have "\<dots> = fold applyBytes (dBWriteQueue ic) (db_bytes f)" unfolding w(2) by (simp add: diskBytes_def f(1))
  finally show ?thesis
    using w(3) f quietD(2) [OF assms(1)] writerSteps_quiet [OF assms] by auto
qed

theorem writer_drains_witness:
  "dBWriteQueue ((writerStep ^^ length (dBWriteQueue (snd (Add ''s'' ''r'' ''v'' (newDisk None None 0)))))
     (snd (Add ''s'' ''r'' ''v'' (newDisk None None 0)))) = []"
proof -
  let ?new = "newDisk None None 0"
  obtain e ic where a: "addLocked ''s'' ''r'' ''v'' ?new = (e, ic)" by (metis surj_pair)
  have st: "storable3 ''s'' ''r'' ''v''" by (simp add: storable3_def storable_short)
  have "room (need3 ''s'' ''r'' ''v'') ?new" by (rule wf_newDisk) (simp_all add: need3_def need_def)
  note ad = addLocked_spec [OF wf_newDisk(1) st this a]
  have "coll_wf ic" "writeToDisk ic"
    using ad(2,4) wf_newDisk(3) [of None None 0] by (simp_all add: same_config_def)
  from writer_drains [OF this] show ?thesis by (simp add: Add_def a)
qed

section \<open>The life of a collection\<close>

text \<open>
  C22. Closing and reopening. After \<open>closeDB\<close> of a healthy collection on disk, any handle with the same
  blob policy loads it again under any schedule of the load workers, without an error, writable, and
  with the same triples.
\<close>

theorem close_reopen_restores:
  assumes "coll_wf ic" "writeToDisk ic" "closeDB (pathOf key) (ic, w) = Some (ic1, w1)"
    and "writing db" "db_blobPolicy db = blobPolicy ic" "collectionAt (db, w1) key = None"
    and "healthyAt w (pathOf key)" "fair sched" "lockFree db w1 (pathOf key)"
  shows "\<exists>ic' s'. TryGetCollection sched key (db, w1) = Some ((ic', None), s') \<and> writable ic' \<and>
    writeToDisk ic' \<and> triples ic' = triples ic \<and>
    reverseRelations ic' = map_option remdups (reverseFor key db) \<and> collectionAt s' key = Some ic'"
proof -
  obtain ic2 w2 where c: "closeDB (pathOf key) (ic, w) = Some (ic2, w2)"
    "fileAt w2 = (fileAt w)(pathOf key \<mapsto> diskBytes ic)" "faults w2 = faults w"
    by (rule closeDB_spec [OF assms(1,2)])
  then have w1: "fileAt w1 (pathOf key) = Some (diskBytes ic @ [])" "healthyAt w1 (pathOf key)"
    using assms(3,7) by (simp_all add: healthyAt_def)
  obtain ic' w' where i: "initialize sched key False db w1 = Some ((ic', None), w')" "loads ic db key w1 ic' w'"
    by (rule initialize_existing [OF assms(1,2,4,5) w1(1) _ w1(2) assms(8,9)]) (simp add: ENTRY_SIZE_50)
  note t = TryGet_loads [OF assms(6) i(1)]
  from t TryGet_keys [OF t] i(2) show ?thesis by (auto simp: loads_def)
qed

theorem close_reopen_restores_witness:
  "\<exists>ic1 w1 ic' s'. closeDB (pathOf exampleKey) (oneOnDisk, emptyWorld) = Some (ic1, w1) \<and>
     TryGetCollection inFileOrder exampleKey (NewDB True, w1) = Some ((ic', None), s') \<and>
     triples ic' = {trip ''song'' ''tag'' ''live''}"
proof -
  obtain ic1 w1 where c: "closeDB (pathOf exampleKey) (oneOnDisk, emptyWorld) = Some (ic1, w1)"
    by (rule closeDB_spec [OF oneOnDisk_facts(5,2)])
  show ?thesis
    using close_reopen_restores [OF oneOnDisk_facts(5,2) c, of "NewDB True" inFileOrder] c oneOnDisk_facts(3,4)
    by (auto simp: fair_inFileOrder)
qed



text \<open>
  C24. Dropping a collection. On a writing handle \<open>DropCollection\<close> of a loaded, healthy collection
  reports no error, removes its file and forgets it; the next use of the key gives a fresh, writable
  collection with no triples. Every other key keeps its collection and its file.
\<close>

theorem Drop_then_empty:
  assumes "writing db" "collectionAt (db, w) key = Some ic" "coll_wf ic" "writeToDisk ic"
    and "healthyAt w (pathOf key)" "locking db \<longrightarrow> pathOf key \<in> set (locks w) \<longrightarrow> lockHeld ic"
    and "\<And>p. db_blobPolicy db = Some p \<Longrightarrow> policy_ok p" "fair sched"
  shows "\<exists>s1 ic' s2. DropCollection key (db, w) = Some (None, s1) \<and> fileAt (snd s1) (pathOf key) = None \<and>
    (\<forall>k. k \<noteq> key \<longrightarrow> collectionAt s1 k = collectionAt (db, w) k) \<and>
    (\<forall>p. p \<noteq> pathOf key \<longrightarrow> fileAt (snd s1) p = fileAt w p) \<and>
    TryGetCollection sched key s1 = Some ((ic', None), s2) \<and> writable ic' \<and> triples ic' = {}"
proof -
  let ?db = "db\<lparr>collections := lt_Delete key (collections db)\<rparr>"
  obtain w1 where d: "DropCollection key (db, w) = Some (None, ?db, w1)"
    "fileAt w1 = (fileAt w)(pathOf key := None)" "faults w1 = faults w"
    "locking db \<Longrightarrow> pathOf key \<notin> set (locks w1)"
    by (rule DropCollection_spec [OF assms(1-5)]) (use assms(6) in auto)
  have ok: "writing ?db" "\<And>p. db_blobPolicy ?db = Some p \<Longrightarrow> policy_ok p" "fileAt w1 (pathOf key) = None"
    "healthyAt w1 (pathOf key)" "lockFree ?db w1 (pathOf key)"
    using assms(1,5,7) d(2-4) by (simp_all add: writing_def healthyAt_def lockFree_def)
  obtain ic' w2 ic0 where i: "initialize sched key False ?db w1 = Some ((ic', None), w2)" "loads ic0 ?db key w1 ic' w2"
    "triples ic0 = {}"
    by (rule initialize_missing [OF ok(1-4) assms(8) ok(5)])
  from TryGet_loads [OF _ i(1)] d i(2,3) show ?thesis
    by (intro exI [of _ "(?db, w1)"]) (auto simp: loads_def)
qed

theorem Drop_then_empty_witness:
  "\<exists>s1. DropCollection exampleKey
      ((NewDB True)\<lparr>collections := lt_Put exampleKey oneOnDisk (collections (NewDB True))\<rparr>, emptyWorld) = Some (None, s1) \<and>
    fileAt (snd s1) (pathOf exampleKey) = None"
proof -
  let ?db = "(NewDB True)\<lparr>collections := lt_Put exampleKey oneOnDisk (collections (NewDB True))\<rparr>"
  have "writing ?db" "collectionAt (?db, emptyWorld) exampleKey = Some oneOnDisk" "\<not> locking ?db" "db_blobPolicy ?db = None"
    by (simp_all add: writing_def NewDB_def)
  then show ?thesis
    using Drop_then_empty [of ?db emptyWorld exampleKey oneOnDisk inFileOrder] oneOnDisk_facts(2,5)
    by (auto simp: fair_inFileOrder)
qed

text \<open>
  C25. Lookups do not create and keys do not interfere. \<open>LookupCollection\<close> of a key that is neither
  loaded nor on disk answers nothing and changes nothing; whatever \<open>TryGetCollection\<close> and
  \<open>LookupCollection\<close> load, they put under their own key only, and a key once loaded keeps its
  collection.
\<close>

theorem handle_isolation:
  assumes "collectionAt s key = None"
  shows "(\<not> db_writeToDisk (fst s) \<or> fileAt (snd s) (pathOf key) = None \<longrightarrow> LookupCollection sched key s = Some (None, s)) \<and>
    (\<forall>ic e s'. TryGetCollection sched key s = Some ((ic, e), s') \<longrightarrow> collectionAt s' = (collectionAt s)(key \<mapsto> ic)) \<and>
    (\<forall>ic s'. LookupCollection sched key s = Some (Some ic, s') \<longrightarrow> collectionAt s' = (collectionAt s)(key \<mapsto> ic)) \<and>
    (\<forall>col k. collectionAt s k = Some col \<longrightarrow>
       TryGetCollection sched k s = Some ((col, ioErr col), s) \<and> LookupCollection sched k s = Some (Some col, s))"
  using TryGet_keys [of sched key s] Lookup_keys [of sched key s] assms
  by (auto simp: LookupCollection_def TryGet_loaded)

theorem handle_isolation_witness:
  "LookupCollection inFileOrder exampleKey (NewDB True, emptyWorld) = Some (None, NewDB True, emptyWorld)"
  using handle_isolation [of "(NewDB True, emptyWorld)" exampleKey inFileOrder] by simp



section \<open>Free-text search\<close>


definition asciiUnicode :: unicode where
  "asciiUnicode =
     \<lparr>ToLower = map (\<lambda>c. if 65 \<le> (of_char c :: nat) \<and> of_char c \<le> (90 :: nat) then char_of ((of_char c :: nat) + 32) else c),
      NFD = (\<lambda>s. s), isMn = (\<lambda>_. False), isSpace = (\<lambda>r. r = 32 \<or> 9 \<le> r \<and> r \<le> 13),
      isLetter = (\<lambda>r. 65 \<le> r \<and> r \<le> 90 \<or> 97 \<le> r \<and> r \<le> 122), isDigit = (\<lambda>r. 48 \<le> r \<and> r \<le> 57)\<rparr>"

definition exampleSearch :: SearchQuery where
  "exampleSearch = \<lparr>sq_Text = ''Live'', Relations = [''tag''], TieTypes = [], Mode = ''fuzzy'', sq_Offset = 0, sq_Limit = 10, Weights = []\<rparr>"

definition oneLive :: collection where
  "oneLive = snd (Add ''song'' ''tag'' ''live'' (newCollection False False None None 1000))"

lemma oneLive_facts: "searchable oneLive" "triples oneLive = {trip ''song'' ''tag'' ''live''}"
  "op_step\<^sup>*\<^sup>* (newCollection False False None None 1000) oneLive" "writable oneLive"
proof -
  let ?new = "newCollection False False None None 1000"
  have st: "storable3 ''song'' ''tag'' ''live''" by (simp add: storable3_def storable_short)
  have room: "room (need3 ''song'' ''tag'' ''live'') ?new" by (simp add: need3_def need_def room_newMemory)
  have gen: "searchGen ?new \<noteq> - 1" by (simp add: newCollection_def SetBlobPolicy_def SetReverseRelations_def Let_def)
  have step: "op_step ?new oneLive" unfolding oneLive_def by (rule op_step.add [OF st room gen])
  then show "op_step\<^sup>*\<^sup>* ?new oneLive" by simp
  from op_step_invariant [OF step writable_newMemory searchable_new(1)]
  show "searchable oneLive" "writable oneLive" by simp_all
  obtain e ic where a: "addLocked ''song'' ''tag'' ''live'' ?new = (e, ic)" by (metis surj_pair)
  have "triples ic = insert \<lparr>Key = ''song'', Value1 = ''tag'', Value2 = ''live''\<rparr> (triples ?new)"
    by (rule addLocked_spec(3) [OF writable_newMemory st room a])
  then show "triples oneLive = {trip ''song'' ''tag'' ''live''}"
    using wf_newMemory(2) [of None False None 1000] a by (simp add: oneLive_def Add_def trip_def)
qed


text \<open>
  C28. The bounded heap of \<open>rankCorpus\<close> is equivalent to sorting everything: the page is the window at
  \<open>offset\<close> of all hits, best first, and the total counts every hit.
\<close>

theorem rankCorpus_sorts:
  assumes "0 \<le> offset" "0 < limit"
  shows "rankCorpus u c q offset limit =
    Some (take (nat limit) (drop (nat offset) (bestFirst (hitsOf u q (sc_subjects c)))),
      length (hitsOf u q (sc_subjects c)), sc_revision c) \<and>
    sorted_wrt (\<lambda>a b. compareSearchMatch b a \<le> 0) (bestFirst (hitsOf u q (sc_subjects c))) \<and>
    mset (bestFirst (hitsOf u q (sc_subjects c))) = mset (hitsOf u q (sc_subjects c))"
  using rankCorpus_spec [OF assms] bestFirst_spec by blast

theorem rankCorpus_sorts_witness:
  "rankCorpus asciiUnicode (corpusOf 3 []) (prepareSearchQuery asciiUnicode exampleSearch) 0 10 = Some ([], 0, 3)"
  using rankCorpus_sorts [of 0 10 asciiUnicode "corpusOf 3 []" "prepareSearchQuery asciiUnicode exampleSearch"]
  by (simp add: hitsOf_def bestFirst_def map_filter_simps)

text \<open>
  C29. The fuzzy match counts edits. For a candidate of at most \<open>maxFuzzyCandidateBytes\<close> bytes,
  \<open>editDistanceWithin\<close> does not panic, accepts exactly the candidates that the least number of
  single-rune insertions, deletions and replacements reaches within the bound, and returns that number.
\<close>

theorem editDistance_least:
  assumes "0 < max'" "length b \<le> maxFuzzyCandidateBytes"
  shows "\<exists>d ok. editDistanceWithin a b max' = Some (d, ok) \<and>
    (ok \<longleftrightarrow> int (LEAST n. reachable_in n (runes a) (runes b)) \<le> max') \<and>
    (ok \<longrightarrow> d = (LEAST n. reachable_in n (runes a) (runes b)))"
  using editDistanceWithin_spec [OF assms, of a] unfolding lev_least by blast

theorem editDistance_least_witness:
  "\<exists>d ok. editDistanceWithin ''kitten'' ''sitting'' 3 = Some (d, ok) \<and>
    (ok \<longleftrightarrow> int (LEAST n. reachable_in n (runes ''kitten'') (runes ''sitting'')) \<le> 3) \<and> ok"
proof -
  have "editDistanceWithin ''kitten'' ''sitting'' 3 = Some (3, True)" by code_simp
  with editDistance_least [of 3 "''sitting''" "''kitten''"] show ?thesis by (auto simp: maxFuzzyCandidateBytes_def)
qed



text \<open>
  C31. Every reachable collection is healthy. From a new collection, in memory or on disk, whatever adds,
  deletes, searches and writer steps follow, the index and the store agree, the corpus cache is within its
  byte and entry budget with its accounting exact, and no cached corpus of the current generation is
  stale.
\<close>

theorem reachable_healthy:
  assumes "ic0 = newCollection False False rs None mb \<or> ic0 = newDisk rs None mb" "op_step\<^sup>*\<^sup>* ic0 ic"
  shows "writable ic \<and> coll_wf ic \<and> cache_ok ic \<and> cache_fresh ic"
proof -
  have "writable ic0" "searchable ic0"
    using assms(1) writable_newMemory searchable_new(1) searchable_new(2) [of None] wf_newDisk(1) [of None] by auto
  from reachable_invariant [OF assms(2) this] show ?thesis by (simp add: searchable_def)
qed

theorem reachable_healthy_witness: "cache_ok oneLive \<and> cache_fresh oneLive"
  using reachable_healthy [of "newCollection False False None None 1000" None 1000 oneLive] oneLive_facts(3) by simp



section \<open>The index check\<close>

text \<open>
  C33. No false alarm: on a well-formed collection \<open>CheckIndex\<close>, shallow or deep, with or without
  repair, reports no problem, repairs nothing, counts one forward entry per stored triple and one
  reverse entry per triple of an indexed relation, and leaves the triples as they were.
\<close>

theorem CheckIndex_no_false_alarm:
  assumes "coll_wf ic" "CheckIndex opts ic = (rep, ic')"
  shows "Problems rep = 0 \<and> Repaired rep = 0 \<and> Samples rep = [] \<and> ForwardEntries rep = card (triples ic) \<and>
    ReverseEntries rep = card {st \<in> triples ic. reverseIndexed ic (Value1 st)} \<and> coll_wf ic' \<and> triples ic' = triples ic"
proof -
  obtain ic1 where c: "quiet ic ic1" "CheckIndex opts ic =
    (\<lparr>ForwardEntries = card (triples ic), ReverseEntries = card {st \<in> triples ic. reverseIndexed ic (Value1 st)},
      MissingReverse = 0, ReverseOnly = 0, PositionMismatch = 0, Misresolved = 0, Repaired = 0,
      rep_Deep = Deep opts, Samples = []\<rparr>, ic1)"
    by (rule CheckIndex_healthy [OF assms(1)])
  with assms(2) quietD(1,2) [OF assms(1) c(1)] show ?thesis by (auto simp: Problems_def)
qed

theorem CheckIndex_no_false_alarm_witness:
  "ForwardEntries (fst (CheckIndex \<lparr>Deep = True, Repair = True, SampleLimit = 0\<rparr> twoTagged)) = 2"
proof -
  let ?o = "\<lparr>Deep = True, Repair = True, SampleLimit = 0\<rparr>"
  have wf: "coll_wf twoTagged" using twoTagged_facts(1) by (simp add: writable_def)
  obtain rep ic' where c: "CheckIndex ?o twoTagged = (rep, ic')" by (metis surj_pair)
  have "card (triples twoTagged) = 2" by (simp add: twoTagged_facts(2))
  with CheckIndex_no_false_alarm [OF wf c] c show ?thesis by simp
qed





section \<open>Concurrent opens\<close>



text \<open>
  C36. A drop does not stop a load in flight: there is a run in which \<open>DropCollection\<close> removes the file
  and returns while a load of the key is under way, and the load then publishes the dropped triples.
\<close>

theorem drop_race:
  "\<exists>s s' s'' ic. handle_step\<^sup>*\<^sup>* (newFlight (NewDB True, storedWorld)) s \<and> drop_step exampleKey s s' \<and>
     fileAt (snd (handle s')) (pathOf exampleKey) = None \<and> collectionAt (handle s') exampleKey = None \<and>
     flight_step s' s'' \<and> collectionAt (handle s'') exampleKey = Some ic \<and> triples ic = {trip ''song'' ''tag'' ''live''}"
proof -
  obtain s ic where s: "handle_step\<^sup>*\<^sup>* (newFlight (NewDB True, storedWorld)) s" "callers s 0 = Loaded exampleKey 0 (ic, None)"
    "fst (handle s) = NewDB True" "faults (snd (handle s)) = (\<lambda>_. noFaults)" "triples ic = triples oneOnDisk"
    by (rule run_to_loaded)
  obtain s' s'' where "drop_step exampleKey s s'" "fileAt (snd (handle s')) (pathOf exampleKey) = None"
    "collectionAt (handle s') exampleKey = None" "flight_step s' s''" "collectionAt (handle s'') exampleKey = Some ic"
    by (rule drop_overtakes [OF s(2-4)])
  with s oneOnDisk_facts(3) show ?thesis by metis
qed



section \<open>Names on a Windows share\<close>

text \<open>
  C38. Escaping a name for a Windows client is reversible and collision-free, and the result is a legal
  file name: it has no forbidden or control byte, does not end in a dot or a space, and its base is not a device name.
\<close>

theorem escapeName_roundtrip:
  "unescapeName (escapeName name) = name \<and> smb_legal (escapeName name) \<and> (escapeName name = escapeName name' \<longleftrightarrow> name = name')"
  using unescape_escape [of name] unescape_escape [of name'] escapeName_legal [of name] by metis

section \<open>The disk cache\<close>

text \<open>
  C39. In every interleaving of readers, producers, trims and a close, the eviction loop ends, and leaves an open
  cache within its budget or with the one object it must keep; the byte count is the sum of the listed
  objects, the map holds exactly the listed objects and those being filled, and every listed object has
  its file. The hypothesis on the layout says that different keys have different paths.
\<close>

theorem disk_cache_sound:
  assumes "dc_New dir m layout ok = Inr c" "inj_layout c" "dc_step\<^sup>*\<^sup>* (newSys c d) s"
  shows "(\<exists>removed c'. evictLocked keep (cache s) [] = Some (removed, c') \<and>
      (\<not> dc_closed (cache s) \<longrightarrow> dc_curSize c' \<le> max 0 m \<or> (\<exists>r. dc_order c' = [(keep, r)]))) \<and>
    (\<not> dc_closed (cache s) \<longrightarrow>
      Stats (cache s) = (listedSize (cache s), length (dc_order (cache s)) + length (ownersOf s)) \<and>
      (\<forall>(k, r) \<in> set (dc_order (cache s)). ce_err (entryOf (cache s) r) = None \<and> cdisk s (ce_path (entryOf (cache s) r)) \<noteq> None))"
proof -
  from reachable_inv [OF assms] have i: "dc_inv s" "dc_maxSize (cache s) = dc_maxSize c" by (simp_all add: same_options_def)
  have m: "dc_maxSize c = m" using assms(1) by (auto simp: dc_New_def split: if_splits)
  note v = dc_invD [OF i(1)]
  show ?thesis
    using evict_budget [OF v(1) v(2), of keep] stats_count [OF v(1) v(2)] v(3) unfolding i(2) m filed_def by fastforce
qed

definition smallCache :: Cache where
  "smallCache = projr (dc_New ''d'' 10 None True)"

lemma smallCache_facts: "dc_New ''d'' 10 None True = Inr smallCache" "inj_layout smallCache"
  by (simp_all add: smallCache_def dc_New_def inj_layout_def)

theorem disk_cache_sound_witness:
  "\<exists>removed c'. evictLocked '''' (Adopt ''k'' ''d/k'' 20 smallCache) [] = Some (removed, c') \<and>
     (dc_curSize c' \<le> 10 \<or> (\<exists>r. dc_order c' = [('''', r)]))"
proof -
  let ?d = "[''d/k'' \<mapsto> replicate 20 0]"
  have "dc_step (newSys smallCache ?d) ((newSys smallCache ?d)\<lparr>cache := Adopt ''k'' ''d/k'' 20 (cache (newSys smallCache ?d))\<rparr>)"
    by (rule dc_step.adopt) (simp_all add: newSys_def smallCache_def dc_New_def)
  from disk_cache_sound [OF smallCache_facts r_into_rtranclp [where r = dc_step, OF this], of "''''"] show ?thesis
    by (auto simp: newSys_def smallCache_def dc_New_def Adopt_def Let_def)
qed

text \<open>
  C40. A second \<open>Get\<close> of a key answers from the cache: when no goroutine is inside \<open>start\<close> and a \<open>Get\<close> succeeded,
  another \<open>Get\<close> of the key, whatever its producer would do, gives a handle on the same entry with the same
  bytes and leaves the disk alone.
\<close>

theorem Get_cached:
  assumes "dc_New dir m layout ok = Inr c0" "inj_layout c0" "dc_step\<^sup>*\<^sup>* (newSys c0 d0) s" "producing s = []" "produced s = []"
    "dc_Get key run True (cache s) (cdisk s) = Some (Inr h, c', d')"
  shows "\<exists>h' c''. dc_Get key run' True c' d' = Some (Inr h', c'', d') \<and> h_f h' = h_f h \<and> h_e h' = h_e h"
proof -
  from reachable_inv [OF assms(1-3)] have i: "dc_inv s" by simp
  note v = dc_invD [OF i, unfolded assms(4,5)]
  have "\<not> dc_closed (cache s)"
    using assms(6) by (auto simp: dc_Get_def start_def startBegin_def)
  with v show ?thesis by (intro Get_again [OF assms(6)]) simp_all
qed

theorem Get_cached_witness:
  "\<exists>h h' c' d' c''.
     dc_Get ''k'' \<lparr>mkdirOk = True, createOk = True, written = [7], produceErr = None, statOk = True, removeOk = True\<rparr> True
       smallCache Map.empty = Some (Inr h, c', d') \<and>
     dc_Get ''k'' \<lparr>mkdirOk = False, createOk = False, written = [], produceErr = None, statOk = True, removeOk = True\<rparr> True
       c' d' = Some (Inr h', c'', d') \<and> h_f h' = Some [7]"
proof -
  let ?run = "\<lparr>mkdirOk = True, createOk = True, written = [7], produceErr = None, statOk = True, removeOk = True\<rparr>"
  let ?s = "newSys smallCache Map.empty"
  have "\<exists>h c' d'. dc_Get ''k'' ?run True (cache ?s) (cdisk ?s) = Some (Inr h, c', d') \<and> h_f h = Some [7]"
    by (simp add: dc_Get_def start_def startBegin_def produceInto_def mkdirFor_def lastSlash_def writeThrough_def startDone_def
        evictLocked.simps closeReady_def openHandle_def takeRef_def touch_def unlinkAll_def newSys_def smallCache_def dc_New_def Let_def)
  then obtain h c' d' where g: "dc_Get ''k'' ?run True (cache ?s) (cdisk ?s) = Some (Inr h, c', d')" "h_f h = Some [7]" by blast
  have "producing ?s = []" "produced ?s = []" "cache ?s = smallCache" "cdisk ?s = Map.empty" by (simp_all add: newSys_def)
  with Get_cached [OF smallCache_facts rtranclp.rtrancl_refl _ _ g(1)] g show ?thesis by metis
qed

end
